(* ===== verification/Redis_Prelude.thy ===== *)
theory Redis_Prelude
  imports Main "HOL-Library.Word" "HOL-Library.Monad_Syntax"
begin

text \<open>
  Shared vocabulary of the development: the machine types the C sources use, memory blocks as
  byte lists with bounds-checked access (an access outside a block is undefined behaviour in C
  and the value \<^const>\<open>None\<close> here), the little-endian codec of fixed-width integers, and the
  generic list lemmas that the component theories share.  The collections \<open>mem_simps\<close> and
  \<open>codec_simps\<close> carry the proofs about memory and about integer encodings.
\<close>

section \<open>Machine types\<close>

type_synonym byte = "8 word"
type_synonym u16 = "16 word"
type_synonym u32 = "32 word"
type_synonym u64 = "64 word"

text \<open>A block of memory, as \<open>zmalloc\<close> returns it.\<close>
type_synonym mem = "byte list"

named_theorems mem_simps \<open>bounds-checked memory access\<close>
named_theorems codec_simps \<open>integer encodings\<close>

definition int_fits :: "nat \<Rightarrow> int \<Rightarrow> bool" where
  "int_fits k v \<longleftrightarrow> - (2 ^ (8 * k - 1)) \<le> v \<and> v < 2 ^ (8 * k - 1)"

definition uint_fits :: "nat \<Rightarrow> int \<Rightarrow> bool" where
  "uint_fits k v \<longleftrightarrow> 0 \<le> v \<and> v < 2 ^ (8 * k)"

abbreviation int64 :: "int \<Rightarrow> bool" where
  "int64 \<equiv> int_fits 8"

abbreviation str_bytes :: "string \<Rightarrow> byte list" where
  "str_bytes \<equiv> map of_char"

section \<open>Memory blocks\<close>

definition mem_read :: "nat \<Rightarrow> nat \<Rightarrow> 'a list \<Rightarrow> 'a list option" where
  "mem_read off n m = (if off + n \<le> length m then Some (take n (drop off m)) else None)"

definition mem_write :: "nat \<Rightarrow> 'a list \<Rightarrow> 'a list \<Rightarrow> 'a list option" where
  "mem_write off bs m =
     (if off + length bs \<le> length m
      then Some (take off m @ bs @ drop (off + length bs) m) else None)"

text \<open>\<open>memmove\<close>: the source is read in full before the destination is written.\<close>

definition mem_move :: "nat \<Rightarrow> nat \<Rightarrow> nat \<Rightarrow> 'a list \<Rightarrow> 'a list option" where
  "mem_move dst src n m = do { bs \<leftarrow> mem_read src n m; mem_write dst bs m }"

text \<open>\<open>zrealloc\<close>: the common prefix is kept; the bytes of a grown tail are indeterminate, so they
  are an argument of every operation that allocates.\<close>

definition mem_resize :: "(nat \<Rightarrow> 'a) \<Rightarrow> nat \<Rightarrow> 'a list \<Rightarrow> 'a list" where
  "mem_resize fill n m = take n m @ map fill [length m..<n]"

lemma length_mem_resize [simp]: "length (mem_resize fill n m) = n"
  by (simp add: mem_resize_def)

lemma mem_read_Some [mem_simps]:
  "off + n \<le> length m \<Longrightarrow> mem_read off n m = Some (take n (drop off m))"
  by (simp add: mem_read_def)

lemma mem_write_Some [mem_simps]:
  "off + length bs \<le> length m \<Longrightarrow>
   mem_write off bs m = Some (take off m @ bs @ drop (off + length bs) m)"
  by (simp add: mem_write_def)

lemma mem_read_None_iff: "mem_read off n m = None \<longleftrightarrow> length m < off + n"
  by (auto simp: mem_read_def)

lemma mem_write_None_iff: "mem_write off bs m = None \<longleftrightarrow> length m < off + length bs"
  by (auto simp: mem_write_def)

lemma mem_read_length: "mem_read off n m = Some bs \<Longrightarrow> length bs = n"
  by (auto simp: mem_read_def split: if_splits)

lemma mem_write_length: "mem_write off bs m = Some m' \<Longrightarrow> length m' = length m"
  by (auto simp: mem_write_def split: if_splits)

lemma mem_read_write_same:
  "mem_write off bs m = Some m' \<Longrightarrow> mem_read off (length bs) m' = Some bs"
  by (auto simp: mem_write_def mem_read_def split: if_splits)

lemma mem_read_at [mem_simps]: "mem_read (length xs) (length ys) (xs @ ys @ zs) = Some ys"
  by (simp add: mem_read_def)

lemma mem_write_at:
  "length bs = length ys \<Longrightarrow> mem_write (length xs) bs (xs @ ys @ zs) = Some (xs @ bs @ zs)"
  by (simp add: mem_write_def)

lemma mem_move_Some:
  assumes "src + n \<le> length m" "dst + n \<le> length m"
  shows "mem_move dst src n m = Some (take dst m @ take n (drop src m) @ drop (dst + n) m)"
  using assms by (simp add: mem_move_def mem_read_def mem_write_def min_absorb2)

lemma length_2E:
  assumes "length xs = 2"
  obtains a b where "xs = [a, b]"
proof -
  from assms obtain a ys where "xs = a # ys" "length ys = 1" by (cases xs) auto
  moreover from this obtain b where "ys = [b]" by (cases ys) auto
  ultimately show thesis using that by simp
qed

section \<open>Little-endian integers\<close>

primrec le_bytes :: "nat \<Rightarrow> int \<Rightarrow> byte list" where
  "le_bytes 0 v = []"
| "le_bytes (Suc k) v = word_of_int v # le_bytes k (v div 256)"

primrec le_val :: "byte list \<Rightarrow> int" where
  "le_val [] = 0"
| "le_val (b # bs) = uint b + 256 * le_val bs"

text \<open>Two's complement reading of a \<open>k\<close>-byte unsigned value.\<close>

definition to_signed :: "nat \<Rightarrow> int \<Rightarrow> int" where
  "to_signed k u = (if u < 2 ^ (8 * k - 1) then u else u - 2 ^ (8 * k))"

lemma length_le_bytes [simp]: "length (le_bytes k v) = k"
  by (induction k arbitrary: v) auto

lemma le_val_nonneg: "0 \<le> le_val bs"
  by (induction bs) auto

lemma le_val_bound: "le_val bs < 256 ^ length bs"
proof (induction bs)
  case (Cons b bs)
  have "uint b \<le> 255" using uint_lt2p[of b] by simp
  with Cons show ?case by (simp add: algebra_simps)
qed simp

lemma le_val_le_bytes [codec_simps]: "le_val (le_bytes k v) = v mod 256 ^ k"
proof (induction k arbitrary: v)
  case (Suc k)
  have "uint (word_of_int v :: byte) = v mod 256" by (simp add: uint_word_of_int)
  moreover have "v mod (256 * 256 ^ k) = 256 * (v div 256 mod 256 ^ k) + v mod 256"
    by (rule zmod_zmult2_eq) simp
  ultimately show ?case by (simp add: Suc)
qed simp

lemma le_bytes_mod: "le_bytes k (v mod 256 ^ k) = le_bytes k v"
proof (induction k arbitrary: v)
  case (Suc k)
  have m: "v mod (256 * 256 ^ k) = 256 * (v div 256 mod 256 ^ k) + v mod 256"
    by (rule zmod_zmult2_eq) simp
  then have "v mod 256 ^ Suc k div 256 = v div 256 mod 256 ^ k" by simp
  moreover have "(word_of_int (v mod 256 ^ Suc k) :: byte) = word_of_int v"
  proof -
    have "(v mod 256 ^ Suc k) mod 256 = v mod 256" by (simp add: m)
    then show ?thesis
      by (simp add: word_of_int_eq_iff take_bit_eq_mod)
  qed
  ultimately show ?case using Suc by simp
qed simp

lemma le_bytes_le_val: "le_bytes (length bs) (le_val bs) = bs"
proof (induction bs)
  case (Cons b bs)
  have "(uint b + 256 * le_val bs) div 256 = le_val bs"
    using uint_lt2p[of b] by simp
  moreover have z: "(256 :: byte) = 0" by simp
  have "(256 :: byte) * x = 0" for x by (subst z) (rule mult_zero_left)
  then have "word_of_int (uint b + 256 * le_val bs) = b" by simp
  ultimately show ?case using Cons by simp
qed simp

lemma to_signed_mod [codec_simps]:
  assumes "int_fits k v" "0 < k"
  shows "to_signed k (v mod 256 ^ k) = v"
proof -
  obtain j where k: "k = Suc j" using assms(2) by (cases k) auto
  have p: "(256::int) ^ k = 2 * 2 ^ (8 * k - 1)"
    by (simp add: k power_add power_mult)
  show ?thesis
  proof (cases "0 \<le> v")
    case True
    with assms(1) p have "v mod 256 ^ k = v" by (simp add: int_fits_def)
    with assms(1) show ?thesis by (simp add: int_fits_def to_signed_def)
  next
    case False
    with assms(1) p have "(v + 256 ^ k) mod 256 ^ k = v + 256 ^ k"
      by (intro mod_pos_pos_trivial) (simp_all add: int_fits_def)
    then have "v mod 256 ^ k = v + 256 ^ k" by simp
    with False assms(1) p show ?thesis by (simp add: int_fits_def to_signed_def power_mult)
  qed
qed

lemma to_signed_fits: "0 < k \<Longrightarrow> 0 \<le> u \<Longrightarrow> u < 256 ^ k \<Longrightarrow> int_fits k (to_signed k u)"
proof -
  assume "0 < k" "0 \<le> u" "u < 256 ^ k"
  moreover have "(256::int) ^ k = 2 * 2 ^ (8 * k - 1)" if "0 < k"
    using that by (cases k) (simp_all add: power_add power_mult)
  moreover have "(2::int) ^ (8 * k) = 256 ^ k" by (simp add: power_mult)
  ultimately show ?thesis by (auto simp: int_fits_def to_signed_def)
qed

end
