(* ===== verification/Redis_Interfaces.thy ===== *)
theory Redis_Interfaces
  imports Redis_Prelude
begin

text \<open>
  The contracts the data structures of the server promise to their clients, as locales.  Each is
  interpreted in the theory of the structure that provides it, on the definitions that model the
  code.  Operations return \<^const>\<open>None\<close> for an invalid memory access, so every law also says that
  the operation is memory safe.
\<close>

section \<open>Sets with bounded capacity\<close>

locale member_set =
  fixes invar :: "'s \<Rightarrow> bool"
    and elems :: "'s \<Rightarrow> 'a set"
    and size :: "'s \<Rightarrow> nat"
    and capacity :: nat
    and elem_ok :: "'a \<Rightarrow> bool"
    and add :: "'s \<Rightarrow> 'a \<Rightarrow> ('s \<times> bool) option"
    and remove :: "'s \<Rightarrow> 'a \<Rightarrow> ('s \<times> bool) option"
    and find :: "'s \<Rightarrow> 'a \<Rightarrow> bool option"
  assumes size_elems: "invar s \<Longrightarrow> finite (elems s) \<and> size s = card (elems s)"
    and add_law: "invar s \<Longrightarrow> elem_ok x \<Longrightarrow> size s < capacity \<Longrightarrow>
      \<exists>s'. add s x = Some (s', x \<notin> elems s) \<and> invar s' \<and> elems s' = insert x (elems s)"
    and remove_law: "invar s \<Longrightarrow> elem_ok x \<Longrightarrow>
      \<exists>s'. remove s x = Some (s', x \<in> elems s) \<and> invar s' \<and> elems s' = elems s - {x}"
    and find_law: "invar s \<Longrightarrow> elem_ok x \<Longrightarrow> find s x = Some (x \<in> elems s)"
begin

lemma size_add:
  assumes "invar s" "elem_ok x" "size s < capacity" "add s x = Some (s', b)"
  shows "size s' = size s + (if b then 1 else 0)"
  using add_law [OF assms(1-3)] assms(1,4) size_elems [of s] size_elems [of s']
  by (auto simp: card_insert_if)

lemma find_after_add:
  assumes "invar s" "elem_ok x" "elem_ok y" "size s < capacity"
  shows "\<exists>s' b. add s x = Some (s', b) \<and> find s' y = Some (y = x \<or> y \<in> elems s)"
  using add_law [OF assms(1,2,4)] assms(3) find_law by fastforce

lemma remove_after_add:
  assumes "invar s" "elem_ok x" "size s < capacity" "x \<notin> elems s"
  shows "\<exists>s1 s2. add s x = Some (s1, True) \<and> remove s1 x = Some (s2, True) \<and>
    invar s2 \<and> elems s2 = elems s"
proof -
  obtain s1 where s1: "add s x = Some (s1, True)" "invar s1" "elems s1 = insert x (elems s)"
    using add_law [OF assms(1-3)] assms(4) by auto
  then obtain s2 where "remove s1 x = Some (s2, True)" "invar s2" "elems s2 = elems s1 - {x}"
    using remove_law [of s1 x] assms(2) by auto
  with s1 assms(4) show ?thesis by auto
qed

text \<open>Adding a list of elements, counting the new ones, as the commands that build sets do.\<close>

primrec add_all :: "'s \<Rightarrow> 'a list \<Rightarrow> ('s \<times> nat) option" where
  "add_all s [] = Some (s, 0)"
| "add_all s (x # xs) =
     do { (s', b) \<leftarrow> add s x; (s'', n) \<leftarrow> add_all s' xs; Some (s'', n + (if b then 1 else 0)) }"

lemma add_all_correct:
  assumes "invar s" "\<forall>x \<in> set xs. elem_ok x" "size s + length xs \<le> capacity"
  shows "\<exists>s'. add_all s xs = Some (s', card (elems s \<union> set xs) - card (elems s)) \<and>
    invar s' \<and> elems s' = elems s \<union> set xs"
  using assms
proof (induction xs arbitrary: s)
  case (Cons x xs)
  obtain s1 where s1: "add s x = Some (s1, x \<notin> elems s)" "invar s1" "elems s1 = insert x (elems s)"
    using add_law [of s x] Cons.prems by auto
  have sz: "size s1 = size s + (if x \<notin> elems s then 1 else 0)"
    using size_add [OF _ _ _ s1(1)] Cons.prems by auto
  then have "size s1 + length xs \<le> capacity" using Cons.prems(3) by (auto split: if_splits)
  then obtain s2 where s2: "add_all s1 xs = Some (s2, card (elems s1 \<union> set xs) - card (elems s1))"
    "invar s2" "elems s2 = elems s1 \<union> set xs"
    using Cons.IH [OF s1(2)] Cons.prems by auto
  have fin: "finite (elems s)" "finite (elems s1)" using size_elems Cons.prems(1) s1(2) by auto
  have "card (elems s1) \<le> card (elems s1 \<union> set xs)" using fin by (intro card_mono) auto
  moreover have "card (elems s1) = card (elems s) + (if x \<notin> elems s then 1 else 0)"
    using s1(3) fin by (simp add: card_insert_if)
  ultimately show ?case using s1 s2 by auto
qed simp

end

section \<open>Key-value maps\<close>

text \<open>The calls a client makes on a dictionary, and what the abstract map answers.\<close>

datatype ('k, 'v) map_op = Op_add 'k 'v | Op_replace 'k 'v | Op_delete 'k | Op_fetch 'k

datatype 'v map_res = Res_flag bool | Res_val "'v option"

fun spec_op :: "('k, 'v) map_op \<Rightarrow> ('k \<rightharpoonup> 'v) \<Rightarrow> ('k \<rightharpoonup> 'v) \<times> 'v map_res" where
  "spec_op (Op_add k v) m = (if m k = None then (m(k \<mapsto> v), Res_flag True) else (m, Res_flag False))"
| "spec_op (Op_replace k v) m = (m(k \<mapsto> v), Res_flag (m k = None))"
| "spec_op (Op_delete k) m = (m(k := None), Res_flag (m k \<noteq> None))"
| "spec_op (Op_fetch k) m = (m, Res_val (m k))"

fun spec_run :: "('k, 'v) map_op list \<Rightarrow> ('k \<rightharpoonup> 'v) \<Rightarrow> ('k \<rightharpoonup> 'v) \<times> 'v map_res list" where
  "spec_run [] m = (m, [])"
| "spec_run (x # xs) m =
     (case spec_op x m of (m', r) \<Rightarrow> case spec_run xs m' of (m'', rs) \<Rightarrow> (m'', r # rs))"

locale kv_map =
  fixes invar :: "'d \<Rightarrow> bool"
    and amap :: "'d \<Rightarrow> 'k \<rightharpoonup> 'v"
    and capacity :: nat
    and add :: "'d \<Rightarrow> 'k \<Rightarrow> 'v \<Rightarrow> ('d \<times> bool) option"
    and replace :: "'d \<Rightarrow> 'k \<Rightarrow> 'v \<Rightarrow> ('d \<times> bool) option"
    and delete :: "'d \<Rightarrow> 'k \<Rightarrow> ('d \<times> bool) option"
    and fetch :: "'d \<Rightarrow> 'k \<Rightarrow> ('d \<times> 'v option) option"
  assumes finite_dom: "invar d \<Longrightarrow> finite (dom (amap d))"
    and add_law: "invar d \<Longrightarrow> card (dom (amap d)) < capacity \<Longrightarrow>
      \<exists>d'. add d k v = Some (d', amap d k = None) \<and> invar d' \<and>
        amap d' = (if amap d k = None then (amap d)(k \<mapsto> v) else amap d)"
    and replace_law: "invar d \<Longrightarrow> card (dom (amap d)) < capacity \<Longrightarrow>
      \<exists>d'. replace d k v = Some (d', amap d k = None) \<and> invar d' \<and> amap d' = (amap d)(k \<mapsto> v)"
    and delete_law: "invar d \<Longrightarrow>
      \<exists>d'. delete d k = Some (d', amap d k \<noteq> None) \<and> invar d' \<and> amap d' = (amap d)(k := None)"
    and fetch_law: "invar d \<Longrightarrow> \<exists>d'. fetch d k = Some (d', amap d k) \<and> invar d' \<and> amap d' = amap d"
begin

fun exec_op :: "('k, 'v) map_op \<Rightarrow> 'd \<Rightarrow> ('d \<times> 'v map_res) option" where
  "exec_op (Op_add k v) d = do { (d, b) \<leftarrow> add d k v; Some (d, Res_flag b) }"
| "exec_op (Op_replace k v) d = do { (d, b) \<leftarrow> replace d k v; Some (d, Res_flag b) }"
| "exec_op (Op_delete k) d = do { (d, b) \<leftarrow> delete d k; Some (d, Res_flag b) }"
| "exec_op (Op_fetch k) d = do { (d, v) \<leftarrow> fetch d k; Some (d, Res_val v) }"

fun exec_run :: "('k, 'v) map_op list \<Rightarrow> 'd \<Rightarrow> ('d \<times> 'v map_res list) option" where
  "exec_run [] d = Some (d, [])"
| "exec_run (x # xs) d = do { (d, r) \<leftarrow> exec_op x d; (d, rs) \<leftarrow> exec_run xs d; Some (d, r # rs) }"

lemma exec_op_refines:
  assumes "invar d" "card (dom (amap d)) < capacity"
  shows "\<exists>d'. exec_op x d = Some (d', snd (spec_op x (amap d))) \<and> invar d' \<and>
    amap d' = fst (spec_op x (amap d)) \<and> card (dom (amap d')) \<le> Suc (card (dom (amap d)))"
proof -
  have "\<exists>d'. exec_op x d = Some (d', snd (spec_op x (amap d))) \<and> invar d' \<and>
    amap d' = fst (spec_op x (amap d))"
  proof (cases x)
    case (Op_add k v)
    then show ?thesis using add_law [OF assms, of k v] by auto
  next
    case (Op_replace k v)
    then show ?thesis using replace_law [OF assms, of k v] by auto
  next
    case (Op_delete k)
    then show ?thesis using delete_law [OF assms(1), of k] by auto
  next
    case (Op_fetch k)
    then show ?thesis using fetch_law [OF assms(1), of k] by auto
  qed
  moreover have "card (dom (fst (spec_op x (amap d)))) \<le> Suc (card (dom (amap d)))"
  proof -
    have "\<exists>k. dom (fst (spec_op x (amap d))) \<subseteq> insert k (dom (amap d))"
      by (cases x) auto
    then obtain k where "dom (fst (spec_op x (amap d))) \<subseteq> insert k (dom (amap d))" by blast
    then have "card (dom (fst (spec_op x (amap d)))) \<le> card (insert k (dom (amap d)))"
      using finite_dom [OF assms(1)] by (intro card_mono) auto
    then show ?thesis using finite_dom [OF assms(1)] by (simp add: card_insert_if split: if_splits)
  qed
  ultimately show ?thesis by auto
qed

theorem exec_run_refines:
  assumes "invar d" "card (dom (amap d)) + length xs \<le> capacity"
  shows "\<exists>d'. exec_run xs d = Some (d', snd (spec_run xs (amap d))) \<and> invar d' \<and>
    amap d' = fst (spec_run xs (amap d))"
  using assms
proof (induction xs arbitrary: d)
  case (Cons x xs)
  then obtain d1 where d1: "exec_op x d = Some (d1, snd (spec_op x (amap d)))" "invar d1"
    "amap d1 = fst (spec_op x (amap d))" "card (dom (amap d1)) \<le> Suc (card (dom (amap d)))"
    using exec_op_refines [of d x] by auto
  then obtain d2 where "exec_run xs d1 = Some (d2, snd (spec_run xs (amap d1)))" "invar d2"
    "amap d2 = fst (spec_run xs (amap d1))"
    using Cons.IH [of d1] Cons.prems(2) by auto
  with d1 show ?case by (auto simp: split_beta)
qed simp

end

section \<open>Simulation\<close>

text \<open>
  A component whose operations run on a concrete state and refine operations on an abstract one, as long as the
  abstract state is smaller than a limit.  \<open>usable\<close> holds of the operations that a client may call, and \<open>cost\<close> is how
  much an operation may add to the state.
\<close>

locale simulation =
  fixes related :: "'c \<Rightarrow> 'a \<Rightarrow> bool"
    and usable :: "'op \<Rightarrow> bool"
    and weight :: "'a \<Rightarrow> nat"
    and cost :: "'op \<Rightarrow> nat"
    and limit :: nat
    and exec :: "'op \<Rightarrow> 'c \<Rightarrow> ('c \<times> 'r) option"
    and spec :: "'op \<Rightarrow> 'a \<Rightarrow> 'a \<times> 'r"
  assumes step_law: "related c a \<Longrightarrow> usable x \<Longrightarrow> weight a + cost x \<le> limit \<Longrightarrow>
      \<exists>c'. exec x c = Some (c', snd (spec x a)) \<and> related c' (fst (spec x a))"
    and weight_law: "related c a \<Longrightarrow> weight (fst (spec x a)) \<le> weight a + cost x"
begin

fun sim_exec :: "'op list \<Rightarrow> 'c \<Rightarrow> ('c \<times> 'r list) option" where
  "sim_exec [] c = Some (c, [])"
| "sim_exec (x # xs) c = do { (c, r) \<leftarrow> exec x c; (c, rs) \<leftarrow> sim_exec xs c; Some (c, r # rs) }"

fun sim_spec :: "'op list \<Rightarrow> 'a \<Rightarrow> 'a \<times> 'r list" where
  "sim_spec [] a = (a, [])"
| "sim_spec (x # xs) a = (case spec x a of (a', r) \<Rightarrow> case sim_spec xs a' of (a'', rs) \<Rightarrow> (a'', r # rs))"

theorem sim_refines:
  assumes "related c a" and "list_all usable xs" and "weight a + sum_list (map cost xs) \<le> limit"
  shows "\<exists>c'. sim_exec xs c = Some (c', snd (sim_spec xs a)) \<and> related c' (fst (sim_spec xs a))"
  using assms
proof (induction xs arbitrary: c a)
  case (Cons x xs)
  obtain a' r where a': "spec x a = (a', r)" by fastforce
  then obtain c' where c': "exec x c = Some (c', r)" "related c' a'"
    using step_law [of c a x] Cons.prems by auto
  have "weight a' + sum_list (map cost xs) \<le> limit" using weight_law [of c a x] a' Cons.prems by simp
  then obtain c'' where "sim_exec xs c' = Some (c'', snd (sim_spec xs a'))" "related c'' (fst (sim_spec xs a'))"
    using Cons.IH [OF c'(2)] Cons.prems(2) by auto
  then show ?case using a' c' by (auto simp: split_beta)
qed simp

end

end
