(* ===== verification/Redis_Intset.thy ===== *)
theory Redis_Intset
  imports Redis_Interfaces
begin

text \<open>
  The integer set of \<open>intset.c\<close>: a sorted array of signed integers that all use the width of the
  widest member (2, 4 or 8 bytes).  The model keeps the bytes of \<open>contents\<close> and writes out the
  32-bit arithmetic of the header fields; an access outside the allocated block is
  \<^const>\<open>None\<close>.  The host is little-endian, so the \<open>memrev..ifbe\<close> macros are the identity.
\<close>

section \<open>Data and operations\<close>

record intset =
  encoding :: nat
  len :: nat
  contents :: mem

abbreviation (input) INTSET_ENC_INT16 :: nat where "INTSET_ENC_INT16 \<equiv> 2"
abbreviation (input) INTSET_ENC_INT32 :: nat where "INTSET_ENC_INT32 \<equiv> 4"
abbreviation (input) INTSET_ENC_INT64 :: nat where "INTSET_ENC_INT64 \<equiv> 8"

definition intsetValueEncoding :: "int \<Rightarrow> nat" where
  "intsetValueEncoding v =
     (if v < - (2 ^ 31) \<or> v > 2 ^ 31 - 1 then INTSET_ENC_INT64
      else if v < - (2 ^ 15) \<or> v > 2 ^ 15 - 1 then INTSET_ENC_INT32
      else INTSET_ENC_INT16)"

text \<open>The element width that the pointer casts of the source select.\<close>

definition cast_width :: "nat \<Rightarrow> nat" where
  "cast_width enc =
     (if enc = INTSET_ENC_INT64 then 8 else if enc = INTSET_ENC_INT32 then 4 else 2)"

definition intsetGetEncoded :: "intset \<Rightarrow> int \<Rightarrow> nat \<Rightarrow> int option" where
  "intsetGetEncoded is pos enc =
     (let w = cast_width enc in
      if pos < 0 then None
      else do { bs \<leftarrow> mem_read (nat pos * w) w (contents is); Some (to_signed w (le_val bs)) })"

definition p_intsetGet :: "intset \<Rightarrow> int \<Rightarrow> int option" where
  "p_intsetGet is pos = intsetGetEncoded is pos (encoding is)"

definition p_intsetSet :: "intset \<Rightarrow> int \<Rightarrow> int \<Rightarrow> intset option" where
  "p_intsetSet is pos value =
     (let w = cast_width (encoding is) in
      if pos < 0 then None
      else do { c \<leftarrow> mem_write (nat pos * w) (le_bytes w value) (contents is);
                Some (is\<lparr>contents := c\<rparr>) })"

definition intsetNew :: intset where
  "intsetNew = \<lparr>encoding = INTSET_ENC_INT16, len = 0, contents = []\<rparr>"

definition intsetResize :: "(nat \<Rightarrow> byte) \<Rightarrow> intset \<Rightarrow> nat \<Rightarrow> intset" where
  "intsetResize fill is n =
     (let size = n * encoding is mod 2 ^ 32 in
      is\<lparr>contents := mem_resize fill size (contents is)\<rparr>)"

partial_function (option) intsetSearch_loop ::
  "intset \<Rightarrow> int \<Rightarrow> int \<Rightarrow> int \<Rightarrow> int \<Rightarrow> int \<Rightarrow> (int \<times> int \<times> int) option" where
  "intsetSearch_loop is value mn mx mid cur =
     (if mx \<ge> mn then
        (let mid' = (mn + mx) mod 2 ^ 32 div 2 in
         do { cur' \<leftarrow> p_intsetGet is mid';
              if value > cur' then intsetSearch_loop is value (mid' + 1) mx mid' cur'
              else if value < cur' then intsetSearch_loop is value mn (mid' - 1) mid' cur'
              else Some (mn, mid', cur') })
      else Some (mn, mid, cur))"

definition intsetSearch :: "intset \<Rightarrow> int \<Rightarrow> (bool \<times> nat) option" where
  "intsetSearch is value =
     (let mx = to_signed 4 ((int (len is) - 1) mod 2 ^ 32) in
      if len is = 0 then Some (False, 0)
      else do {
        hi \<leftarrow> p_intsetGet is mx;
        if value > hi then Some (False, len is)
        else do {
          lo \<leftarrow> p_intsetGet is 0;
          if value < lo then Some (False, 0)
          else do {
            (mn, mid, cur) \<leftarrow> intsetSearch_loop is value 0 mx (-1) (-1);
            Some (if value = cur then (True, nat mid) else (False, nat mn)) } } })"

text \<open>The loop of \<open>intsetUpgradeAndAdd\<close> that re-encodes the elements from the back.\<close>

primrec intsetUpgrade_loop :: "nat \<Rightarrow> nat \<Rightarrow> nat \<Rightarrow> intset \<Rightarrow> intset option" where
  "intsetUpgrade_loop curenc prepend 0 is = Some is"
| "intsetUpgrade_loop curenc prepend (Suc n) is =
     do { v \<leftarrow> intsetGetEncoded is (int n) curenc;
          is' \<leftarrow> p_intsetSet is (int (n + prepend)) v;
          intsetUpgrade_loop curenc prepend n is' }"

definition intsetUpgradeAndAdd :: "(nat \<Rightarrow> byte) \<Rightarrow> intset \<Rightarrow> int \<Rightarrow> intset option" where
  "intsetUpgradeAndAdd fill is value =
     (let curenc = encoding is;
          newenc = intsetValueEncoding value;
          length = len is;
          prepend = (if value < 0 then 1 else 0);
          is1 = intsetResize fill (is\<lparr>encoding := newenc\<rparr>) ((len is + 1) mod 2 ^ 32)
      in do {
        is2 \<leftarrow> intsetUpgrade_loop curenc prepend length is1;
        is3 \<leftarrow> (if prepend = 1 then p_intsetSet is2 0 value
                else p_intsetSet is2 (int (len is2)) value);
        Some (is3\<lparr>len := (len is3 + 1) mod 2 ^ 32\<rparr>) })"

definition intsetMoveTail :: "intset \<Rightarrow> nat \<Rightarrow> nat \<Rightarrow> intset option" where
  "intsetMoveTail is from to =
     (let w = cast_width (encoding is);
          bytes = (int (len is) - int from) mod 2 ^ 32 * int w mod 2 ^ 32
      in do { c \<leftarrow> mem_move (to * w) (from * w) (nat bytes) (contents is);
              Some (is\<lparr>contents := c\<rparr>) })"

definition intsetAdd :: "(nat \<Rightarrow> byte) \<Rightarrow> intset \<Rightarrow> int \<Rightarrow> (intset \<times> bool) option" where
  "intsetAdd fill is value =
     (if intsetValueEncoding value > encoding is
      then do { is' \<leftarrow> intsetUpgradeAndAdd fill is value; Some (is', True) }
      else do {
        (found, pos) \<leftarrow> intsetSearch is value;
        if found then Some (is, False)
        else do {
          is2 \<leftarrow> (let is1 = intsetResize fill is ((len is + 1) mod 2 ^ 32) in
                  if pos < len is1 then intsetMoveTail is1 pos (pos + 1) else Some is1);
          is3 \<leftarrow> p_intsetSet is2 (int pos) value;
          Some (is3\<lparr>len := (len is3 + 1) mod 2 ^ 32\<rparr>, True) } })"

definition intsetRemove :: "(nat \<Rightarrow> byte) \<Rightarrow> intset \<Rightarrow> int \<Rightarrow> (intset \<times> bool) option" where
  "intsetRemove fill is value =
     (if intsetValueEncoding value \<le> encoding is
      then do {
        (found, pos) \<leftarrow> intsetSearch is value;
        if found
        then do {
          is1 \<leftarrow> (if pos < len is - 1 then intsetMoveTail is (pos + 1) pos else Some is);
          Some ((intsetResize fill is1 (len is - 1))\<lparr>len := len is - 1\<rparr>, True) }
        else Some (is, False) }
      else Some (is, False))"

definition intsetFind :: "intset \<Rightarrow> int \<Rightarrow> bool option" where
  "intsetFind is value =
     (if intsetValueEncoding value \<le> encoding is
      then map_option fst (intsetSearch is value) else Some False)"

text \<open>\<open>rand()\<close> is a parameter; the division by the length traps on an empty set.\<close>

definition intsetRandom :: "nat \<Rightarrow> intset \<Rightarrow> int option" where
  "intsetRandom rnd is = (if len is = 0 then None else p_intsetGet is (int (rnd mod len is)))"

text \<open>The outer option is an invalid access, the inner one the 0/1 result.\<close>

definition intsetGet :: "intset \<Rightarrow> nat \<Rightarrow> int option option" where
  "intsetGet is pos =
     (if pos < len is then map_option Some (p_intsetGet is (int pos)) else Some None)"

definition intsetLen :: "intset \<Rightarrow> nat" where
  "intsetLen is = len is"

definition intsetBlobLen :: "intset \<Rightarrow> nat" where
  "intsetBlobLen is = 8 + len is * encoding is mod 2 ^ 32"

section \<open>Arrays of encoded integers\<close>

definition enc_list :: "nat \<Rightarrow> int list \<Rightarrow> mem" where
  "enc_list k xs = concat (map (le_bytes k) xs)"

lemma enc_list_simps [simp]:
  "enc_list k [] = []"
  "enc_list k (x # xs) = le_bytes k x @ enc_list k xs"
  "enc_list k (xs @ ys) = enc_list k xs @ enc_list k ys"
  by (simp_all add: enc_list_def)

lemma length_enc_list [simp]: "length (enc_list k xs) = length xs * k"
  by (induction xs) auto

lemma take_enc_list [simp]: "take (i * k) (enc_list k xs) = enc_list k (take i xs)"
proof (induction xs arbitrary: i)
  case (Cons x xs)
  then show ?case by (cases i) simp_all
qed simp

lemma drop_enc_list [simp]: "drop (i * k) (enc_list k xs) = enc_list k (drop i xs)"
proof (induction xs arbitrary: i)
  case (Cons x xs)
  then show ?case by (cases i) simp_all
qed simp

lemma drop_enc_list_Suc [simp]: "drop (k + i * k) (enc_list k xs) = enc_list k (drop (Suc i) xs)"
  using drop_enc_list [of "Suc i" k xs] by simp

lemma enc_list_surj:
  assumes "length m = n * k" "0 < k"
  shows "\<exists>xs. m = enc_list k xs \<and> length xs = n \<and> (\<forall>x \<in> set xs. int_fits k x)"
  using assms(1)
proof (induction n arbitrary: m)
  case (Suc n)
  let ?v = "to_signed k (le_val (take k m))"
  have b: "0 \<le> le_val (take k m)" "le_val (take k m) < 256 ^ k"
    using le_val_nonneg le_val_bound [of "take k m"] Suc.prems by (auto simp: min_absorb2)
  have "le_bytes k ?v = take k m"
  proof -
    have "le_bytes k ?v = le_bytes k (?v mod 256 ^ k)"
      by (simp add: le_bytes_mod)
    also have "?v mod 256 ^ k = le_val (take k m)"
      using b by (simp add: to_signed_def power_mult mod_diff_eq [symmetric]) 
    also have "le_bytes k \<dots> = take k m"
      using le_bytes_le_val [of "take k m"] Suc.prems by (simp add: min_absorb2)
    finally show ?thesis .
  qed
  moreover obtain xs where "drop k m = enc_list k xs" "length xs = n" "\<forall>x \<in> set xs. int_fits k x"
    using Suc.IH [of "drop k m"] Suc.prems by auto
  moreover have "int_fits k ?v" using b assms(2) by (intro to_signed_fits)
  ultimately show ?case
    by (intro exI [of _ "?v # xs"]) (metis append_take_drop_id enc_list_simps(2) length_Cons set_ConsD)
qed simp

section \<open>Abstraction and invariant\<close>

definition intset_vals :: "intset \<Rightarrow> int list" where
  "intset_vals is =
     map (\<lambda>i. to_signed (encoding is)
            (le_val (take (encoding is) (drop (i * encoding is) (contents is))))) [0..<len is]"

definition intset_wf :: "intset \<Rightarrow> bool" where
  "intset_wf is \<longleftrightarrow>
     encoding is \<in> {INTSET_ENC_INT16, INTSET_ENC_INT32, INTSET_ENC_INT64} \<and>
     length (contents is) = len is * encoding is \<and>
     len is * encoding is < 2 ^ 32 \<and>
     sorted_wrt (<) (intset_vals is)"

text \<open>The block that holds a list of values at one width; every well-formed set has this form.\<close>

definition mk_intset :: "nat \<Rightarrow> int list \<Rightarrow> intset" where
  "mk_intset k xs = \<lparr>encoding = k, len = length xs, contents = enc_list k xs\<rparr>"

lemma mk_intset_sel [simp]:
  "encoding (mk_intset k xs) = k"
  "len (mk_intset k xs) = length xs"
  "contents (mk_intset k xs) = enc_list k xs"
  by (simp_all add: mk_intset_def)

lemma cast_width_id [simp]: "k \<in> {2, 4, 8} \<Longrightarrow> cast_width k = k"
  by (auto simp: cast_width_def)

lemma take_drop_enc_list:
  "i < length xs \<Longrightarrow> take k (enc_list k (drop i xs)) = le_bytes k (xs ! i)"
  by (simp add: Cons_nth_drop_Suc [symmetric])

lemma intset_vals_mk:
  assumes "0 < k" "\<forall>x \<in> set xs. int_fits k x"
  shows "intset_vals (mk_intset k xs) = xs"
  using assms by (auto intro!: nth_equalityI simp: intset_vals_def take_drop_enc_list codec_simps)

lemma intset_wf_mk:
  assumes "k \<in> {2, 4, 8}" "\<forall>x \<in> set xs. int_fits k x" "sorted_wrt (<) xs" "length xs * k < 2 ^ 32"
  shows "intset_wf (mk_intset k xs)"
  using assms intset_vals_mk [of k xs] by (auto simp: intset_wf_def)

lemma intset_wfE:
  assumes "intset_wf is"
  obtains k xs where "is = mk_intset k xs" "intset_vals is = xs" "k \<in> {2, 4, 8}"
    "\<forall>x \<in> set xs. int_fits k x" "sorted_wrt (<) xs" "length xs * k < 2 ^ 32"
proof -
  have k: "encoding is \<in> {2, 4, 8}" "0 < encoding is"
    using assms by (auto simp: intset_wf_def)
  obtain xs where xs: "contents is = enc_list (encoding is) xs" "length xs = len is"
    "\<forall>x \<in> set xs. int_fits (encoding is) x"
    using enc_list_surj [of "contents is" "len is" "encoding is"] assms k
    by (auto simp: intset_wf_def)
  then have eq: "is = mk_intset (encoding is) xs" by (simp add: mk_intset_def)
  then have "intset_vals is = xs" using intset_vals_mk [OF k(2) xs(3)] by simp
  with eq that [of "encoding is" xs] k(1) xs assms show thesis by (simp add: intset_wf_def)
qed

section \<open>Element access\<close>

lemma p_intsetGet_mk:
  assumes "k \<in> {2, 4, 8}" "\<forall>x \<in> set xs. int_fits k x" "i < length xs"
  shows "p_intsetGet (mk_intset k xs) (int i) = Some (xs ! i)"
proof -
  have "i * k + k \<le> length xs * k" using assms(3) mult_le_mono1 [of "Suc i" "length xs" k] by simp
  moreover have "0 < k" using assms(1) by auto
  ultimately show ?thesis using assms
    by (simp add: p_intsetGet_def intsetGetEncoded_def mem_simps take_drop_enc_list codec_simps)
qed

lemma p_intsetSet_mk:
  assumes "k \<in> {2, 4, 8}" "i < length xs"
  shows "p_intsetSet \<lparr>encoding = k, len = n, contents = enc_list k xs\<rparr> (int i) v =
         Some \<lparr>encoding = k, len = n, contents = enc_list k (xs[i := v])\<rparr>"
proof -
  have "i * k + k \<le> length xs * k" using assms(2) mult_le_mono1 [of "Suc i" "length xs" k] by simp
  then show ?thesis using assms
    by (simp add: p_intsetSet_def mem_simps upd_conv_take_nth_drop add.commute)
qed

section \<open>Binary search\<close>

lemma sorted_wrt_less_nth_iff:
  "sorted_wrt (<) (xs :: int list) \<Longrightarrow> i < length xs \<Longrightarrow> j < length xs \<Longrightarrow> xs ! i < xs ! j \<longleftrightarrow> i < j"
  by (metis linorder_neqE_nat not_less_iff_gr_or_eq sorted_wrt_nth_less)

text \<open>The position a value has, or would have, in the array.\<close>

definition lower_pos :: "int \<Rightarrow> int list \<Rightarrow> nat" where
  "lower_pos v xs = length (takeWhile (\<lambda>x. x < v) xs)"

lemma lower_pos_eqI:
  assumes "p \<le> length xs" "\<And>j. j < p \<Longrightarrow> xs ! j < v" "p < length xs \<Longrightarrow> v \<le> xs ! p"
  shows "lower_pos v xs = p"
proof -
  have "takeWhile (\<lambda>x. x < v) xs = take p xs"
    using assms by (intro takeWhile_eq_take_P_nth) auto
  with assms(1) show ?thesis by (simp add: lower_pos_def)
qed

lemma lower_pos_found:
  assumes "sorted_wrt (<) xs" "i < length xs" "xs ! i = v"
  shows "lower_pos v xs = i"
  using assms by (intro lower_pos_eqI) (auto simp: sorted_wrt_less_nth_iff)

lemma intsetSearch_loop_mk:
  assumes "k \<in> {2, 4, 8}" "\<forall>x \<in> set xs. int_fits k x" "sorted_wrt (<) xs" "length xs < 2 ^ 31"
    and "0 \<le> mn" "mx < int (length xs)" "mn \<le> mx + 1" "mn \<le> mx \<or> cur \<noteq> v"
    and "\<And>j. j < nat mn \<Longrightarrow> xs ! j < v"
    and "\<And>j. j < length xs \<Longrightarrow> mx < int j \<Longrightarrow> v < xs ! j"
  shows "\<exists>mn' mid' cur'. intsetSearch_loop (mk_intset k xs) v mn mx mid cur = Some (mn', mid', cur') \<and>
    (cur' = v \<longleftrightarrow> v \<in> set xs) \<and>
    nat (if cur' = v then mid' else mn') = lower_pos v xs"
  using assms(5-)
proof (induction "nat (mx - mn + 1)" arbitrary: mn mx mid cur rule: less_induct)
  case less
  show ?case
  proof (cases "mn \<le> mx")
    case False
    with less.prems have eq: "mn = mx + 1" "cur \<noteq> v" by auto
    have "v \<notin> set xs"
    proof
      assume "v \<in> set xs"
      then obtain j where "j < length xs" "xs ! j = v" by (auto simp: in_set_conv_nth)
      with less.prems eq show False by (cases "j < nat mn") force+
    qed
    moreover have "lower_pos v xs = nat mn"
      using less.prems eq by (intro lower_pos_eqI) (auto intro: less_imp_le)
    ultimately show ?thesis using eq by (subst intsetSearch_loop.simps) simp
  next
    case True
    define mid' where "mid' = (mn + mx) mod 2 ^ 32 div 2"
    have mid': "mid' = (mn + mx) div 2" "mn \<le> mid'" "mid' \<le> mx"
      using True less.prems assms(4) by (auto simp: mid'_def)
    obtain i where i: "mid' = int i" "i < length xs"
      using mid' less.prems by (metis dual_order.trans le_less_trans of_nat_less_iff zero_le_imp_eq_int)
    have get: "p_intsetGet (mk_intset k xs) mid' = Some (xs ! i)"
      using i p_intsetGet_mk [OF assms(1,2)] by simp
    have step: "intsetSearch_loop (mk_intset k xs) v mn mx mid cur =
      (if v > xs ! i then intsetSearch_loop (mk_intset k xs) v (mid' + 1) mx mid' (xs ! i)
       else if v < xs ! i then intsetSearch_loop (mk_intset k xs) v mn (mid' - 1) mid' (xs ! i)
       else Some (mn, mid', xs ! i))"
      using True get unfolding mid'_def by (subst intsetSearch_loop.simps) (simp add: Let_def)
    note nth = sorted_wrt_less_nth_iff [OF assms(3)]
    consider "v > xs ! i" | "v < xs ! i" | "v = xs ! i" by linarith
    then show ?thesis
    proof cases
      case 1
      have "xs ! j < v" if "j < nat (mid' + 1)" for j
      proof -
        have "j < i \<or> j = i" using that i by auto
        with i 1 nth [of j i] show ?thesis by auto
      qed
      then have "\<exists>mn' mid'' cur'. intsetSearch_loop (mk_intset k xs) v (mid' + 1) mx mid' (xs ! i) =
          Some (mn', mid'', cur') \<and> (cur' = v \<longleftrightarrow> v \<in> set xs) \<and>
          nat (if cur' = v then mid'' else mn') = lower_pos v xs"
        using less.prems mid' 1 True by (intro less.hyps) auto
      with step 1 show ?thesis by simp
    next
      case 2
      have "v < xs ! j" if "j < length xs" "mid' - 1 < int j" for j
        using that i 2 nth [of i j] by (cases "j = i") auto
      then have "\<exists>mn' mid'' cur'. intsetSearch_loop (mk_intset k xs) v mn (mid' - 1) mid' (xs ! i) =
          Some (mn', mid'', cur') \<and> (cur' = v \<longleftrightarrow> v \<in> set xs) \<and>
          nat (if cur' = v then mid'' else mn') = lower_pos v xs"
        using less.prems mid' 2 True by (intro less.hyps) auto
      with step 2 show ?thesis by simp
    next
      case 3
      with step i lower_pos_found [OF assms(3) i(2)] show ?thesis by simp
    qed
  qed
qed

lemma intsetSearch_mk:
  assumes "k \<in> {2, 4, 8}" "\<forall>x \<in> set xs. int_fits k x" "sorted_wrt (<) xs" "length xs * k < 2 ^ 32"
  shows "intsetSearch (mk_intset k xs) v = Some (v \<in> set xs, lower_pos v xs)"
proof (cases "xs = []")
  case True
  then show ?thesis by (simp add: intsetSearch_def lower_pos_def)
next
  case False
  let ?n = "length xs"
  obtain m where m: "?n = Suc m" using False by (cases xs) auto
  have n: "?n < 2 ^ 31" using assms(1,4) by auto
  have mx: "to_signed 4 ((int ?n - 1) mod 2 ^ 32) = int m"
    using n m by (simp add: to_signed_def)
  have hi: "p_intsetGet (mk_intset k xs) (int m) = Some (last xs)"
    using p_intsetGet_mk [OF assms(1,2), of m] m False by (simp add: last_conv_nth)
  have lo: "p_intsetGet (mk_intset k xs) 0 = Some (hd xs)"
    using p_intsetGet_mk [OF assms(1,2), of 0] m False by (simp add: hd_conv_nth)
  note nth = sorted_wrt_less_nth_iff [OF assms(3)]
  consider "v > last xs" | "v < hd xs" | "hd xs \<le> v" "v \<le> last xs" by linarith
  then show ?thesis
  proof cases
    case 1
    have lt: "xs ! j < v" if "j < ?n" for j
      using that 1 nth [of j m] m False by (cases "j = m") (auto simp: last_conv_nth)
    then have "v \<notin> set xs" by (auto simp: in_set_conv_nth)
    moreover have "lower_pos v xs = ?n" using lt by (intro lower_pos_eqI) auto
    ultimately show ?thesis using 1 m mx hi by (simp add: intsetSearch_def)
  next
    case 2
    have gt: "v < xs ! j" if "j < ?n" for j
      using that 2 nth [of 0 j] False by (cases "j = 0") (auto simp: hd_conv_nth)
    then have "v \<notin> set xs" by (auto simp: in_set_conv_nth)
    moreover have "lower_pos v xs = 0" using gt by (intro lower_pos_eqI) (auto intro: less_imp_le)
    moreover have "\<not> v > last xs" using gt [of m] m False by (simp add: last_conv_nth)
    ultimately show ?thesis using 2 m mx hi lo by (simp add: intsetSearch_def)
  next
    case 3
    obtain mn' mid' cur' where
      "intsetSearch_loop (mk_intset k xs) v 0 (int m) (-1) (-1) = Some (mn', mid', cur')"
      "cur' = v \<longleftrightarrow> v \<in> set xs" "nat (if cur' = v then mid' else mn') = lower_pos v xs"
      using intsetSearch_loop_mk [OF assms(1-3) n(1), of 0 "int m" "-1" v "-1"] m by auto
    then show ?thesis using 3 m mx hi lo by (auto simp: intsetSearch_def)
  qed
qed

section \<open>Widths of values\<close>

lemma intsetValueEncoding_cases: "intsetValueEncoding v \<in> {2, 4, 8}"
  by (simp add: intsetValueEncoding_def)

lemma intsetValueEncoding_le_iff:
  assumes "int64 v" "k \<in> {2, 4, 8}"
  shows "intsetValueEncoding v \<le> k \<longleftrightarrow> int_fits k v"
  using assms by (auto simp: intsetValueEncoding_def int_fits_def)

lemma int_fits_mono: "int_fits k x \<Longrightarrow> k \<le> k' \<Longrightarrow> int_fits k' x"
proof -
  assume "int_fits k x" "k \<le> k'"
  moreover from this have "(2::int) ^ (8 * k - 1) \<le> 2 ^ (8 * k' - 1)"
    by (intro power_increasing) auto
  ultimately show ?thesis unfolding int_fits_def by linarith
qed

lemma not_fits_outside:
  assumes "int_fits k x" "\<not> int_fits k v"
  shows "if v < 0 then v < x else x < v"
proof -
  have "(0::int) < 2 ^ (8 * k - 1)" by simp
  with assms show ?thesis unfolding int_fits_def by (cases "v < 0") auto
qed

section \<open>Resizing and moving\<close>

lemma intsetResize_grow:
  assumes "Suc (length xs) * k < 2 ^ 32" "0 < k"
  shows "\<exists>j. intsetResize fill (mk_intset k xs) (Suc (length xs)) =
             \<lparr>encoding = k, len = length xs, contents = enc_list k (xs @ [j])\<rparr>"
proof -
  let ?t = "map fill [length xs * k..<Suc (length xs) * k]"
  obtain j where "?t = enc_list k [j]"
    using enc_list_surj [of ?t 1 k] assms(2) by (auto simp: length_Suc_conv)
  then have "mem_resize fill (Suc (length xs) * k) (enc_list k xs) = enc_list k (xs @ [j])"
    by (simp add: mem_resize_def)
  then show ?thesis using assms(1) by (auto simp: intsetResize_def mk_intset_def)
qed

lemma intsetMoveTail_enc:
  assumes "k \<in> {2, 4, 8}" "from \<le> n" "n \<le> length ys" "to + (n - from) \<le> length ys" "n * k < 2 ^ 32"
  shows "intsetMoveTail \<lparr>encoding = k, len = n, contents = enc_list k ys\<rparr> from to =
    Some \<lparr>encoding = k, len = n,
      contents = enc_list k (take to ys @ take (n - from) (drop from ys) @ drop (to + (n - from)) ys)\<rparr>"
proof -
  have n: "n < 2 ^ 32" "(n - from) * k < 2 ^ 32"
    using assms(1,5) diff_le_self [of n "from", THEN mult_le_mono1, of k] by auto
  have "(int n - int from) mod 2 ^ 32 = int (n - from)"
    using n assms(2) by (simp add: of_nat_diff)
  moreover have "int (n - from) * int k mod 2 ^ 32 = int ((n - from) * k)"
    using n by (simp del: of_nat_mult add: of_nat_mult [symmetric])
  ultimately have b: "nat ((int n - int from) mod 2 ^ 32 * int k mod 2 ^ 32) = (n - from) * k"
    by (simp del: of_nat_mult add: of_nat_mult [symmetric])
  have "from * k + (n - from) * k \<le> length ys * k" "to * k + (n - from) * k \<le> length ys * k"
    using assms(2-4) by (simp_all add: add_mult_distrib [symmetric] mult_le_mono1)
  then have "mem_move (to * k) (from * k) ((n - from) * k) (enc_list k ys) =
      Some (enc_list k (take to ys @ take (n - from) (drop from ys) @ drop (to + (n - from)) ys))"
    by (subst mem_move_Some) (simp_all add: add_mult_distrib [symmetric])
  with b assms(1) show ?thesis by (simp add: intsetMoveTail_def del: mod_mult_left_eq)
qed

lemma sorted_wrt_insert_at:
  assumes "sorted_wrt (<) xs" "v \<notin> set xs"
  shows "sorted_wrt (<) (take (lower_pos v xs) xs @ v # drop (lower_pos v xs) xs)"
  using assms
proof (induction xs)
  case (Cons x xs)
  show ?case
  proof (cases "x < v")
    case True
    with Cons show ?thesis
      by (auto simp: lower_pos_def dest: in_set_takeD in_set_dropD)
  next
    case False
    with Cons show ?thesis by (force simp: lower_pos_def)
  qed
qed (simp add: lower_pos_def)

lemma lower_pos_le: "lower_pos v xs \<le> length xs"
  by (simp add: lower_pos_def length_takeWhile_le)

section \<open>Insertion without a change of width\<close>

lemma intsetAdd_same_mk:
  assumes k: "k \<in> {2, 4, 8}" "\<forall>x \<in> set xs. int_fits k x" "sorted_wrt (<) xs"
    and room: "Suc (length xs) * k < 2 ^ 32" and v: "intsetValueEncoding v \<le> k"
  shows "intsetAdd fill (mk_intset k xs) v =
    Some (if v \<in> set xs then mk_intset k xs
          else mk_intset k (take (lower_pos v xs) xs @ v # drop (lower_pos v xs) xs), v \<notin> set xs)"
proof -
  let ?n = "length xs" and ?p = "lower_pos v xs"
  have search: "intsetSearch (mk_intset k xs) v = Some (v \<in> set xs, ?p)"
    using k room by (intro intsetSearch_mk) auto
  have n32: "Suc ?n mod 2 ^ 32 = Suc ?n"
    using room k(1) by auto
  have "0 < k" using k(1) by auto
  then obtain j where r: "intsetResize fill (mk_intset k xs) (Suc ?n) =
      \<lparr>encoding = k, len = ?n, contents = enc_list k (xs @ [j])\<rparr>"
    using intsetResize_grow [OF room, of fill] by blast
  have p: "?p \<le> ?n" by (rule lower_pos_le)
  define ys where "ys = (if ?p < ?n then take (Suc ?p) xs @ drop ?p xs else xs @ [j])"
  have ys: "length ys = Suc ?n" "ys[?p := v] = take ?p xs @ v # drop ?p xs"
    using p by (auto simp: ys_def list_update_append take_Suc_conv_app_nth)
  have "(if ?p < ?n then intsetMoveTail \<lparr>encoding = k, len = ?n, contents = enc_list k (xs @ [j])\<rparr> ?p (Suc ?p)
         else Some \<lparr>encoding = k, len = ?n, contents = enc_list k (xs @ [j])\<rparr>) =
        Some \<lparr>encoding = k, len = ?n, contents = enc_list k ys\<rparr>"
    using intsetMoveTail_enc [OF k(1), of ?p ?n "xs @ [j]" "Suc ?p"] room p by (simp add: ys_def)
  moreover have "p_intsetSet \<lparr>encoding = k, len = ?n, contents = enc_list k ys\<rparr> (int ?p) v =
      Some \<lparr>encoding = k, len = ?n, contents = enc_list k (take ?p xs @ v # drop ?p xs)\<rparr>"
    using p_intsetSet_mk [OF k(1), of ?p ys ?n v] p ys by simp
  ultimately show ?thesis
    using v search n32 r p by (cases "?p < ?n") (auto simp: intsetAdd_def mk_intset_def Let_def)
qed

section \<open>Upgrading to a wider element\<close>

lemma intsetUpgrade_loop_enc:
  assumes "k \<in> {2, 4, 8}" "k' \<in> {2, 4, 8}" "k \<le> k'" "\<forall>x \<in> set xs. int_fits k x" "n \<le> length xs"
    and "(n + pre) * k' \<le> length M" "take (n * k) M = enc_list k (take n xs)"
  shows "\<exists>P. length P = pre * k' \<and>
    intsetUpgrade_loop k pre n \<lparr>encoding = k', len = L, contents = M\<rparr> =
    Some \<lparr>encoding = k', len = L, contents = P @ enc_list k' (take n xs) @ drop ((n + pre) * k') M\<rparr>"
  using assms(5-)
proof (induction n arbitrary: M)
  case 0
  then show ?case by (intro exI [of _ "take (pre * k') M"]) auto
next
  case (Suc n)
  have len: "Suc n * k \<le> length M"
    using Suc.prems(2) mult_le_mono [of "Suc n" "Suc n + pre" k k'] assms(3) by simp
  have "take k (drop (n * k) M) = drop (n * k) (take (Suc n * k) M)"
    by (simp add: take_drop add.commute)
  also have "\<dots> = le_bytes k (xs ! n)"
    using Suc.prems(1,3) by (simp add: take_Suc_conv_app_nth)
  finally have rd: "take k (drop (n * k) M) = le_bytes k (xs ! n)" .
  have "0 < k" using assms(1) by auto
  then have get: "intsetGetEncoded \<lparr>encoding = k', len = L, contents = M\<rparr> (int n) k = Some (xs ! n)"
    using len rd assms(1,4) Suc.prems(1)
    by (simp add: intsetGetEncoded_def mem_simps codec_simps add.commute)
  define M1 where "M1 = take ((n + pre) * k') M @ le_bytes k' (xs ! n) @ drop ((Suc n + pre) * k') M"
  have set: "p_intsetSet \<lparr>encoding = k', len = L, contents = M\<rparr> (int (n + pre)) (xs ! n) =
      Some \<lparr>encoding = k', len = L, contents = M1\<rparr>"
    using Suc.prems(2) assms(2) by (simp add: p_intsetSet_def mem_simps M1_def nat_int_add algebra_simps)
  have "n * k \<le> (n + pre) * k'" using assms(3) by (intro mult_le_mono) auto
  then have "take (n * k) M1 = take (n * k) M"
    using Suc.prems(2) by (simp add: M1_def min_absorb1)
  also have "\<dots> = enc_list k (take n xs)"
    using arg_cong [OF Suc.prems(3), of "take (n * k)"] by (simp add: min_absorb1)
  finally have "take (n * k) M1 = enc_list k (take n xs)" .
  moreover have "(n + pre) * k' \<le> length M1" using Suc.prems(2) by (simp add: M1_def)
  ultimately obtain P where "length P = pre * k'"
    "intsetUpgrade_loop k pre n \<lparr>encoding = k', len = L, contents = M1\<rparr> =
     Some \<lparr>encoding = k', len = L, contents = P @ enc_list k' (take n xs) @ drop ((n + pre) * k') M1\<rparr>"
    using Suc.IH [of M1] Suc.prems(1) by auto
  moreover have "drop ((n + pre) * k') M1 = le_bytes k' (xs ! n) @ drop ((Suc n + pre) * k') M"
    using Suc.prems(2) by (simp add: M1_def)
  ultimately show ?case
    using get set Suc.prems(1) by (auto simp: take_Suc_conv_app_nth)
qed

lemma intsetUpgradeAndAdd_mk:
  assumes k: "k \<in> {2, 4, 8}" "\<forall>x \<in> set xs. int_fits k x"
    and room: "Suc (length xs) * intsetValueEncoding v < 2 ^ 32" and v: "k < intsetValueEncoding v"
  shows "intsetUpgradeAndAdd fill (mk_intset k xs) v =
    Some (mk_intset (intsetValueEncoding v) (if v < 0 then v # xs else xs @ [v]))"
proof -
  let ?n = "length xs" and ?k' = "intsetValueEncoding v" and ?pre = "if v < 0 then 1 else 0 :: nat"
  let ?M = "mem_resize fill (Suc ?n * ?k') (enc_list k xs)"
  have n32: "Suc ?n mod 2 ^ 32 = Suc ?n" using room intsetValueEncoding_cases [of v] by auto
  have le: "?n * k \<le> Suc ?n * ?k'" using v by (intro mult_le_mono) auto
  then have "take (?n * k) ?M = enc_list k (take ?n xs)"
    by (simp add: mem_resize_def min_absorb1)
  moreover have "(?n + ?pre) * ?k' \<le> length ?M" by simp
  ultimately obtain P where P: "length P = ?pre * ?k'"
    "intsetUpgrade_loop k ?pre ?n \<lparr>encoding = ?k', len = ?n, contents = ?M\<rparr> =
     Some \<lparr>encoding = ?k', len = ?n, contents = P @ enc_list ?k' xs @ drop ((?n + ?pre) * ?k') ?M\<rparr>"
    using intsetUpgrade_loop_enc [OF k(1) intsetValueEncoding_cases [of v] less_imp_le [OF v] k(2),
        of ?n ?pre ?M ?n] by auto
  have w: "cast_width ?k' = ?k'" using intsetValueEncoding_cases [of v] by simp
  have r: "intsetResize fill (mk_intset k xs\<lparr>encoding := ?k'\<rparr>) (Suc ?n) =
      \<lparr>encoding = ?k', len = ?n, contents = ?M\<rparr>"
    using room by (simp add: intsetResize_def mk_intset_def)
  show ?thesis
  proof (cases "v < 0")
    case True
    have "p_intsetSet \<lparr>encoding = ?k', len = ?n, contents = P @ enc_list ?k' xs\<rparr> 0 v =
        Some \<lparr>encoding = ?k', len = ?n, contents = enc_list ?k' (v # xs)\<rparr>"
      using P(1) True w by (simp add: p_intsetSet_def mem_simps)
    with True P(2) n32 r show ?thesis
      by (simp add: intsetUpgradeAndAdd_def Let_def mk_intset_def)
  next
    case False
    have "p_intsetSet \<lparr>encoding = ?k', len = ?n, contents = enc_list ?k' xs @ drop (?n * ?k') ?M\<rparr> (int ?n) v =
        Some \<lparr>encoding = ?k', len = ?n, contents = enc_list ?k' (xs @ [v])\<rparr>"
      using w by (simp add: p_intsetSet_def mem_simps Let_def)
    with False P n32 r show ?thesis
      by (simp add: intsetUpgradeAndAdd_def Let_def mk_intset_def)
  qed
qed

section \<open>Functional correctness\<close>

lemma intsetAdd_wf:
  assumes "intset_wf is" "int64 v" "Suc (len is) * max (encoding is) (intsetValueEncoding v) < 2 ^ 32"
  shows "\<exists>is'. intsetAdd fill is v = Some (is', v \<notin> set (intset_vals is)) \<and> intset_wf is' \<and>
    set (intset_vals is') = insert v (set (intset_vals is)) \<and>
    encoding is' = max (encoding is) (intsetValueEncoding v)"
proof -
  let ?k' = "intsetValueEncoding v"
  obtain k xs where R: "is = mk_intset k xs" "intset_vals is = xs" "k \<in> {2, 4, 8}"
    "\<forall>x \<in> set xs. int_fits k x" "sorted_wrt (<) xs" "length xs * k < 2 ^ 32"
    using assms(1) by (rule intset_wfE)
  have pos: "0 < k" "0 < ?k'" using R(3) intsetValueEncoding_cases [of v] by auto
  have fits: "?k' \<le> k \<longleftrightarrow> int_fits k v" using intsetValueEncoding_le_iff assms(2) R(3) by blast
  show ?thesis
  proof (cases "?k' \<le> k")
    case True
    let ?ys = "take (lower_pos v xs) xs @ v # drop (lower_pos v xs) xs"
    have st: "set ?ys = insert v (set xs)"
      by (metis append_take_drop_id insert_is_Un list.simps(15) set_append sup_left_commute)
    have room: "Suc (length xs) * k < 2 ^ 32" using assms(3) R(1) True by (simp add: max_absorb1)
    have eq: "intsetAdd fill is v =
        Some (if v \<in> set xs then mk_intset k xs else mk_intset k ?ys, v \<notin> set xs)"
      unfolding R(1) by (rule intsetAdd_same_mk [OF R(3-5) room True])
    have ysfits: "\<forall>x \<in> set ?ys. int_fits k x"
      unfolding st using R(4) fits True by auto
    have "length ?ys = Suc (length xs)" using lower_pos_le [of v xs] by simp
    then have "v \<notin> set xs \<Longrightarrow> intset_wf (mk_intset k ?ys)"
      using sorted_wrt_insert_at [OF R(5)] room by (intro intset_wf_mk [OF R(3) ysfits]) auto
    moreover have "set (intset_vals (mk_intset k ?ys)) = insert v (set xs)"
      using intset_vals_mk [OF pos(1) ysfits] st by simp
    ultimately show ?thesis
      using eq R(1,2) assms(1) True by (cases "v \<in> set xs") (auto simp: max_absorb1)
  next
    case False
    let ?ys = "if v < 0 then v # xs else xs @ [v]"
    have out: "if v < 0 then v < x else x < v" if "x \<in> set xs" for x
      using that R(4) fits False not_fits_outside by blast
    then have nin: "v \<notin> set xs" by force
    have srt: "sorted_wrt (<) ?ys" using out R(5) by (auto simp: sorted_wrt_append split: if_splits)
    have "int_fits ?k' v" using intsetValueEncoding_le_iff [OF assms(2) intsetValueEncoding_cases] by blast
    then have ysfits: "\<forall>x \<in> set ?ys. int_fits ?k' x"
      using R(4) False int_fits_mono [of k _ ?k'] by auto
    have room: "Suc (length xs) * ?k' < 2 ^ 32" using assms(3) R(1) False by (simp add: max_absorb2)
    have eq: "intsetAdd fill is v = Some (mk_intset ?k' ?ys, True)"
      using False intsetUpgradeAndAdd_mk [OF R(3,4) room, of fill] R(1) by (simp add: intsetAdd_def)
    have "intset_wf (mk_intset ?k' ?ys)"
      using room by (intro intset_wf_mk [OF intsetValueEncoding_cases ysfits srt]) auto
    moreover have "set (intset_vals (mk_intset ?k' ?ys)) = insert v (set xs)"
      using intset_vals_mk [OF pos(2) ysfits] by auto
    ultimately show ?thesis using eq R(1,2) nin False by (auto simp: max_absorb2)
  qed
qed

lemma remove_nth_sorted:
  assumes "sorted_wrt (<) (xs :: int list)" "i < length xs"
  shows "sorted_wrt (<) (take i xs @ drop (Suc i) xs)"
    and "set (take i xs @ drop (Suc i) xs) = set xs - {xs ! i}"
proof -
  have xs: "xs = take i xs @ xs ! i # drop (Suc i) xs" using assms(2) by (rule id_take_nth_drop)
  then have srt: "sorted_wrt (<) (take i xs @ xs ! i # drop (Suc i) xs)" using assms(1) by simp
  then show "sorted_wrt (<) (take i xs @ drop (Suc i) xs)" by (auto simp: sorted_wrt_append)
  from srt have "xs ! i \<notin> set (take i xs @ drop (Suc i) xs)" by (auto simp: sorted_wrt_append)
  moreover have "set xs = insert (xs ! i) (set (take i xs @ drop (Suc i) xs))"
    using arg_cong [OF xs, of set] by simp
  ultimately show "set (take i xs @ drop (Suc i) xs) = set xs - {xs ! i}" by blast
qed

lemma mem_resize_shrink: "n = length zs * k \<Longrightarrow> mem_resize fill n (enc_list k zs @ t) = enc_list k zs"
  by (simp add: mem_resize_def)

lemma intsetRemove_mk:
  assumes k: "k \<in> {2, 4, 8}" "\<forall>x \<in> set xs. int_fits k x" "sorted_wrt (<) xs" "length xs * k < 2 ^ 32"
    and i: "i < length xs" and v: "intsetValueEncoding (xs ! i) \<le> k"
  shows "intsetRemove fill (mk_intset k xs) (xs ! i) =
    Some (mk_intset k (take i xs @ drop (Suc i) xs), True)"
proof -
  let ?ys = "take i xs @ drop (Suc i) xs"
  have search: "intsetSearch (mk_intset k xs) (xs ! i) = Some (True, i)"
    using intsetSearch_mk [OF k, of "xs ! i"] lower_pos_found [OF k(3) i refl] i by simp
  have "(length xs - 1) * k \<le> length xs * k" by (intro mult_le_mono1) simp
  with k(4) have "(length xs - 1) * k < 2 ^ 32" by linarith
  then have size: "(length xs - 1) * k mod 2 ^ 32 = length ?ys * k" using i by simp
  define t where "t = (if i < length xs - 1 then [last xs] else [xs ! i])"
  have "(if i < length xs - 1 then intsetMoveTail (mk_intset k xs) (i + 1) i else Some (mk_intset k xs)) =
      Some \<lparr>encoding = k, len = length xs, contents = enc_list k ?ys @ enc_list k t\<rparr>"
  proof (cases "i < length xs - 1")
    case True
    have "drop (length xs - 1) xs = [last xs]"
      using i by (metis Cons_nth_drop_Suc One_nat_def Suc_pred' diff_less drop_all gr_implies_not_zero
          last_conv_nth length_0_conv length_greater_0_conv less_one order_refl)
    then show ?thesis
      using True i k(4) intsetMoveTail_enc [OF k(1), of "Suc i" "length xs" xs i]
      by (simp add: t_def mk_intset_def)
  next
    case False
    with i have "length xs = Suc i" by auto
    then have "xs = take i xs @ [xs ! i]" by (metis lessI take_Suc_conv_app_nth take_all_iff order_refl)
    then have "enc_list k xs = enc_list k (take i xs) @ enc_list k [xs ! i]"
      by (metis enc_list_simps(3))
    with False \<open>length xs = Suc i\<close> show ?thesis by (simp add: t_def mk_intset_def)
  qed
  then show ?thesis
    using v search i size mem_resize_shrink [of _ ?ys k fill "enc_list k t"]
    by (cases "i < length xs - 1") (simp_all add: intsetRemove_def intsetResize_def mk_intset_def)
qed

lemma intsetRemove_wf:
  assumes "intset_wf is" "int64 v"
  shows "\<exists>is'. intsetRemove fill is v = Some (is', v \<in> set (intset_vals is)) \<and> intset_wf is' \<and>
    set (intset_vals is') = set (intset_vals is) - {v} \<and> encoding is' = encoding is"
proof -
  obtain k xs where R: "is = mk_intset k xs" "intset_vals is = xs" "k \<in> {2, 4, 8}"
    "\<forall>x \<in> set xs. int_fits k x" "sorted_wrt (<) xs" "length xs * k < 2 ^ 32"
    using assms(1) by (rule intset_wfE)
  have fits: "intsetValueEncoding v \<le> k \<longleftrightarrow> int_fits k v"
    using intsetValueEncoding_le_iff assms(2) R(3) by blast
  show ?thesis
  proof (cases "v \<in> set xs")
    case False
    have "intsetSearch is v = Some (False, lower_pos v xs)"
      unfolding R(1) using intsetSearch_mk [OF R(3-6), of v] False by simp
    then have "intsetRemove fill is v = Some (is, False)" by (simp add: intsetRemove_def)
    then show ?thesis using False assms(1) R(2) by auto
  next
    case True
    then obtain i where i: "i < length xs" "v = xs ! i" by (auto simp: in_set_conv_nth)
    let ?ys = "take i xs @ drop (Suc i) xs"
    note ys = remove_nth_sorted [OF R(5) i(1)]
    have "intsetRemove fill is v = Some (mk_intset k ?ys, True)"
      unfolding R(1) i(2) using True fits R(4) i(2) by (intro intsetRemove_mk [OF R(3-6) i(1)]) auto
    moreover have fit: "\<forall>x \<in> set ?ys. int_fits k x" using R(4) ys(2) by blast
    moreover have "length ?ys * k \<le> length xs * k" by (intro mult_le_mono1) simp
    then have "intset_wf (mk_intset k ?ys)"
      using R(6) by (intro intset_wf_mk [OF R(3) fit ys(1)]) linarith
    moreover have "intset_vals (mk_intset k ?ys) = ?ys"
      using R(3) by (intro intset_vals_mk fit) auto
    ultimately show ?thesis using True R(1,2) ys(2) i(2) by (auto simp del: set_append)
  qed
qed

lemma intsetFind_wf:
  assumes "intset_wf is" "int64 v"
  shows "intsetFind is v = Some (v \<in> set (intset_vals is))"
proof -
  obtain k xs where R: "is = mk_intset k xs" "intset_vals is = xs" "k \<in> {2, 4, 8}"
    "\<forall>x \<in> set xs. int_fits k x" "sorted_wrt (<) xs" "length xs * k < 2 ^ 32"
    using assms(1) by (rule intset_wfE)
  have "intsetValueEncoding v \<le> k \<longleftrightarrow> int_fits k v"
    using intsetValueEncoding_le_iff assms(2) R(3) by blast
  then show ?thesis using R intsetSearch_mk [OF R(3-6), of v] by (auto simp: intsetFind_def)
qed

lemma intset_vals_distinct: "intset_wf is \<Longrightarrow> distinct (intset_vals is) \<and> len is = length (intset_vals is)"
  by (auto simp: intset_wf_def intset_vals_def strict_sorted_iff)

interpretation intset_set: member_set intset_wf "\<lambda>s. set (intset_vals s)" intsetLen "2 ^ 29 - 1"
  int64 "intsetAdd fill" "intsetRemove fill" intsetFind
proof (unfold_locales, goal_cases)
  case (1 s)
  then show ?case by (auto simp: intsetLen_def distinct_card dest: intset_vals_distinct)
next
  case (2 s x)
  have "max (encoding s) (intsetValueEncoding x) \<le> 8"
    using 2(1) intsetValueEncoding_cases [of x] by (auto simp: intset_wf_def)
  then have "Suc (len s) * max (encoding s) (intsetValueEncoding x) \<le> (2 ^ 29 - 1) * 8"
    using 2(3) by (intro mult_le_mono) (auto simp: intsetLen_def)
  with intsetAdd_wf [OF 2(1,2), of fill] show ?case by auto
next
  case (3 s x)
  with intsetRemove_wf [of s x fill] show ?case by blast
next
  case (4 s x)
  then show ?case by (rule intsetFind_wf)
qed

section \<open>Properties\<close>

lemma intsetSearch_wf:
  assumes "intset_wf is"
  shows "intsetSearch is v =
    Some (v \<in> set (intset_vals is), length (takeWhile (\<lambda>x. x < v) (intset_vals is)))"
proof -
  obtain k xs where "is = mk_intset k xs" "intset_vals is = xs" "k \<in> {2, 4, 8}"
    "\<forall>x \<in> set xs. int_fits k x" "sorted_wrt (<) xs" "length xs * k < 2 ^ 32"
    using assms by (rule intset_wfE)
  then show ?thesis using intsetSearch_mk [of k xs v] by (simp add: lower_pos_def)
qed

text \<open>C10.  Inserting a 64-bit value into a well-formed set is memory safe, returns success exactly
  when the value was absent, keeps the array sorted and the block exactly as large as its
  elements, adds exactly that value, and moves to the wider of the old width and the value's
  width.  The hypothesis on the size is that the byte size of the result fits the 32-bit variable
  the code computes it in.\<close>

theorem intset_add_correct:
  assumes "intset_wf is" "int64 v"
    and "Suc (len is) * max (encoding is) (intsetValueEncoding v) < 2 ^ 32"
  shows "\<exists>is'. intsetAdd fill is v = Some (is', v \<notin> set (intset_vals is)) \<and> intset_wf is' \<and>
    set (intset_vals is') = insert v (set (intset_vals is)) \<and>
    encoding is' = max (encoding is) (intsetValueEncoding v)"
  using assms by (rule intsetAdd_wf)

definition intset_12 :: intset where
  "intset_12 = \<lparr>encoding = 2, len = 2, contents = [1, 0, 2, 0]\<rparr>"

lemma intset_12_wf: "intset_wf intset_12" and intset_12_vals: "intset_vals intset_12 = [1, 2]"
  by (simp_all add: intset_wf_def intset_vals_def intset_12_def to_signed_def upt_rec)

lemma intset_12_sel: "encoding intset_12 = 2" "len intset_12 = 2"
  by (simp_all add: intset_12_def)

theorem intset_add_correct_witness:
  "\<exists>is'. intsetAdd (\<lambda>_. 0) intset_12 70000 = Some (is', True) \<and> intset_wf is' \<and>
     set (intset_vals is') = {1, 2, 70000} \<and> encoding is' = 4"
  using intset_add_correct [OF intset_12_wf, of 70000 "\<lambda>_. 0"]
  by (simp add: intset_12_vals int_fits_def intsetValueEncoding_def intset_12_sel insert_commute)

text \<open>C19.  Removing a 64-bit value from a well-formed set is memory safe, reports whether the
  value was present, removes exactly that value and keeps the width and the invariant.\<close>

theorem intset_remove_correct:
  assumes "intset_wf is" "int64 v"
  shows "\<exists>is'. intsetRemove fill is v = Some (is', v \<in> set (intset_vals is)) \<and> intset_wf is' \<and>
    set (intset_vals is') = set (intset_vals is) - {v} \<and> encoding is' = encoding is"
  using assms by (rule intsetRemove_wf)

theorem intset_remove_correct_witness:
  "\<exists>is'. intsetRemove (\<lambda>_. 0) intset_12 1 = Some (is', True) \<and> set (intset_vals is') = {2}"
  using intset_remove_correct [OF intset_12_wf, of 1 "\<lambda>_. 0"]
  by (auto simp: intset_12_vals int_fits_def)

text \<open>The binary search terminates without an invalid access on every well-formed set and
  returns whether the value is a member together with the number of smaller members, which is the
  value's position, or the position at which it has to be inserted.\<close>

lemma intset_search_correct:
  assumes "intset_wf is"
  shows "intsetSearch is v =
    Some (v \<in> set (intset_vals is), length (takeWhile (\<lambda>x. x < v) (intset_vals is)))"
  using assms by (rule intsetSearch_wf)

text \<open>C25.  The size computation of \<open>intsetResize\<close> wraps around: inserting an absent value into a
  well-formed 64-bit set of \<open>2 ^ 29 - 1\<close> members reallocates the block to zero bytes, and the
  insertion then accesses memory outside the block.\<close>

theorem intset_add_size_wraps:
  assumes "intset_wf is" "encoding is = 8" "len is = 2 ^ 29 - 1" "int64 v" "v \<notin> set (intset_vals is)"
  shows "contents (intsetResize fill is (len is + 1)) = [] \<and> intsetAdd fill is v = None"
proof -
  have c: "contents (intsetResize fill is (len is + 1)) = []"
    using assms(2,3) by (simp add: intsetResize_def mem_resize_def)
  let ?is1 = "intsetResize fill is (len is + 1)"
  have e: "encoding ?is1 = 8" "len ?is1 = 2 ^ 29 - 1"
    using assms(2,3) by (simp_all add: intsetResize_def)
  let ?p = "length (takeWhile (\<lambda>x. x < v) (intset_vals is))"
  have s: "intsetSearch is v = Some (False, ?p)"
    using intsetSearch_wf [OF assms(1)] assms(5) by simp
  have set: "p_intsetSet ?is1 (int q) v = None" for q
    using c e by (simp add: p_intsetSet_def cast_width_def mem_write_def)
  have move: "intsetMoveTail ?is1 ?p (?p + 1) = None" if "?p < 2 ^ 29 - 1"
  proof -
    have "(int (len ?is1) - int ?p) mod 2 ^ 32 * 8 mod 2 ^ 32 = (2 ^ 29 - 1 - int ?p) * 8"
      unfolding e(2) using that by simp
    moreover have "0 < (2 ^ 29 - 1 - int ?p) * 8" using that by simp
    ultimately have "0 < nat ((int (len ?is1) - int ?p) mod 2 ^ 32 * 8 mod 2 ^ 32)" by linarith
    then show ?thesis using c e(1)
      by (simp add: intsetMoveTail_def cast_width_def mem_move_def mem_read_def del: mod_mult_left_eq)
  qed
  have "\<not> encoding is < intsetValueEncoding v"
    using assms(2) intsetValueEncoding_cases [of v] by auto
  moreover have "(len is + 1) mod 2 ^ 32 = len is + 1" using assms(3) by simp
  ultimately have "intsetAdd fill is v = None"
    using s set [of ?p] move e by (simp add: intsetAdd_def Let_def)
  with c show ?thesis by simp
qed

theorem intset_add_size_wraps_witness:
  "contents (intsetResize (\<lambda>_. 0) (mk_intset 8 (map int [0..<2 ^ 29 - 1])) (2 ^ 29)) = [] \<and>
   intsetAdd (\<lambda>_. 0) (mk_intset 8 (map int [0..<2 ^ 29 - 1])) (- 1) = None"
proof -
  let ?xs = "map int [0..<2 ^ 29 - 1]"
  have f: "\<forall>x \<in> set ?xs. int_fits 8 x" by (auto simp: int_fits_def)
  have "sorted_wrt (<) ?xs" by (simp add: sorted_wrt_map)
  then have wf: "intset_wf (mk_intset 8 ?xs)" using f by (intro intset_wf_mk) auto
  have vals: "intset_vals (mk_intset 8 ?xs) = ?xs" using f by (intro intset_vals_mk) auto
  have "int64 (- 1)" "- 1 \<notin> set ?xs" by (auto simp: int_fits_def)
  with intset_add_size_wraps [OF wf, of "- 1" "\<lambda>_. 0"] vals show ?thesis by simp
qed

end
