(* ===== verification/Redis_Dict.thy ===== *)
theory Redis_Dict
  imports Redis_Interfaces "HOL-Library.Multiset"
begin

unbundle bit_operations_syntax

text \<open>
  The hash table of \<open>dict.c\<close>: two tables of collision chains with incremental rehashing from the
  first to the second.  A chain is the list of its \<open>(key, value)\<close> entries from the head on; a
  pointer to an entry is the triple of table, bucket and position in the chain; a \<open>NULL\<close> table is
  the empty list of buckets.  \<open>type->hashFunction\<close> is the parameter \<open>hf\<close>, \<open>type->keyCompare\<close> is
  equality, and \<open>dict_can_resize\<close> is the parameter \<open>can\<close>.  A bucket index outside the table, or
  the failure of the assertion in \<open>dictRehash\<close>, is \<^const>\<open>None\<close>.
\<close>

section \<open>Data\<close>

record ('k, 'v) dictht =
  tbl :: "('k \<times> 'v) list list"
  hsize :: nat
  sizemask :: nat
  used :: nat

record ('k, 'v) dict =
  ht0 :: "('k, 'v) dictht"
  ht1 :: "('k, 'v) dictht"
  rehashidx :: int
  iterators :: nat

type_synonym entry_ref = "nat \<times> nat \<times> nat"

abbreviation (input) DICT_HT_INITIAL_SIZE :: nat where "DICT_HT_INITIAL_SIZE \<equiv> 4"
abbreviation (input) dict_force_resize_ratio :: nat where "dict_force_resize_ratio \<equiv> 5"

definition bucket :: "('k, 'v) dictht \<Rightarrow> nat \<Rightarrow> ('k \<times> 'v) list option" where
  "bucket t i = (if i < length (tbl t) then Some (tbl t ! i) else None)"

definition dictReset :: "('k, 'v) dictht" where
  "dictReset = \<lparr>tbl = [], hsize = 0, sizemask = 0, used = 0\<rparr>"

definition dictCreate :: "('k, 'v) dict" where
  "dictCreate = \<lparr>ht0 = dictReset, ht1 = dictReset, rehashidx = -1, iterators = 0\<rparr>"

definition dictIsRehashing :: "('k, 'v) dict \<Rightarrow> bool" where
  "dictIsRehashing d \<longleftrightarrow> rehashidx d \<noteq> -1"

definition dictSize :: "('k, 'v) dict \<Rightarrow> nat" where
  "dictSize d = used (ht0 d) + used (ht1 d)"

definition dictSlots :: "('k, 'v) dict \<Rightarrow> nat" where
  "dictSlots d = hsize (ht0 d) + hsize (ht1 d)"

section \<open>Growing\<close>

text \<open>The doubling loop starts at 4; the test for zero only makes the recursion total.\<close>

function dictNextPower_loop :: "nat \<Rightarrow> nat \<Rightarrow> nat" where
  "dictNextPower_loop sz i =
     (if i \<ge> sz \<or> i = 0 then i else dictNextPower_loop sz (i * 2))"
  by pat_completeness auto
termination
  by (relation "measure (\<lambda>(sz, i). sz - i)") auto

declare dictNextPower_loop.simps [simp del]

definition dictNextPower :: "nat \<Rightarrow> nat" where
  "dictNextPower sz =
     (if sz \<ge> 2 ^ 63 - 1 then 2 ^ 63 else dictNextPower_loop sz DICT_HT_INITIAL_SIZE)"

text \<open>The flag is \<open>DICT_OK\<close>.  The table is allocated whatever its size; a table of \<open>2 ^ 61\<close> slots or more, whose size in
  bytes would not fit 64 bits, is beyond any memory.\<close>

definition dictExpand :: "('k, 'v) dict \<Rightarrow> nat \<Rightarrow> ('k, 'v) dict \<times> bool" where
  "dictExpand d sz =
     (if dictIsRehashing d \<or> used (ht0 d) > sz then (d, False)
      else
        let realsize = dictNextPower sz in
        if realsize = hsize (ht0 d) then (d, False)
        else
          let n = \<lparr>tbl = replicate realsize [], hsize = realsize, sizemask = realsize - 1, used = 0\<rparr> in
          if tbl (ht0 d) = [] then (d\<lparr>ht0 := n\<rparr>, True)
          else (d\<lparr>ht1 := n, rehashidx := 0\<rparr>, True))"

definition dictResize :: "bool \<Rightarrow> ('k, 'v) dict \<Rightarrow> ('k, 'v) dict \<times> bool" where
  "dictResize can d =
     (if \<not> can \<or> dictIsRehashing d then (d, False)
      else
        let minimal = to_signed 4 (int (used (ht0 d)) mod 2 ^ 32);
            minimal = (if minimal < int DICT_HT_INITIAL_SIZE then int DICT_HT_INITIAL_SIZE else minimal)
        in dictExpand d (nat minimal))"

definition dictExpandIfNeeded :: "bool \<Rightarrow> ('k, 'v) dict \<Rightarrow> ('k, 'v) dict \<times> bool" where
  "dictExpandIfNeeded can d =
     (if dictIsRehashing d then (d, True)
      else if hsize (ht0 d) = 0 then dictExpand d DICT_HT_INITIAL_SIZE
      else if used (ht0 d) \<ge> hsize (ht0 d) \<and>
              (can \<or> used (ht0 d) div hsize (ht0 d) > dict_force_resize_ratio)
      then dictExpand d (used (ht0 d) * 2)
      else (d, True))"

section \<open>Incremental rehashing\<close>

definition hash_idx :: "('k \<Rightarrow> u64) \<Rightarrow> ('k, 'v) dictht \<Rightarrow> 'k \<Rightarrow> nat" where
  "hash_idx hf t k = unat (hf k) AND sizemask t"

text \<open>Skipping empty buckets: \<^const>\<open>Inl\<close> when the budget of empty visits is exhausted.\<close>

function skip_empty :: "('k \<times> 'v) list list \<Rightarrow> nat \<Rightarrow> nat \<Rightarrow> (nat + nat \<times> nat) option" where
  "skip_empty tb idx ev =
     (if idx < length tb then
        if tb ! idx = [] then
          (if ev - 1 = 0 then Some (Inl (idx + 1)) else skip_empty tb (idx + 1) (ev - 1))
        else Some (Inr (idx, ev))
      else None)"
  by pat_completeness auto
termination
  by (relation "measure (\<lambda>(tb, idx, ev). length tb - idx)") auto

declare skip_empty.simps [simp del]

fun rehash_entries :: "('k \<Rightarrow> u64) \<Rightarrow> ('k \<times> 'v) list \<Rightarrow> ('k, 'v) dictht \<Rightarrow> ('k, 'v) dictht \<Rightarrow>
  (('k, 'v) dictht \<times> ('k, 'v) dictht) option" where
  "rehash_entries hf [] t0 t1 = Some (t0, t1)"
| "rehash_entries hf (e # es) t0 t1 =
     (let h = hash_idx hf t1 (fst e) in
      do { b \<leftarrow> bucket t1 h;
           rehash_entries hf es (t0\<lparr>used := used t0 - 1\<rparr>)
             (t1\<lparr>tbl := (tbl t1)[h := e # b], used := used t1 + 1\<rparr>) })"

fun rehash_loop :: "('k \<Rightarrow> u64) \<Rightarrow> nat \<Rightarrow> nat \<Rightarrow> ('k, 'v) dict \<Rightarrow> (bool \<times> ('k, 'v) dict) option" where
  "rehash_loop hf 0 ev d = Some (False, d)"
| "rehash_loop hf (Suc n) ev d =
     (if used (ht0 d) = 0 then Some (False, d)
      else if \<not> hsize (ht0 d) > nat (rehashidx d) then None
      else do {
        r \<leftarrow> skip_empty (tbl (ht0 d)) (nat (rehashidx d)) ev;
        case r of
          Inl idx \<Rightarrow> Some (True, d\<lparr>rehashidx := int idx\<rparr>)
        | Inr (idx, ev') \<Rightarrow> do {
            b \<leftarrow> bucket (ht0 d) idx;
            (t0, t1) \<leftarrow> rehash_entries hf b (ht0 d) (ht1 d);
            rehash_loop hf n ev'
              (d\<lparr>ht0 := t0\<lparr>tbl := (tbl t0)[idx := []]\<rparr>, ht1 := t1, rehashidx := int idx + 1\<rparr>) } })"

text \<open>The flag says that there are still keys to move.  The callers ask for 1 or 100 steps, so the product
  \<open>n * 10\<close> stays far below the range of \<open>int\<close>.\<close>

definition dictRehash :: "('k \<Rightarrow> u64) \<Rightarrow> ('k, 'v) dict \<Rightarrow> nat \<Rightarrow> (('k, 'v) dict \<times> bool) option" where
  "dictRehash hf d n =
     (if \<not> dictIsRehashing d then Some (d, False)
      else do {
        (early, d) \<leftarrow> rehash_loop hf n (n * 10) d;
        if early then Some (d, True)
        else if used (ht0 d) = 0
        then Some (d\<lparr>ht0 := ht1 d, ht1 := dictReset, rehashidx := -1\<rparr>, False)
        else Some (d, True) })"

definition dictRehashStep :: "('k \<Rightarrow> u64) \<Rightarrow> ('k, 'v) dict \<Rightarrow> ('k, 'v) dict option" where
  "dictRehashStep hf d = (if iterators d = 0 then map_option fst (dictRehash hf d 1) else Some d)"

abbreviation step_if_rehashing :: "('k \<Rightarrow> u64) \<Rightarrow> ('k, 'v) dict \<Rightarrow> ('k, 'v) dict option" where
  "step_if_rehashing hf d \<equiv> (if dictIsRehashing d then dictRehashStep hf d else Some d)"

section \<open>Lookup, insertion and deletion\<close>

fun chain_pos :: "'k \<Rightarrow> ('k \<times> 'v) list \<Rightarrow> nat option" where
  "chain_pos k [] = None"
| "chain_pos k (e # es) = (if k = fst e then Some 0 else map_option Suc (chain_pos k es))"

text \<open>The loop over the tables that \<open>dictFind\<close>, \<open>dictGenericDelete\<close> and \<open>_dictKeyIndex\<close> share:
  the entry found, and the bucket index of the last table visited.\<close>

definition find_tables :: "('k \<Rightarrow> u64) \<Rightarrow> ('k, 'v) dict \<Rightarrow> 'k \<Rightarrow> (entry_ref option \<times> nat) option" where
  "find_tables hf d k =
     (let idx0 = hash_idx hf (ht0 d) k in
      do { b0 \<leftarrow> bucket (ht0 d) idx0;
           case chain_pos k b0 of
             Some p \<Rightarrow> Some (Some (0, idx0, p), idx0)
           | None \<Rightarrow>
               if \<not> dictIsRehashing d then Some (None, idx0)
               else (let idx1 = hash_idx hf (ht1 d) k in
                     do { b1 \<leftarrow> bucket (ht1 d) idx1;
                          Some (map_option (\<lambda>p. (1, idx1, p)) (chain_pos k b1), idx1) }) })"

definition upd_ht :: "nat \<Rightarrow> (('k, 'v) dictht \<Rightarrow> ('k, 'v) dictht) \<Rightarrow> ('k, 'v) dict \<Rightarrow> ('k, 'v) dict" where
  "upd_ht j f d = (if j = 0 then d\<lparr>ht0 := f (ht0 d)\<rparr> else d\<lparr>ht1 := f (ht1 d)\<rparr>)"

definition deref :: "('k, 'v) dict \<Rightarrow> entry_ref \<Rightarrow> 'k \<times> 'v" where
  "deref d r = (case r of (j, i, p) \<Rightarrow> tbl (if j = 0 then ht0 d else ht1 d) ! i ! p)"

definition dictSetVal :: "('k, 'v) dict \<Rightarrow> entry_ref \<Rightarrow> 'v \<Rightarrow> ('k, 'v) dict" where
  "dictSetVal d r v = (case r of (j, i, p) \<Rightarrow>
     upd_ht j (\<lambda>t. t\<lparr>tbl := (tbl t)[i := (tbl t ! i)[p := (fst (tbl t ! i ! p), v)]]\<rparr>) d)"

definition dictKeyIndex ::
  "('k \<Rightarrow> u64) \<Rightarrow> bool \<Rightarrow> ('k, 'v) dict \<Rightarrow> 'k \<Rightarrow> (('k, 'v) dict \<times> nat option \<times> entry_ref option) option" where
  "dictKeyIndex hf can d k =
     (case dictExpandIfNeeded can d of (d, ok) \<Rightarrow>
        if \<not> ok then Some (d, None, None)
        else do {
          (found, idx) \<leftarrow> find_tables hf d k;
          Some (d, if found = None then Some idx else None, found) })"

text \<open>\<open>fresh\<close> is the value field of the newly allocated entry, which the caller overwrites.\<close>

definition dictAddRaw :: "('k \<Rightarrow> u64) \<Rightarrow> bool \<Rightarrow> 'v \<Rightarrow> ('k, 'v) dict \<Rightarrow> 'k \<Rightarrow>
  (('k, 'v) dict \<times> entry_ref option \<times> entry_ref option) option" where
  "dictAddRaw hf can fresh d k = do {
     d \<leftarrow> step_if_rehashing hf d;
     (d, index, existing) \<leftarrow> dictKeyIndex hf can d k;
     case index of
       None \<Rightarrow> Some (d, None, existing)
     | Some i \<Rightarrow>
         (let j = (if dictIsRehashing d then 1 else 0) in
          Some (upd_ht j (\<lambda>t. t\<lparr>tbl := (tbl t)[i := (k, fresh) # tbl t ! i], used := used t + 1\<rparr>) d,
                Some (j, i, 0), None)) }"

definition dictAdd :: "('k \<Rightarrow> u64) \<Rightarrow> bool \<Rightarrow> 'v \<Rightarrow> ('k, 'v) dict \<Rightarrow> 'k \<Rightarrow> 'v \<Rightarrow>
  (('k, 'v) dict \<times> bool) option" where
  "dictAdd hf can fresh d k v = do {
     (d, entry, _) \<leftarrow> dictAddRaw hf can fresh d k;
     case entry of None \<Rightarrow> Some (d, False) | Some r \<Rightarrow> Some (dictSetVal d r v, True) }"

text \<open>Dereferencing a \<open>NULL\<close> \<open>existing\<close> pointer is \<^const>\<open>None\<close>.\<close>

definition dictReplace :: "('k \<Rightarrow> u64) \<Rightarrow> bool \<Rightarrow> 'v \<Rightarrow> ('k, 'v) dict \<Rightarrow> 'k \<Rightarrow> 'v \<Rightarrow>
  (('k, 'v) dict \<times> bool) option" where
  "dictReplace hf can fresh d k v = do {
     (d, entry, existing) \<leftarrow> dictAddRaw hf can fresh d k;
     case entry of
       Some r \<Rightarrow> Some (dictSetVal d r v, True)
     | None \<Rightarrow> (case existing of None \<Rightarrow> None | Some r \<Rightarrow> Some (dictSetVal d r v, False)) }"

definition dictAddOrFind :: "('k \<Rightarrow> u64) \<Rightarrow> bool \<Rightarrow> 'v \<Rightarrow> ('k, 'v) dict \<Rightarrow> 'k \<Rightarrow>
  (('k, 'v) dict \<times> entry_ref option) option" where
  "dictAddOrFind hf can fresh d k = do {
     (d, entry, existing) \<leftarrow> dictAddRaw hf can fresh d k;
     Some (d, if entry \<noteq> None then entry else existing) }"

definition remove_nth :: "nat \<Rightarrow> 'a list \<Rightarrow> 'a list" where
  "remove_nth p xs = take p xs @ drop (Suc p) xs"

definition dictGenericDelete :: "('k \<Rightarrow> u64) \<Rightarrow> ('k, 'v) dict \<Rightarrow> 'k \<Rightarrow>
  (('k, 'v) dict \<times> ('k \<times> 'v) option) option" where
  "dictGenericDelete hf d k =
     (if used (ht0 d) = 0 \<and> used (ht1 d) = 0 then Some (d, None)
      else do {
        d \<leftarrow> step_if_rehashing hf d;
        (found, _) \<leftarrow> find_tables hf d k;
        case found of
          None \<Rightarrow> Some (d, None)
        | Some (j, i, p) \<Rightarrow>
            Some (upd_ht j (\<lambda>t. t\<lparr>tbl := (tbl t)[i := remove_nth p (tbl t ! i)], used := used t - 1\<rparr>) d,
                  Some (deref d (j, i, p))) })"

definition dictDelete :: "('k \<Rightarrow> u64) \<Rightarrow> ('k, 'v) dict \<Rightarrow> 'k \<Rightarrow> (('k, 'v) dict \<times> bool) option" where
  "dictDelete hf d k = do { (d, e) \<leftarrow> dictGenericDelete hf d k; Some (d, e \<noteq> None) }"

definition dictUnlink :: "('k \<Rightarrow> u64) \<Rightarrow> ('k, 'v) dict \<Rightarrow> 'k \<Rightarrow>
  (('k, 'v) dict \<times> ('k \<times> 'v) option) option" where
  "dictUnlink hf d k = dictGenericDelete hf d k"

definition dictFind :: "('k \<Rightarrow> u64) \<Rightarrow> ('k, 'v) dict \<Rightarrow> 'k \<Rightarrow>
  (('k, 'v) dict \<times> entry_ref option) option" where
  "dictFind hf d k =
     (if used (ht0 d) + used (ht1 d) = 0 then Some (d, None)
      else do {
        d \<leftarrow> step_if_rehashing hf d;
        (found, _) \<leftarrow> find_tables hf d k;
        Some (d, found) })"

definition dictFetchValue :: "('k \<Rightarrow> u64) \<Rightarrow> ('k, 'v) dict \<Rightarrow> 'k \<Rightarrow>
  (('k, 'v) dict \<times> 'v option) option" where
  "dictFetchValue hf d k = do {
     (d, he) \<leftarrow> dictFind hf d k;
     Some (d, map_option (\<lambda>r. snd (deref d r)) he) }"

text \<open>\<open>_dictClear\<close> walks the buckets while entries remain; the result lists the entries it frees, in
  the order in which it frees them.\<close>

fun clear_loop :: "('k \<times> 'v) list list \<Rightarrow> nat \<Rightarrow> ('k \<times> 'v) list" where
  "clear_loop [] u = []"
| "clear_loop (b # bs) u = (if u > 0 then b @ clear_loop bs (u - length b) else [])"

definition dictClear :: "('k, 'v) dictht \<Rightarrow> ('k, 'v) dictht \<times> ('k \<times> 'v) list" where
  "dictClear t = (dictReset, clear_loop (take (hsize t) (tbl t)) (used t))"

definition dictEmpty :: "('k, 'v) dict \<Rightarrow> ('k, 'v) dict \<times> ('k \<times> 'v) list" where
  "dictEmpty d =
     (case dictClear (ht0 d) of (t0, freed0) \<Rightarrow>
      case dictClear (ht1 d) of (t1, freed1) \<Rightarrow>
        (d\<lparr>ht0 := t0, ht1 := t1, rehashidx := -1, iterators := 0\<rparr>, freed0 @ freed1))"

text \<open>The loop of \<open>dictRehashMilliseconds\<close>: \<open>b\<close> is the number of rounds after which the clock says stop;
  the result counts the buckets asked for.\<close>

fun dictRehashMilliseconds :: "('k \<Rightarrow> u64) \<Rightarrow> nat \<Rightarrow> ('k, 'v) dict \<Rightarrow> (('k, 'v) dict \<times> nat) option" where
  "dictRehashMilliseconds hf b d = do {
     (d, more) \<leftarrow> dictRehash hf d 100;
     if \<not> more then Some (d, 0)
     else case b of 0 \<Rightarrow> Some (d, 100)
          | Suc b' \<Rightarrow> map_option (\<lambda>(d, n). (d, 100 + n)) (dictRehashMilliseconds hf b' d) }"

declare dictRehashMilliseconds.simps [simp del]

section \<open>Abstraction and invariant\<close>

definition ht_entries :: "('k, 'v) dictht \<Rightarrow> ('k \<times> 'v) list" where
  "ht_entries t = concat (tbl t)"

definition dict_entries :: "('k, 'v) dict \<Rightarrow> ('k \<times> 'v) list" where
  "dict_entries d = ht_entries (ht0 d) @ ht_entries (ht1 d)"

definition dict_map :: "('k, 'v) dict \<Rightarrow> 'k \<rightharpoonup> 'v" where
  "dict_map d = map_of (dict_entries d)"

definition ht_wf :: "('k \<Rightarrow> u64) \<Rightarrow> ('k, 'v) dictht \<Rightarrow> bool" where
  "ht_wf hf t \<longleftrightarrow>
     (\<exists>m. hsize t = 2 ^ m) \<and> sizemask t = hsize t - 1 \<and> length (tbl t) = hsize t \<and>
     used t = length (ht_entries t) \<and>
     (\<forall>i < length (tbl t). \<forall>e \<in> set (tbl t ! i). hash_idx hf t (fst e) = i)"

definition dict_wf :: "('k \<Rightarrow> u64) \<Rightarrow> ('k, 'v) dict \<Rightarrow> bool" where
  "dict_wf hf d \<longleftrightarrow>
     distinct (map fst (dict_entries d)) \<and>
     (if rehashidx d = -1 then (ht0 d = dictReset \<or> ht_wf hf (ht0 d)) \<and> ht1 d = dictReset
      else ht_wf hf (ht0 d) \<and> ht_wf hf (ht1 d) \<and>
           0 \<le> rehashidx d \<and> nat (rehashidx d) \<le> hsize (ht0 d) \<and>
           (\<forall>i < nat (rehashidx d). tbl (ht0 d) ! i = []))"

lemma ht_entries_reset [simp]: "ht_entries dictReset = []"
  by (simp add: ht_entries_def dictReset_def)

lemma reset_sel [simp]: "used dictReset = 0" "tbl dictReset = []" "hsize dictReset = 0"
  by (simp_all add: dictReset_def)

lemma mset_concat_update:
  "i < length tb \<Longrightarrow> mset (concat (tb[i := b])) + mset (tb ! i) = mset (concat tb) + mset b"
proof (induction tb arbitrary: i)
  case (Cons x tb)
  then show ?case by (cases i) (auto simp: ac_simps)
qed simp

lemma set_ht_entries: "set (ht_entries t) = {e. \<exists>i < length (tbl t). e \<in> set (tbl t ! i)}"
  by (auto simp: ht_entries_def set_conv_nth [of "tbl t"])

lemma hash_idx_less: "ht_wf hf t \<Longrightarrow> hash_idx hf t k < length (tbl t)"
proof -
  assume wf: "ht_wf hf t"
  then obtain m where m: "hsize t = 2 ^ m" by (auto simp: ht_wf_def)
  have "hash_idx hf t k = take_bit m (unat (hf k))"
    using wf m by (simp add: hash_idx_def ht_wf_def take_bit_eq_mask mask_eq_exp_minus_1)
  also have "\<dots> < 2 ^ m" by simp
  finally show ?thesis using wf m by (simp add: ht_wf_def)
qed

lemma hash_idx_upd [simp]:
  "hash_idx hf (t\<lparr>tbl := x\<rparr>) k = hash_idx hf t k" "hash_idx hf (t\<lparr>used := u\<rparr>) k = hash_idx hf t k"
  by (simp_all add: hash_idx_def)

text \<open>Replacing one chain of a table.\<close>

lemma ht_wf_upd:
  assumes wf: "ht_wf hf t" and i: "i < length (tbl t)"
    and b: "\<forall>e \<in> set b. hash_idx hf t (fst e) = i"
    and u: "u + length (tbl t ! i) = used t + length b"
  shows "ht_wf hf (t\<lparr>tbl := (tbl t)[i := b], used := u\<rparr>)"
    and "mset (ht_entries (t\<lparr>tbl := (tbl t)[i := b], used := u\<rparr>)) + mset (tbl t ! i) =
         mset (ht_entries t) + mset b"
proof -
  show m: "mset (ht_entries (t\<lparr>tbl := (tbl t)[i := b], used := u\<rparr>)) + mset (tbl t ! i) =
      mset (ht_entries t) + mset b"
    using mset_concat_update [OF i, of b] by (simp add: ht_entries_def)
  from arg_cong [OF this, of size] u wf
  have "u = length (ht_entries (t\<lparr>tbl := (tbl t)[i := b], used := u\<rparr>))"
    by (simp add: ht_wf_def)
  moreover have "\<forall>j < length (tbl t). \<forall>e \<in> set ((tbl t)[i := b] ! j). hash_idx hf t (fst e) = j"
    using wf b i by (auto simp: ht_wf_def nth_list_update split: if_splits)
  ultimately show "ht_wf hf (t\<lparr>tbl := (tbl t)[i := b], used := u\<rparr>)"
    using wf by (simp add: ht_wf_def)
qed

lemma dict_mapI:
  assumes "mset (dict_entries d') = mset es" "distinct (map fst es)"
  shows "dict_map d' = map_of es" and "distinct (map fst (dict_entries d'))"
proof -
  have "mset (map fst (dict_entries d')) = mset (map fst es)" using assms(1) by simp
  then show d: "distinct (map fst (dict_entries d'))"
    using assms(2) mset_eq_imp_distinct_iff by blast
  show "dict_map d' = map_of es"
    unfolding dict_map_def using map_of_inject_set [OF d assms(2)] mset_eq_setD [OF assms(1)] by simp
qed

section \<open>Rehashing keeps the map\<close>

lemma rehash_entries_wf:
  assumes "ht_wf hf t1"
  shows "\<exists>t1'. rehash_entries hf es t0 t1 = Some (t0\<lparr>used := used t0 - length es\<rparr>, t1') \<and>
    ht_wf hf t1' \<and> mset (ht_entries t1') = mset (ht_entries t1) + mset es"
  using assms
proof (induction es arbitrary: t0 t1)
  case (Cons e es)
  let ?h = "hash_idx hf t1 (fst e)" and ?s = "t0\<lparr>used := used t0 - 1\<rparr>"
  let ?s1 = "t1\<lparr>tbl := (tbl t1)[?h := e # tbl t1 ! ?h], used := used t1 + 1\<rparr>"
  have h: "?h < length (tbl t1)" using Cons.prems by (rule hash_idx_less)
  have b: "\<forall>x \<in> set (e # tbl t1 ! ?h). hash_idx hf t1 (fst x) = ?h"
    using Cons.prems h by (auto simp: ht_wf_def)
  note w = ht_wf_upd [OF Cons.prems h b, of "used t1 + 1"]
  then have w1: "ht_wf hf ?s1" and "mset (ht_entries ?s1) + mset (tbl t1 ! ?h) =
      mset (ht_entries t1) + mset (e # tbl t1 ! ?h)" by auto
  then have m1: "mset (ht_entries ?s1) = mset (ht_entries t1) + {#e#}" by simp
  obtain t1' where "rehash_entries hf es ?s ?s1 = Some (?s\<lparr>used := used ?s - length es\<rparr>, t1')"
    "ht_wf hf t1'" "mset (ht_entries t1') = mset (ht_entries ?s1) + mset es"
    using Cons.IH [OF w1, of ?s] by blast
  with h m1 show ?case by (auto simp: bucket_def Let_def)
qed simp

lemma skip_empty_spec:
  assumes "\<exists>i. idx \<le> i \<and> i < length tb \<and> tb ! i \<noteq> []"
  shows "(\<exists>idx'. skip_empty tb idx ev = Some (Inl idx') \<and> idx < idx' \<and> idx' \<le> length tb \<and>
            (\<forall>i. idx \<le> i \<and> i < idx' \<longrightarrow> tb ! i = [])) \<or>
         (\<exists>i ev'. skip_empty tb idx ev = Some (Inr (i, ev')) \<and> idx \<le> i \<and> i < length tb \<and>
            tb ! i \<noteq> [] \<and> (\<forall>j. idx \<le> j \<and> j < i \<longrightarrow> tb ! j = []))"
  using assms
proof (induction tb idx ev rule: skip_empty.induct)
  case (1 tb idx ev)
  then have idx: "idx < length tb" by auto
  consider "tb ! idx \<noteq> []" | "tb ! idx = []" "ev - 1 = 0" | "tb ! idx = []" "ev - 1 \<noteq> 0" by blast
  then show ?case
  proof cases
    case 1
    then show ?thesis using idx by (subst (2) skip_empty.simps) auto
  next
    case 2
    then have "skip_empty tb idx ev = Some (Inl (idx + 1))"
      using idx by (subst skip_empty.simps) simp
    moreover have "\<forall>i. idx \<le> i \<and> i < idx + 1 \<longrightarrow> tb ! i = []" using 2 by (auto simp: less_Suc_eq)
    ultimately show ?thesis using idx by auto
  next
    case 3
    have ex: "\<exists>i. idx + 1 \<le> i \<and> i < length tb \<and> tb ! i \<noteq> []"
      using 1(2) 3 by (metis Suc_eq_plus1 Suc_leI le_neq_implies_less)
    have eq: "skip_empty tb idx ev = skip_empty tb (idx + 1) (ev - 1)"
      using idx 3 by (subst skip_empty.simps) simp
    have all: "\<forall>i. idx \<le> i \<and> i < n \<longrightarrow> tb ! i = []" if "\<forall>i. idx + 1 \<le> i \<and> i < n \<longrightarrow> tb ! i = []" for n
      using that 3(1) by (metis Suc_eq_plus1 le_antisym not_less_eq_eq)
    from 1(1) [OF idx 3(1,2) ex] show ?thesis
      unfolding eq
    proof (elim disjE exE conjE, goal_cases)
      case (1 idx')
      then show ?case using all [of idx'] by auto
    next
      case (2 i ev')
      then show ?case using all [of i] by auto
    qed
  qed
qed

lemma rehash_entries_hsize:
  "rehash_entries hf es t0 t1 = Some (t0', t1') \<Longrightarrow> hsize t0' = hsize t0 \<and> hsize t1' = hsize t1"
  by (induction hf es t0 t1 rule: rehash_entries.induct) (auto simp: Let_def bind_eq_Some_conv)

text \<open>One bucket moved, and the loop over buckets.\<close>

definition rehash_inv :: "('k \<Rightarrow> u64) \<Rightarrow> ('k, 'v) dict \<Rightarrow> bool" where
  "rehash_inv hf d \<longleftrightarrow> ht_wf hf (ht0 d) \<and> ht_wf hf (ht1 d) \<and>
     0 \<le> rehashidx d \<and> nat (rehashidx d) \<le> hsize (ht0 d) \<and>
     (\<forall>i < nat (rehashidx d). tbl (ht0 d) ! i = [])"

lemma dict_wf_rehashing:
  "dictIsRehashing d \<Longrightarrow> dict_wf hf d \<longleftrightarrow> distinct (map fst (dict_entries d)) \<and> rehash_inv hf d"
  by (simp add: dict_wf_def rehash_inv_def dictIsRehashing_def)

lemma nonempty_bucket:
  assumes "rehash_inv hf d" "used (ht0 d) \<noteq> 0"
  shows "\<exists>i. nat (rehashidx d) \<le> i \<and> i < length (tbl (ht0 d)) \<and> tbl (ht0 d) ! i \<noteq> []"
proof -
  have "ht_entries (ht0 d) \<noteq> []" using assms by (auto simp: rehash_inv_def ht_wf_def)
  then obtain i where "i < length (tbl (ht0 d))" "tbl (ht0 d) ! i \<noteq> []"
    by (auto simp: ht_entries_def in_set_conv_nth)
  then show ?thesis using assms(1) by (metis not_le rehash_inv_def)
qed

lemma rehash_bucket:
  assumes inv: "rehash_inv hf d" and i: "nat (rehashidx d) \<le> i" "i < length (tbl (ht0 d))"
    and em: "\<forall>j. nat (rehashidx d) \<le> j \<and> j < i \<longrightarrow> tbl (ht0 d) ! j = []"
  shows "\<exists>t0 t1. rehash_entries hf (tbl (ht0 d) ! i) (ht0 d) (ht1 d) = Some (t0, t1) \<and>
    (let d' = d\<lparr>ht0 := t0\<lparr>tbl := (tbl t0)[i := []]\<rparr>, ht1 := t1, rehashidx := int i + 1\<rparr> in
     rehash_inv hf d' \<and> mset (dict_entries d') = mset (dict_entries d))"
proof -
  let ?b = "tbl (ht0 d) ! i" and ?t = "ht0 d"
  have wf0: "ht_wf hf ?t" and wf1: "ht_wf hf (ht1 d)" using inv by (auto simp: rehash_inv_def)
  obtain t1 where t1: "rehash_entries hf ?b ?t (ht1 d) = Some (?t\<lparr>used := used ?t - length ?b\<rparr>, t1)"
    "ht_wf hf t1" "mset (ht_entries t1) = mset (ht_entries (ht1 d)) + mset ?b"
    using rehash_entries_wf [OF wf1, of ?b ?t] by blast
  have "length ?b \<le> used ?t"
  proof -
    have "length ?b \<le> sum_list (map length (tbl ?t))"
      using i(2) by (intro member_le_sum_list) auto
    then show ?thesis using wf0 by (simp add: ht_wf_def ht_entries_def length_concat)
  qed
  then have "used ?t - length ?b + length ?b = used ?t + length []" by simp
  note w = ht_wf_upd [OF wf0 i(2) _ this, simplified]
  have emp: "(tbl ?t)[i := []] ! j = []" if "j < Suc i" for j
  proof (cases "j = i")
    case False
    then have "j < nat (rehashidx d) \<or> nat (rehashidx d) \<le> j \<and> j < i" using that by auto
    then show ?thesis using False inv em by (auto simp: rehash_inv_def)
  qed (use i(2) in simp)
  let ?s = "?t\<lparr>used := used ?t - length ?b\<rparr>"
  let ?d = "d\<lparr>ht0 := ?s\<lparr>tbl := (tbl ?s)[i := []]\<rparr>, ht1 := t1, rehashidx := int i + 1\<rparr>"
  have eq: "?s\<lparr>tbl := (tbl ?s)[i := []]\<rparr> = ?t\<lparr>tbl := (tbl ?t)[i := []], used := used ?t - length ?b\<rparr>"
    by simp
  have "nat (int i + 1) = Suc i" by simp
  moreover have "Suc i \<le> hsize ?t" using i(2) wf0 by (simp add: ht_wf_def)
  ultimately have "rehash_inv hf ?d"
    using w(1) t1(2) emp unfolding eq by (simp add: rehash_inv_def)
  moreover have "mset (dict_entries ?d) = mset (dict_entries d)"
    using w(2) t1(3) unfolding eq by (simp add: dict_entries_def)
  ultimately show ?thesis using t1(1) by (auto simp: Let_def)
qed

lemma rehash_loop_spec:
  assumes "rehash_inv hf d"
  shows "\<exists>early d'. rehash_loop hf n ev d = Some (early, d') \<and> rehash_inv hf d' \<and>
    mset (dict_entries d') = mset (dict_entries d) \<and> iterators d' = iterators d \<and>
    rehashidx d \<le> rehashidx d' \<and> hsize (ht0 d') = hsize (ht0 d) \<and> hsize (ht1 d') = hsize (ht1 d) \<and>
    (early \<longrightarrow> used (ht0 d') \<noteq> 0) \<and>
    (0 < n \<and> used (ht0 d) \<noteq> 0 \<longrightarrow> rehashidx d < rehashidx d')"
  using assms
proof (induction n arbitrary: d ev)
  case (Suc n)
  let ?r = "nat (rehashidx d)" and ?tb = "tbl (ht0 d)"
  show ?case
  proof (cases "used (ht0 d) = 0")
    case True
    then show ?thesis using Suc.prems by auto
  next
    case False
    note ne = nonempty_bucket [OF Suc.prems False]
    have len: "length ?tb = hsize (ht0 d)" and r0: "0 \<le> rehashidx d"
      using Suc.prems by (auto simp: rehash_inv_def ht_wf_def)
    have sz: "?r < hsize (ht0 d)" using ne len by auto
    from skip_empty_spec [OF ne, of ev] show ?thesis
    proof (elim disjE exE conjE, goal_cases)
      case (1 idx')
      have "rehash_inv hf (d\<lparr>rehashidx := int idx'\<rparr>)"
        using Suc.prems 1 len unfolding rehash_inv_def by (auto simp: not_le) (metis not_le)
      then show ?case
        using 1 False sz r0 by (auto simp: dict_entries_def)
    next
      case (2 i ev')
      obtain t0 t1 where re: "rehash_entries hf (?tb ! i) (ht0 d) (ht1 d) = Some (t0, t1)"
        and inv': "let d' = d\<lparr>ht0 := t0\<lparr>tbl := (tbl t0)[i := []]\<rparr>, ht1 := t1, rehashidx := int i + 1\<rparr> in
          rehash_inv hf d' \<and> mset (dict_entries d') = mset (dict_entries d)"
        using rehash_bucket [OF Suc.prems 2(2,3)] 2(5) by blast
      let ?d = "d\<lparr>ht0 := t0\<lparr>tbl := (tbl t0)[i := []]\<rparr>, ht1 := t1, rehashidx := int i + 1\<rparr>"
      have inv: "rehash_inv hf ?d" and ms: "mset (dict_entries ?d) = mset (dict_entries d)"
        using inv' by (simp_all add: Let_def)
      have "rehash_loop hf (Suc n) ev d = rehash_loop hf n ev' ?d"
        using False sz 2 re by (simp add: bucket_def)
      moreover have "rehashidx d < rehashidx ?d" using 2(2) r0 by simp
      moreover have "hsize (ht0 ?d) = hsize (ht0 d)" "hsize (ht1 ?d) = hsize (ht1 d)"
        using re by (simp_all add: rehash_entries_hsize [OF re])
      ultimately show ?case using Suc.IH [OF inv, of ev'] ms by auto
    qed
  qed
qed auto

definition dict_struct :: "('k \<Rightarrow> u64) \<Rightarrow> ('k, 'v) dict \<Rightarrow> bool" where
  "dict_struct hf d \<longleftrightarrow>
     (if dictIsRehashing d then rehash_inv hf d
      else (ht0 d = dictReset \<or> ht_wf hf (ht0 d)) \<and> ht1 d = dictReset)"

lemma dict_wf_alt: "dict_wf hf d \<longleftrightarrow> distinct (map fst (dict_entries d)) \<and> dict_struct hf d"
  by (auto simp: dict_wf_def dict_struct_def rehash_inv_def dictIsRehashing_def)

lemma ht_wf_empty: "ht_wf hf t \<Longrightarrow> used t = 0 \<longleftrightarrow> ht_entries t = []"
  by (simp add: ht_wf_def)

lemma map_of_mset:
  assumes "mset es = mset es'" "distinct (map fst es)"
  shows "map_of es' = map_of es" and "distinct (map fst es')"
proof -
  have "mset (map fst es') = mset (map fst es)" using assms(1) by simp
  then show d: "distinct (map fst es')"
    using assms(2) mset_eq_imp_distinct_iff by blast
  show "map_of es' = map_of es"
    using map_of_inject_set [OF d assms(2)] mset_eq_setD [OF assms(1)] by simp
qed

lemma dictRehash_spec:
  assumes wf: "dict_wf hf d"
  shows "\<exists>d' more. dictRehash hf d n = Some (d', more) \<and> dict_wf hf d' \<and> dict_map d' = dict_map d \<and>
    mset (dict_entries d') = mset (dict_entries d) \<and>
    more = dictIsRehashing d' \<and> iterators d' = iterators d \<and>
    (dictIsRehashing d \<and> 0 < n \<longrightarrow> \<not> more \<or> rehashidx d < rehashidx d' \<and> hsize (ht0 d') = hsize (ht0 d))"
proof (cases "dictIsRehashing d")
  case False
  then show ?thesis using wf by (auto simp: dictRehash_def)
next
  case True
  obtain early d1 where L: "rehash_loop hf n (n * 10) d = Some (early, d1)" "rehash_inv hf d1"
    "mset (dict_entries d1) = mset (dict_entries d)" "iterators d1 = iterators d"
    "hsize (ht0 d1) = hsize (ht0 d)"
    "early \<Longrightarrow> used (ht0 d1) \<noteq> 0" "0 < n \<and> used (ht0 d) \<noteq> 0 \<longrightarrow> rehashidx d < rehashidx d1"
    using rehash_loop_spec [of hf d n "n * 10"] wf True by (auto simp: dict_wf_rehashing)
  have rh: "dictIsRehashing d1" using L(2) by (auto simp: rehash_inv_def dictIsRehashing_def)
  define d' where "d' = (if used (ht0 d1) = 0
      then d1\<lparr>ht0 := ht1 d1, ht1 := dictReset, rehashidx := -1\<rparr> else d1)"
  have run: "dictRehash hf d n = Some (d', used (ht0 d1) \<noteq> 0)"
    using True L(1,6) by (cases early) (auto simp: dictRehash_def d'_def)
  have ents: "mset (dict_entries d') = mset (dict_entries d)"
    using L(2,3) ht_wf_empty [of hf "ht0 d1"] by (auto simp: d'_def dict_entries_def rehash_inv_def)
  have dist: "distinct (map fst (dict_entries d))" using wf by (simp add: dict_wf_alt)
  note mp = map_of_mset [OF ents [symmetric] dist]
  have "dict_struct hf d'"
    using L(2) rh by (auto simp: d'_def dict_struct_def dictIsRehashing_def rehash_inv_def)
  moreover have "dictIsRehashing d' \<longleftrightarrow> used (ht0 d1) \<noteq> 0"
    using rh by (auto simp: d'_def dictIsRehashing_def)
  moreover have "rehashidx d < rehashidx d' \<and> hsize (ht0 d') = hsize (ht0 d)"
    if "0 < n" "used (ht0 d1) \<noteq> 0"
  proof -
    have "used (ht0 d) \<noteq> 0"
    proof
      assume "used (ht0 d) = 0"
      then have "rehash_loop hf n (n * 10) d = Some (False, d)" by (cases n) auto
      with L(1) that(2) \<open>used (ht0 d) = 0\<close> show False by simp
    qed
    with L(5,7) that show ?thesis by (simp add: d'_def)
  qed
  ultimately show ?thesis
    using run ents mp L(4) by (auto simp: dict_wf_alt dict_map_def d'_def)
qed

lemma step_if_rehashing_spec:
  assumes "dict_wf hf d"
  shows "\<exists>d'. step_if_rehashing hf d = Some d' \<and> dict_wf hf d' \<and> dict_map d' = dict_map d \<and>
    mset (dict_entries d') = mset (dict_entries d) \<and> iterators d' = iterators d"
  using dictRehash_spec [OF assms, of 1] assms by (auto simp: dictRehashStep_def)

section \<open>Finding an entry\<close>

lemma chain_pos_None: "chain_pos k b = None \<longleftrightarrow> k \<notin> fst ` set b"
  by (induction b) auto

lemma chain_pos_Some: "chain_pos k b = Some p \<Longrightarrow> p < length b \<and> fst (b ! p) = k"
  by (induction b arbitrary: p) (auto split: if_splits)

abbreviation table_of :: "('k, 'v) dict \<Rightarrow> nat \<Rightarrow> ('k, 'v) dictht" where
  "table_of d j \<equiv> (if j = 0 then ht0 d else ht1 d)"

text \<open>A pointer that addresses an entry for the key \<open>k\<close>.\<close>

definition entry_at :: "('k \<Rightarrow> u64) \<Rightarrow> ('k, 'v) dict \<Rightarrow> 'k \<Rightarrow> entry_ref \<Rightarrow> bool" where
  "entry_at hf d k r \<longleftrightarrow> (case r of (j, i, p) \<Rightarrow>
     ht_wf hf (table_of d j) \<and> (j \<noteq> 0 \<longrightarrow> dictIsRehashing d) \<and>
     i < length (tbl (table_of d j)) \<and> i = hash_idx hf (table_of d j) k \<and>
     p < length (tbl (table_of d j) ! i) \<and> fst (tbl (table_of d j) ! i ! p) = k)"

lemma entry_at_deref: "entry_at hf d k r \<Longrightarrow> fst (deref d r) = k \<and> deref d r \<in> set (dict_entries d)"
  by (cases r) (auto simp: entry_at_def deref_def dict_entries_def set_ht_entries split: if_splits
      intro!: exI [of _ "hash_idx hf _ _"])

lemma in_ht_bucket:
  assumes "ht_wf hf t"
  shows "k \<in> fst ` set (ht_entries t) \<longleftrightarrow> k \<in> fst ` set (tbl t ! hash_idx hf t k)"
  using assms hash_idx_less [OF assms, of k] by (force simp: set_ht_entries ht_wf_def)

lemma dict_map_None: "dict_map d k = None \<longleftrightarrow> k \<notin> fst ` set (dict_entries d)"
  by (simp add: dict_map_def map_of_eq_None_iff)

lemma find_tables_spec:
  assumes wf: "dict_wf hf d" and ne: "ht_wf hf (ht0 d)"
  shows "\<exists>r idx. find_tables hf d k = Some (r, idx) \<and>
    (case r of
       None \<Rightarrow> dict_map d k = None \<and> idx = hash_idx hf (table_of d (if dictIsRehashing d then 1 else 0)) k
     | Some e \<Rightarrow> entry_at hf d k e \<and> dict_map d k = Some (snd (deref d e)))"
proof -
  have dist: "distinct (map fst (dict_entries d))" and st: "dict_struct hf d"
    using wf by (auto simp: dict_wf_alt)
  have val: "dict_map d k = Some (snd (deref d e))" if "entry_at hf d k e" for e
    using entry_at_deref [OF that] dist
    by (metis dict_map_def map_of_eq_Some_iff prod.collapse)
  let ?i0 = "hash_idx hf (ht0 d) k" and ?i1 = "hash_idx hf (ht1 d) k"
  let ?b = "tbl (ht0 d) ! ?i0" and ?c = "tbl (ht1 d) ! ?i1"
  have i0: "?i0 < length (tbl (ht0 d))" using ne by (rule hash_idx_less)
  show ?thesis
  proof (cases "chain_pos k ?b")
    case (Some p)
    have "entry_at hf d k (0, ?i0, p)"
      using chain_pos_Some [OF Some] i0 ne by (simp add: entry_at_def)
    with Some i0 val show ?thesis by (simp add: find_tables_def bucket_def Let_def)
  next
    case none: None
    then have k0: "k \<notin> fst ` set (ht_entries (ht0 d))"
      using in_ht_bucket [OF ne] chain_pos_None by metis
    show ?thesis
    proof (cases "dictIsRehashing d")
      case False
      then have "ht1 d = dictReset" using st by (simp add: dict_struct_def)
      then have "dict_map d k = None" using k0 by (simp add: dict_map_None dict_entries_def)
      with none i0 False show ?thesis by (simp add: find_tables_def bucket_def Let_def)
    next
      case True
      then have wf1: "ht_wf hf (ht1 d)" using st by (simp add: dict_struct_def rehash_inv_def)
      then have i1: "?i1 < length (tbl (ht1 d))" by (rule hash_idx_less)
      show ?thesis
      proof (cases "chain_pos k ?c")
        case None
        then have "k \<notin> fst ` set (ht_entries (ht1 d))"
          using in_ht_bucket [OF wf1] chain_pos_None by metis
        then have "dict_map d k = None" using k0 by (simp add: dict_map_None dict_entries_def image_Un)
        with none None i0 i1 True show ?thesis by (simp add: find_tables_def bucket_def Let_def)
      next
        case (Some p)
        have "entry_at hf d k (1, ?i1, p)"
          using chain_pos_Some [OF Some] i1 wf1 True by (simp add: entry_at_def)
        with none Some i0 i1 True val show ?thesis by (simp add: find_tables_def bucket_def Let_def)
      qed
    qed
  qed
qed

section \<open>Changing one chain\<close>

lemma map_upd_mset:
  assumes "distinct (map fst es)" "mset es' + {#(k, old)#} = mset es + {#(k, v)#}" "(k, old) \<in> set es"
  shows "map_of es' = (map_of es)(k \<mapsto> v)" and "distinct (map fst es')"
proof -
  define r where "r = remove1 (k, old) es"
  have es: "mset es = mset ((k, old) # r)" using assms(3) by (simp add: r_def)
  then have es': "mset es' = mset ((k, v) # r)" using assms(2) by simp
  have "distinct (map fst ((k, v) # r))" using map_of_mset(2) [OF es assms(1)] by simp
  note d' = map_of_mset [OF es' [symmetric] this]
  then show "distinct (map fst es')" by simp
  have "map_of es = (map_of r)(k \<mapsto> old)" using map_of_mset(1) [OF es assms(1)] by simp
  then show "map_of es' = (map_of es)(k \<mapsto> v)" using d'(1) by simp
qed

lemma map_add_mset:
  assumes "distinct (map fst es)" "mset es' = mset es + {#(k, v)#}" "k \<notin> fst ` set es"
  shows "map_of es' = (map_of es)(k \<mapsto> v)" and "distinct (map fst es')"
proof -
  have "distinct (map fst ((k, v) # es))" using assms by simp
  moreover have "mset ((k, v) # es) = mset es'" using assms(2) by simp
  ultimately show "map_of es' = (map_of es)(k \<mapsto> v)" and "distinct (map fst es')"
    using map_of_mset [of "(k, v) # es" es'] by auto
qed

lemma map_del_mset:
  assumes "distinct (map fst es)" "mset es' + {#(k, v)#} = mset es"
  shows "map_of es' = (map_of es)(k := None)" and "distinct (map fst es')"
proof -
  have m: "mset es = mset ((k, v) # es')" using assms(2) by simp
  note d = map_of_mset [OF m assms(1)]
  then show "distinct (map fst es')" by simp
  have "map_of es' k = None" using d(2) by (simp add: map_of_eq_None_iff)
  moreover have "map_of es = (map_of es')(k \<mapsto> v)" using d(1) by simp
  ultimately show "map_of es' = (map_of es)(k := None)" by (simp add: fun_upd_idem)
qed

lemma dict_struct_upd:
  assumes st: "dict_struct hf d" and wf: "ht_wf hf (table_of d j)" "j \<noteq> 0 \<longrightarrow> dictIsRehashing d"
    and i: "i < length (tbl (table_of d j))"
    and b: "\<forall>e \<in> set b. hash_idx hf (table_of d j) (fst e) = i"
    and u: "u + length (tbl (table_of d j) ! i) = used (table_of d j) + length b"
    and e: "j = 0 \<longrightarrow> dictIsRehashing d \<longrightarrow> tbl (ht0 d) ! i = [] \<longrightarrow> b = []"
  shows "dict_struct hf (upd_ht j (\<lambda>t. t\<lparr>tbl := (tbl t)[i := b], used := u\<rparr>) d)"
    and "mset (dict_entries (upd_ht j (\<lambda>t. t\<lparr>tbl := (tbl t)[i := b], used := u\<rparr>) d)) +
         mset (tbl (table_of d j) ! i) = mset (dict_entries d) + mset b"
proof -
  let ?d = "upd_ht j (\<lambda>t. t\<lparr>tbl := (tbl t)[i := b], used := u\<rparr>) d"
  note w = ht_wf_upd [OF wf(1) i b u]
  show "mset (dict_entries ?d) + mset (tbl (table_of d j) ! i) = mset (dict_entries d) + mset b"
    using w(2) by (cases "j = 0") (auto simp: upd_ht_def dict_entries_def ac_simps)
  have rh: "dictIsRehashing ?d = dictIsRehashing d" by (simp add: upd_ht_def dictIsRehashing_def)
  show "dict_struct hf ?d"
  proof (cases "dictIsRehashing d")
    case False
    then show ?thesis using st wf w(1) rh by (auto simp: dict_struct_def upd_ht_def split: if_splits)
  next
    case True
    then have inv: "rehash_inv hf d" using st by (simp add: dict_struct_def)
    have "(tbl (ht0 d))[i := b] ! k = []" if "j = 0" "k < nat (rehashidx d)" for k
      using that inv e i True by (cases "k = i") (auto simp: rehash_inv_def)
    then show ?thesis using inv w(1) True rh
      by (cases "j = 0") (auto simp: dict_struct_def rehash_inv_def upd_ht_def)
  qed
qed

lemma mset_swap:
  assumes "A + C = D + B" "B + X = C + (Y :: 'a multiset)"
  shows "A + X = D + Y"
proof -
  have "A + X + C = D + (B + X)" using assms(1) by (simp add: ac_simps)
  also have "\<dots> = D + Y + C" using assms(2) by (simp add: ac_simps)
  finally show ?thesis by simp
qed

lemma mset_list_update: "p < length b \<Longrightarrow> mset (b[p := x]) + {#b ! p#} = mset b + {#x#}"
  by (simp add: mset_update nth_mem_mset)

lemma dictSetVal_spec:
  assumes wf: "dict_wf hf d" and r: "entry_at hf d k r"
  shows "dict_wf hf (dictSetVal d r v)" and "dict_map (dictSetVal d r v) = (dict_map d)(k \<mapsto> v)"
    and "iterators (dictSetVal d r v) = iterators d"
proof -
  obtain j i p where [simp]: "r = (j, i, p)" by (cases r)
  let ?t = "table_of d j"
  let ?c = "tbl ?t ! i"
  let ?b = "?c[p := (k, v)]"
  have t: "ht_wf hf ?t" "j \<noteq> 0 \<longrightarrow> dictIsRehashing d" "i < length (tbl ?t)" "i = hash_idx hf ?t k"
    "p < length ?c" "fst (?c ! p) = k"
    using r by (auto simp: entry_at_def)
  have eq: "dictSetVal d r v = upd_ht j (\<lambda>x. x\<lparr>tbl := (tbl x)[i := ?b], used := used ?t\<rparr>) d"
    using t(6) by (auto simp: dictSetVal_def upd_ht_def)
  have b: "\<forall>e \<in> set ?b. hash_idx hf ?t (fst e) = i"
    using t set_update_subset_insert [of ?c p "(k, v)"] unfolding ht_wf_def by fastforce
  have "dict_struct hf d" using wf by (simp add: dict_wf_alt)
  note w = dict_struct_upd [OF this t(1-3) b, of "used ?t"]
  have w1: "dict_struct hf (dictSetVal d r v)" unfolding eq using t(5) by (intro w) auto
  have "mset (dict_entries (dictSetVal d r v)) + mset ?c = mset (dict_entries d) + mset ?b"
    unfolding eq using t(5) by (intro w) auto
  then have m: "mset (dict_entries (dictSetVal d r v)) + {#(k, snd (?c ! p))#} = mset (dict_entries d) + {#(k, v)#}"
  proof -
    have "?c ! p = (k, snd (?c ! p))" using t(6) by (simp add: prod_eq_iff)
    then have "mset ?b + {#(k, snd (?c ! p))#} = mset ?c + {#(k, v)#}"
      using mset_list_update [OF t(5), of "(k, v)"] by simp
    with \<open>mset (dict_entries (dictSetVal d r v)) + mset ?c = mset (dict_entries d) + mset ?b\<close>
    show ?thesis by (rule mset_swap)
  qed
  have "(k, snd (?c ! p)) \<in> set (dict_entries d)"
  proof -
    have "deref d r = ?c ! p" by (simp add: deref_def)
    then show ?thesis using entry_at_deref [OF r] t(6) by (metis prod.collapse)
  qed
  with m w1 wf map_upd_mset [of "dict_entries d" "dict_entries (dictSetVal d r v)" k "snd (?c ! p)" v]
  show "dict_wf hf (dictSetVal d r v)" "dict_map (dictSetVal d r v) = (dict_map d)(k \<mapsto> v)"
    by (auto simp: dict_wf_alt dict_map_def)
  show "iterators (dictSetVal d r v) = iterators d" by (simp add: dictSetVal_def upd_ht_def)
qed

section \<open>Growing keeps the map\<close>

lemma dictNextPower_loop_spec:
  assumes "i = 2 ^ a"
  shows "(\<exists>b. dictNextPower_loop sz i = 2 ^ b) \<and> sz \<le> dictNextPower_loop sz i"
  using assms
proof (induction sz i arbitrary: a rule: dictNextPower_loop.induct)
  case (1 sz i)
  show ?case
  proof (cases "i \<ge> sz")
    case True
    with 1(2) show ?thesis by (subst (1 2) dictNextPower_loop.simps) auto
  next
    case False
    have "i * 2 = 2 ^ Suc a" "\<not> (i \<ge> sz \<or> i = 0)" using 1(2) False by simp_all
    with 1(1) have "(\<exists>b. dictNextPower_loop sz (i * 2) = 2 ^ b) \<and> sz \<le> dictNextPower_loop sz (i * 2)"
      by blast
    moreover have "dictNextPower_loop sz i = dictNextPower_loop sz (i * 2)"
      using False 1(2) by (subst dictNextPower_loop.simps) simp
    ultimately show ?thesis by simp
  qed
qed

lemma dictNextPower_spec:
  "(\<exists>b. dictNextPower sz = 2 ^ b) \<and> (sz \<le> 2 ^ 63 \<longrightarrow> sz \<le> dictNextPower sz)"
proof (cases "sz \<ge> 2 ^ 63 - 1")
  case True
  then show ?thesis unfolding dictNextPower_def by (auto intro: exI [of _ 63] simp del: power_numeral)
next
  case False
  then show ?thesis using dictNextPower_loop_spec [of 4 2 sz] by (simp add: dictNextPower_def)
qed

lemma new_table_wf:
  assumes "sz = 2 ^ b"
  shows "ht_wf hf \<lparr>tbl = replicate sz [], hsize = sz, sizemask = sz - 1, used = 0\<rparr>"
    and "ht_entries \<lparr>tbl = replicate sz [], hsize = sz, sizemask = sz - 1, used = 0\<rparr> = []"
  using assms by (auto simp: ht_wf_def ht_entries_def)

lemma ht_wf_nonempty: "ht_wf hf t \<Longrightarrow> tbl t \<noteq> [] \<and> 0 < hsize t"
  by (auto simp: ht_wf_def)

lemma dictExpand_spec:
  assumes "dict_wf hf d" "dictExpand d sz = (d', ok)"
  shows "dict_wf hf d' \<and> dict_entries d' = dict_entries d \<and> iterators d' = iterators d"
    and "ok \<longleftrightarrow> \<not> dictIsRehashing d \<and> used (ht0 d) \<le> sz \<and> dictNextPower sz \<noteq> hsize (ht0 d)"
    and "ok \<Longrightarrow> ht_wf hf (ht0 d')"
proof -
  obtain b where b: "dictNextPower sz = 2 ^ b" using dictNextPower_spec by blast
  note n = new_table_wf(1) [OF b, of hf]
  note n' = new_table_wf(2) [OF b]
  show "ok \<longleftrightarrow> \<not> dictIsRehashing d \<and> used (ht0 d) \<le> sz \<and> dictNextPower sz \<noteq> hsize (ht0 d)"
    using assms(2) by (auto simp: dictExpand_def Let_def split: if_splits)
  show "dict_wf hf d' \<and> dict_entries d' = dict_entries d \<and> iterators d' = iterators d"
  proof (cases ok)
    case False
    then have "d' = d" using assms(2) by (auto simp: dictExpand_def Let_def split: if_splits)
    with assms(1) show ?thesis by simp
  next
    case True
    have st: "dict_struct hf d" "\<not> dictIsRehashing d"
      using assms True by (auto simp: dict_wf_alt dictExpand_def Let_def split: if_splits)
    show ?thesis
    proof (cases "tbl (ht0 d) = []")
      case empty: True
      then have "ht0 d = dictReset" using st ht_wf_nonempty by (auto simp: dict_struct_def)
      with empty True assms st n n' show ?thesis
        by (auto simp: dictExpand_def Let_def dict_wf_alt dict_struct_def dict_entries_def
            dictIsRehashing_def split: if_splits)
    next
      case False
      then have "ht_wf hf (ht0 d)" "ht1 d = dictReset" using st by (auto simp: dict_struct_def)
      with False True assms st n n' show ?thesis
        by (auto simp: dictExpand_def Let_def dict_wf_alt dict_struct_def dict_entries_def
            dictIsRehashing_def rehash_inv_def split: if_splits)
    qed
  qed
  show "ht_wf hf (ht0 d')" if ok
    using that assms n by (auto simp: dictExpand_def Let_def dict_wf_alt dict_struct_def split: if_splits)
qed

lemma dictExpandIfNeeded_spec:
  assumes wf: "dict_wf hf d" and cap: "dictSize d < 2 ^ 62"
  shows "\<exists>d'. dictExpandIfNeeded can d = (d', True) \<and> dict_wf hf d' \<and>
    dict_entries d' = dict_entries d \<and> iterators d' = iterators d \<and> ht_wf hf (ht0 d')"
proof -
  have st: "dict_struct hf d" using wf by (simp add: dict_wf_alt)
  consider (reh) "dictIsRehashing d" | (empty) "\<not> dictIsRehashing d" "hsize (ht0 d) = 0"
    | (grow) "\<not> dictIsRehashing d" "hsize (ht0 d) \<noteq> 0" "used (ht0 d) \<ge> hsize (ht0 d)"
        "can \<or> used (ht0 d) div hsize (ht0 d) > dict_force_resize_ratio"
    | (stay) "\<not> dictIsRehashing d" "hsize (ht0 d) \<noteq> 0"
        "\<not> (used (ht0 d) \<ge> hsize (ht0 d) \<and> (can \<or> used (ht0 d) div hsize (ht0 d) > dict_force_resize_ratio))"
    by blast
  then show ?thesis
  proof cases
    case reh
    with wf st show ?thesis by (auto simp: dictExpandIfNeeded_def dict_struct_def rehash_inv_def)
  next
    case empty
    obtain d' ok where e: "dictExpand d 4 = (d', ok)" by fastforce
    have "dictNextPower 4 = 4" by (simp add: dictNextPower_def dictNextPower_loop.simps)
    moreover have "used (ht0 d) = 0"
      using st empty ht_wf_nonempty [of hf "ht0 d"] by (auto simp: dict_struct_def)
    ultimately have ok using dictExpand_spec(2) [OF wf e] empty by simp
    with e empty dictExpand_spec [OF wf e] show ?thesis by (simp add: dictExpandIfNeeded_def)
  next
    case grow
    obtain d' ok where e: "dictExpand d (used (ht0 d) * 2) = (d', ok)" by fastforce
    have "used (ht0 d) * 2 \<le> dictNextPower (used (ht0 d) * 2)"
      using dictNextPower_spec [of "used (ht0 d) * 2"] cap by (simp add: dictSize_def)
    then have ok using dictExpand_spec(2) [OF wf e] grow by simp
    with e grow dictExpand_spec [OF wf e] show ?thesis by (simp add: dictExpandIfNeeded_def)
  next
    case stay
    with wf st show ?thesis by (auto simp: dictExpandIfNeeded_def dict_struct_def)
  qed
qed

section \<open>The operations implement the map\<close>

lemma dict_size_entries: "dict_wf hf d \<Longrightarrow> dictSize d = length (dict_entries d)"
  by (auto simp: dict_wf_alt dict_struct_def rehash_inv_def dictSize_def dict_entries_def ht_wf_def
      split: if_splits)

lemma dict_size_card: "dict_wf hf d \<Longrightarrow> finite (dom (dict_map d)) \<and> dictSize d = card (dom (dict_map d))"
proof -
  assume wf: "dict_wf hf d"
  then have "distinct (map fst (dict_entries d))" by (simp add: dict_wf_alt)
  then have "card (fst ` set (dict_entries d)) = length (dict_entries d)"
    by (metis distinct_card length_map list.set_map)
  then show ?thesis
    using dict_size_entries [OF wf] by (simp add: dict_map_def dom_map_of_conv_image_fst)
qed

lemma dictAddRaw_spec:
  assumes wf: "dict_wf hf d" and cap: "dictSize d < 2 ^ 62"
  shows "\<exists>d' new ex. dictAddRaw hf can fresh d k = Some (d', new, ex) \<and> dict_wf hf d' \<and>
    iterators d' = iterators d \<and>
    (case dict_map d k of
       None \<Rightarrow> (\<exists>r. new = Some r \<and> ex = None \<and> entry_at hf d' k r) \<and> dict_map d' = (dict_map d)(k \<mapsto> fresh)
     | Some v \<Rightarrow> new = None \<and> (\<exists>r. ex = Some r \<and> entry_at hf d' k r) \<and> dict_map d' = dict_map d)"
proof -
  obtain d1 where d1: "step_if_rehashing hf d = Some d1" "dict_wf hf d1" "dict_map d1 = dict_map d"
    "mset (dict_entries d1) = mset (dict_entries d)" "iterators d1 = iterators d"
    using step_if_rehashing_spec [OF wf] by blast
  have "dictSize d1 < 2 ^ 62"
    using dict_size_entries [OF wf] dict_size_entries [OF d1(2)] mset_eq_length [OF d1(4)] cap by simp
  then obtain d2 where d2: "dictExpandIfNeeded can d1 = (d2, True)" "dict_wf hf d2"
    "dict_entries d2 = dict_entries d1" "iterators d2 = iterators d1" "ht_wf hf (ht0 d2)"
    using dictExpandIfNeeded_spec [OF d1(2)] by blast
  have m2: "dict_map d2 = dict_map d" using d2(3) d1(3) by (simp add: dict_map_def)
  obtain r idx where f: "find_tables hf d2 k = Some (r, idx)" and
    fr: "case r of
       None \<Rightarrow> dict_map d2 k = None \<and> idx = hash_idx hf (table_of d2 (if dictIsRehashing d2 then 1 else 0)) k
     | Some e \<Rightarrow> entry_at hf d2 k e \<and> dict_map d2 k = Some (snd (deref d2 e))"
    using find_tables_spec [OF d2(2,5), of k] by blast
  show ?thesis
  proof (cases r)
    case (Some e)
    then have "dictAddRaw hf can fresh d k = Some (d2, None, Some e)"
      using d1(1) d2(1) f by (simp add: dictAddRaw_def dictKeyIndex_def)
    with Some fr m2 d1 d2 show ?thesis by (cases e) auto
  next
    case None
    let ?j = "if dictIsRehashing d2 then 1 else 0 :: nat"
    let ?t = "table_of d2 ?j"
    have idx: "idx = hash_idx hf ?t k" and nk: "dict_map d2 k = None" using None fr by auto
    have st: "dict_struct hf d2" using d2(2) by (simp add: dict_wf_alt)
    have tw: "ht_wf hf ?t" using st d2(5) by (auto simp: dict_struct_def rehash_inv_def)
    have i: "idx < length (tbl ?t)" using hash_idx_less [OF tw] idx by simp
    let ?b = "(k, fresh) # tbl ?t ! idx"
    have b: "\<forall>e \<in> set ?b. hash_idx hf ?t (fst e) = idx" using tw i idx by (auto simp: ht_wf_def)
    let ?d = "upd_ht ?j (\<lambda>t. t\<lparr>tbl := (tbl t)[idx := ?b], used := used ?t + 1\<rparr>) d2"
    have w: "dict_struct hf ?d"
      "mset (dict_entries ?d) + mset (tbl ?t ! idx) = mset (dict_entries d2) + mset ?b"
      using dict_struct_upd [OF st tw _ i b, of "used ?t + 1"] by simp_all
    then have "mset (dict_entries ?d) = mset (dict_entries d2) + {#(k, fresh)#}" by simp
    note m = map_add_mset [OF _ this, folded dict_map_def]
    have nk': "k \<notin> fst ` set (dict_entries d2)" using nk by (simp add: dict_map_None)
    have dist: "distinct (map fst (dict_entries d2))" using d2(2) by (simp add: dict_wf_alt)
    have "entry_at hf ?d k (?j, idx, 0)"
    proof -
      have "ht_wf hf (table_of ?d ?j)" "dictIsRehashing ?d = dictIsRehashing d2"
        "tbl (table_of ?d ?j) = (tbl ?t)[idx := ?b]" "hash_idx hf (table_of ?d ?j) k = idx"
        using ht_wf_upd(1) [OF tw i b, of "used ?t + 1"] idx
        by (auto simp: upd_ht_def dictIsRehashing_def)
      then show ?thesis using i by (auto simp: entry_at_def)
    qed
    moreover have "dictAddRaw hf can fresh d k = Some (?d, Some (?j, idx, 0), None)"
      using d1(1) d2(1) f None by (auto simp: dictAddRaw_def dictKeyIndex_def Let_def upd_ht_def)
    moreover have "iterators ?d = iterators d" using d1(5) d2(4) by (simp add: upd_ht_def)
    ultimately show ?thesis
      using w(1) m [OF dist nk'] nk m2 by (auto simp: dict_wf_alt)
  qed
qed

lemma dictAdd_spec:
  assumes "dict_wf hf d" "dictSize d < 2 ^ 62"
  shows "\<exists>d'. dictAdd hf can fresh d k v = Some (d', dict_map d k = None) \<and> dict_wf hf d' \<and>
    dict_map d' = (if dict_map d k = None then (dict_map d)(k \<mapsto> v) else dict_map d)"
proof -
  obtain d1 new ex where r: "dictAddRaw hf can fresh d k = Some (d1, new, ex)" "dict_wf hf d1"
    "case dict_map d k of
       None \<Rightarrow> (\<exists>r. new = Some r \<and> ex = None \<and> entry_at hf d1 k r) \<and> dict_map d1 = (dict_map d)(k \<mapsto> fresh)
     | Some v \<Rightarrow> new = None \<and> (\<exists>r. ex = Some r \<and> entry_at hf d1 k r) \<and> dict_map d1 = dict_map d"
    using dictAddRaw_spec [OF assms] by blast
  show ?thesis
  proof (cases "dict_map d k")
    case None
    with r obtain e where "new = Some e" "entry_at hf d1 k e" "dict_map d1 = (dict_map d)(k \<mapsto> fresh)"
      by auto
    with r None dictSetVal_spec [OF r(2), of k e v] show ?thesis by (auto simp: dictAdd_def)
  next
    case (Some a)
    with r show ?thesis by (auto simp: dictAdd_def)
  qed
qed

lemma dictReplace_spec:
  assumes "dict_wf hf d" "dictSize d < 2 ^ 62"
  shows "\<exists>d'. dictReplace hf can fresh d k v = Some (d', dict_map d k = None) \<and> dict_wf hf d' \<and>
    dict_map d' = (dict_map d)(k \<mapsto> v)"
proof -
  obtain d1 new ex where r: "dictAddRaw hf can fresh d k = Some (d1, new, ex)" "dict_wf hf d1"
    "case dict_map d k of
       None \<Rightarrow> (\<exists>r. new = Some r \<and> ex = None \<and> entry_at hf d1 k r) \<and> dict_map d1 = (dict_map d)(k \<mapsto> fresh)
     | Some v \<Rightarrow> new = None \<and> (\<exists>r. ex = Some r \<and> entry_at hf d1 k r) \<and> dict_map d1 = dict_map d"
    using dictAddRaw_spec [OF assms] by blast
  have "\<exists>e. entry_at hf d1 k e \<and> dictReplace hf can fresh d k v = Some (dictSetVal d1 e v, dict_map d k = None)"
  proof (cases "dict_map d k")
    case None
    with r obtain e where "new = Some e" "entry_at hf d1 k e" by auto
    with r None show ?thesis by (intro exI [of _ e]) (simp add: dictReplace_def)
  next
    case (Some a)
    with r obtain e where "new = None" "ex = Some e" "entry_at hf d1 k e" by auto
    with r Some show ?thesis by (intro exI [of _ e]) (simp add: dictReplace_def)
  qed
  then obtain e where "entry_at hf d1 k e"
    "dictReplace hf can fresh d k v = Some (dictSetVal d1 e v, dict_map d k = None)" by blast
  moreover have "(dict_map d1)(k \<mapsto> v) = (dict_map d)(k \<mapsto> v)"
    using r(3) by (cases "dict_map d k") auto
  ultimately show ?thesis using dictSetVal_spec [OF r(2), of k e v] by auto
qed

lemma used_nonzero_wf:
  assumes "dict_wf hf d" "dictSize d \<noteq> 0"
  shows "ht_wf hf (ht0 d)"
  using assms by (auto simp: dict_wf_alt dict_struct_def rehash_inv_def dictSize_def split: if_splits)

lemma dict_empty_map: "dict_wf hf d \<Longrightarrow> dictSize d = 0 \<Longrightarrow> dict_map d = Map.empty"
  using dict_size_entries by (fastforce simp: dict_map_def)

lemma dictFind_spec:
  assumes wf: "dict_wf hf d"
  shows "\<exists>d' r. dictFind hf d k = Some (d', r) \<and> dict_wf hf d' \<and> dict_map d' = dict_map d \<and>
    (case r of None \<Rightarrow> dict_map d k = None
     | Some e \<Rightarrow> entry_at hf d' k e \<and> dict_map d k = Some (snd (deref d' e)))"
proof (cases "dictSize d = 0")
  case True
  then show ?thesis using wf dict_empty_map [OF wf] by (simp add: dictFind_def dictSize_def)
next
  case False
  obtain d1 where d1: "step_if_rehashing hf d = Some d1" "dict_wf hf d1" "dict_map d1 = dict_map d"
    "mset (dict_entries d1) = mset (dict_entries d)"
    using step_if_rehashing_spec [OF wf] by blast
  have "dictSize d1 \<noteq> 0"
    using False dict_size_entries [OF wf] dict_size_entries [OF d1(2)] mset_eq_length [OF d1(4)] by simp
  then have "ht_wf hf (ht0 d1)" using used_nonzero_wf d1(2) by blast
  then obtain r idx where "find_tables hf d1 k = Some (r, idx)"
    "case r of
       None \<Rightarrow> dict_map d1 k = None \<and> idx = hash_idx hf (table_of d1 (if dictIsRehashing d1 then 1 else 0)) k
     | Some e \<Rightarrow> entry_at hf d1 k e \<and> dict_map d1 k = Some (snd (deref d1 e))"
    using find_tables_spec [OF d1(2), of k] by blast
  with False d1 show ?thesis
    by (cases r) (auto simp: dictFind_def dictSize_def simp del: step_if_rehashing_spec split: if_splits)
qed

lemma dictFetchValue_spec:
  assumes "dict_wf hf d"
  shows "\<exists>d'. dictFetchValue hf d k = Some (d', dict_map d k) \<and> dict_wf hf d' \<and> dict_map d' = dict_map d"
proof -
  obtain d' r where "dictFind hf d k = Some (d', r)" "dict_wf hf d'" "dict_map d' = dict_map d"
    "case r of None \<Rightarrow> dict_map d k = None
     | Some e \<Rightarrow> entry_at hf d' k e \<and> dict_map d k = Some (snd (deref d' e))"
    using dictFind_spec [OF assms] by blast
  then show ?thesis by (cases r) (auto simp: dictFetchValue_def)
qed

lemma mset_remove_nth: "p < length b \<Longrightarrow> mset (remove_nth p b) + {#b ! p#} = mset b"
proof -
  assume "p < length b"
  then have "b = take p b @ b ! p # drop (Suc p) b" by (rule id_take_nth_drop)
  then have "mset b = mset (take p b @ b ! p # drop (Suc p) b)" by simp
  then show ?thesis by (simp add: remove_nth_def)
qed

lemma dictUnlink_at:
  assumes wf: "dict_wf hf d" and r: "entry_at hf d k (j, i, p)"
  shows "dict_wf hf (upd_ht j (\<lambda>t. t\<lparr>tbl := (tbl t)[i := remove_nth p (tbl t ! i)], used := used t - 1\<rparr>) d)"
      (is "dict_wf hf ?d")
    and "dict_map (upd_ht j (\<lambda>t. t\<lparr>tbl := (tbl t)[i := remove_nth p (tbl t ! i)], used := used t - 1\<rparr>) d) =
         (dict_map d)(k := None)"
proof -
  let ?t = "table_of d j"
  let ?c = "tbl ?t ! i"
  have t: "ht_wf hf ?t" "j \<noteq> 0 \<longrightarrow> dictIsRehashing d" "i < length (tbl ?t)" "i = hash_idx hf ?t k"
    "p < length ?c" "fst (?c ! p) = k"
    using r by (auto simp: entry_at_def)
  let ?b = "remove_nth p ?c"
  have eq: "?d = upd_ht j (\<lambda>x. x\<lparr>tbl := (tbl x)[i := ?b], used := used ?t - 1\<rparr>) d"
    by (auto simp: upd_ht_def)
  have b: "\<forall>e \<in> set ?b. hash_idx hf ?t (fst e) = i"
  proof -
    have "set ?b \<subseteq> set ?c"
      using set_take_subset [of p ?c] set_drop_subset [of "Suc p" ?c] by (auto simp: remove_nth_def)
    then show ?thesis using t(1,3) unfolding ht_wf_def by blast
  qed
  have lb: "Suc (length ?b) = length ?c" using t(5) by (simp add: remove_nth_def)
  have "0 < used ?t"
  proof -
    have "?c ! p \<in> set (ht_entries ?t)" unfolding set_ht_entries using t(3,5) nth_mem by blast
    then show ?thesis using t(1) by (cases "ht_entries ?t") (auto simp: ht_wf_def)
  qed
  then have u: "used ?t - 1 + length ?c = used ?t + length ?b" using lb by simp
  have "dict_struct hf d" using wf by (simp add: dict_wf_alt)
  note w = dict_struct_upd [OF this t(1-3) b u]
  have ne: "j = 0 \<longrightarrow> dictIsRehashing d \<longrightarrow> tbl (ht0 d) ! i = [] \<longrightarrow> ?b = []"
    using t(5) by auto
  have w1: "dict_struct hf ?d" unfolding eq by (rule w(1) [OF ne])
  have w2: "mset (dict_entries ?d) + mset ?c = mset (dict_entries d) + mset ?b"
    unfolding eq by (rule w(2) [OF ne])
  have c: "mset ?b + {#(k, snd (?c ! p))#} = mset ?c + {#}"
    using mset_remove_nth [OF t(5)] t(6) by (metis add.right_neutral prod.collapse)
  have "mset (dict_entries ?d) + {#(k, snd (?c ! p))#} = mset (dict_entries d)"
    using mset_swap [OF w2 c] by simp
  from map_del_mset [OF _ this] wf w1
  show "dict_wf hf ?d" "dict_map ?d = (dict_map d)(k := None)"
    by (auto simp: dict_wf_alt dict_map_def)
qed

lemma dictGenericDelete_spec:
  assumes wf: "dict_wf hf d"
  shows "\<exists>d'. dictGenericDelete hf d k = Some (d', map_option (Pair k) (dict_map d k)) \<and>
    dict_wf hf d' \<and> dict_map d' = (dict_map d)(k := None)"
proof (cases "dictSize d = 0")
  case True
  then show ?thesis using wf dict_empty_map [OF wf]
    by (auto simp: dictGenericDelete_def dictSize_def)
next
  case False
  obtain d1 where d1: "step_if_rehashing hf d = Some d1" "dict_wf hf d1" "dict_map d1 = dict_map d"
    "mset (dict_entries d1) = mset (dict_entries d)"
    using step_if_rehashing_spec [OF wf] by blast
  have "dictSize d1 \<noteq> 0"
    using False dict_size_entries [OF wf] dict_size_entries [OF d1(2)] mset_eq_length [OF d1(4)] by simp
  then have "ht_wf hf (ht0 d1)" using used_nonzero_wf d1(2) by blast
  then obtain r idx where f: "find_tables hf d1 k = Some (r, idx)"
    and fr: "case r of
       None \<Rightarrow> dict_map d1 k = None \<and> idx = hash_idx hf (table_of d1 (if dictIsRehashing d1 then 1 else 0)) k
     | Some e \<Rightarrow> entry_at hf d1 k e \<and> dict_map d1 k = Some (snd (deref d1 e))"
    using find_tables_spec [OF d1(2), of k] by blast
  have run: "dictGenericDelete hf d k = do {
      (found, _) \<leftarrow> find_tables hf d1 k;
      case found of None \<Rightarrow> Some (d1, None)
      | Some (j, i, p) \<Rightarrow>
          Some (upd_ht j (\<lambda>t. t\<lparr>tbl := (tbl t)[i := remove_nth p (tbl t ! i)], used := used t - 1\<rparr>) d1,
                Some (deref d1 (j, i, p))) }"
  proof -
    have ne: "\<not> (used (ht0 d) = 0 \<and> used (ht1 d) = 0)" using False by (auto simp: dictSize_def)
    show ?thesis unfolding dictGenericDelete_def if_not_P [OF ne] d1(1) by simp
  qed
  show ?thesis
  proof (cases r)
    case None
    with fr d1 f run show ?thesis by (auto simp: fun_upd_idem)
  next
    case (Some e)
    obtain j i p where e: "e = (j, i, p)" by (cases e)
    have at: "entry_at hf d1 k (j, i, p)" using fr Some e by simp
    have "deref d1 (j, i, p) = (k, snd (deref d1 (j, i, p)))"
      using entry_at_deref [OF at] by (metis prod.collapse)
    with fr Some e f run d1 dictUnlink_at [OF d1(2) at] show ?thesis by auto
  qed
qed

lemma dictCreate_wf: "dict_wf hf dictCreate" "dict_map dictCreate = Map.empty"
  by (simp_all add: dict_wf_def dictCreate_def dict_entries_def dict_map_def)

interpretation dict_kv: kv_map "dict_wf hf" dict_map "2 ^ 62"
  "dictAdd hf can fresh" "dictReplace hf can fresh" "dictDelete hf" "dictFetchValue hf"
proof (unfold_locales, goal_cases)
  case (1 d)
  then show ?case using dict_size_card by blast
next
  case (2 d k v)
  then show ?case using dictAdd_spec [of hf d can fresh k v] dict_size_card [of hf d] by auto
next
  case (3 d k v)
  then show ?case using dictReplace_spec [of hf d can fresh k v] dict_size_card [of hf d] by auto
next
  case (4 d k)
  then show ?case using dictGenericDelete_spec [of hf d k] by (auto simp: dictDelete_def)
next
  case (5 d k)
  then show ?case by (rule dictFetchValue_spec)
qed

section \<open>Properties\<close>

lemma clear_loop_all: "clear_loop tb (length (concat tb)) = concat tb"
  by (induction tb) auto

lemma dictClear_wf:
  "ht_wf hf t \<Longrightarrow> dictClear t = (dictReset, ht_entries t)" "dictClear dictReset = (dictReset, [])"
  by (auto simp: dictClear_def ht_wf_def ht_entries_def clear_loop_all)

text \<open>C4.  Any sequence of \<open>dictAdd\<close>, \<open>dictReplace\<close>, \<open>dictDelete\<close> and \<open>dictFetchValue\<close> calls on a
  well-formed dictionary, with the rehashing steps, expansions and bucket moves they trigger, runs
  without an access outside a bucket array and answers what the same sequence of operations on a
  mathematical map answers; the final dictionary is well formed and represents the final map.\<close>
theorem dict_refines_map:
  assumes "dict_wf hf d" "dictSize d + length xs \<le> 2 ^ 62"
  shows "\<exists>d'. kv_map.exec_run (dictAdd hf can fresh) (dictReplace hf can fresh) (dictDelete hf)
      (dictFetchValue hf) xs d = Some (d', snd (spec_run xs (dict_map d))) \<and>
    dict_wf hf d' \<and> dict_map d' = fst (spec_run xs (dict_map d))"
  using dict_kv.exec_run_refines [of hf d xs can fresh] assms dict_size_card [OF assms(1)] by simp

theorem dict_refines_map_witness:
  "\<exists>d'. kv_map.exec_run (dictAdd of_nat True 0) (dictReplace of_nat True 0) (dictDelete of_nat)
      (dictFetchValue of_nat) [Op_add 1 10, Op_add (5 :: nat) (50 :: nat), Op_replace 1 11, Op_delete 5,
        Op_fetch 1, Op_fetch 5] dictCreate =
      Some (d', [Res_flag True, Res_flag True, Res_flag False, Res_flag True, Res_val (Some 11), Res_val None]) \<and>
    dict_wf of_nat d' \<and> dict_map d' = [1 \<mapsto> 11]"
  using dict_refines_map [of of_nat dictCreate "[Op_add 1 10, Op_add 5 50, Op_replace 1 11, Op_delete 5,
        Op_fetch 1, Op_fetch 5]" True 0]
  by (simp add: dictCreate_wf) (simp add: dictCreate_def dictSize_def)

text \<open>C20.  \<open>dictRehash\<close> moves buckets without an access out of range and without failing its assertion,
  for every number of steps: the represented map, the multiset of entries and the invariant are kept,
  it returns 1 exactly when the rehash is not finished, and every call with at least one step
  advances the rehash index or finishes.\<close>
theorem dictRehash_correct:
  assumes "dict_wf hf d"
  shows "\<exists>d' more. dictRehash hf d n = Some (d', more) \<and> dict_wf hf d' \<and> dict_map d' = dict_map d \<and>
    mset (dict_entries d') = mset (dict_entries d) \<and> (more \<longleftrightarrow> dictIsRehashing d') \<and>
    (dictIsRehashing d \<and> 0 < n \<longrightarrow> \<not> more \<or> rehashidx d < rehashidx d' \<and> hsize (ht0 d') = hsize (ht0 d))"
  using dictRehash_spec [OF assms, of n] by metis

definition dict_example :: "(nat, nat) dict" where
  "dict_example =
     \<lparr>ht0 = \<lparr>tbl = [[], [(5, 50), (1, 10)], [], [(3, 30)]], hsize = 4, sizemask = 3, used = 3\<rparr>,
      ht1 = \<lparr>tbl = [[(8, 80)], [], [], [], [], [], [], []], hsize = 8, sizemask = 7, used = 1\<rparr>,
      rehashidx = 1, iterators = 0\<rparr>"

lemma dict_example_wf: "dict_wf of_nat dict_example"
proof -
  have "\<exists>m. (4 :: nat) = 2 ^ m" "\<exists>m. (8 :: nat) = 2 ^ m"
    by (rule exI [of _ 2], simp, rule exI [of _ 3], simp)
  then have "ht_wf of_nat (ht0 dict_example)" "ht_wf of_nat (ht1 dict_example)"
    by (simp_all add: ht_wf_def dict_example_def hash_idx_def ht_entries_def All_less_Suc
        unat_of_nat)
  then show ?thesis
    by (auto simp: dict_wf_def) (auto simp: dict_example_def dict_entries_def ht_entries_def)
qed

theorem dictRehash_correct_witness:
  "\<exists>d' more. dictRehash of_nat dict_example 1 = Some (d', more) \<and> dict_map d' = dict_map dict_example \<and>
    (\<not> more \<or> 1 < rehashidx d')"
  using dictRehash_correct [OF dict_example_wf, of 1]
  by (auto simp: dictIsRehashing_def) (auto simp: dict_example_def)

text \<open>C27.  Rehashing finishes: when the clock allows as many rounds as the old table has buckets left,
  \<open>dictRehashMilliseconds\<close> ends with a single table that represents the same map.\<close>
theorem dictRehashMilliseconds_finishes:
  assumes "dict_wf hf d" "nat (int (hsize (ht0 d)) - rehashidx d) \<le> b"
  shows "\<exists>d' n. dictRehashMilliseconds hf b d = Some (d', n) \<and> dict_wf hf d' \<and>
    dict_map d' = dict_map d \<and> \<not> dictIsRehashing d'"
  using assms
proof (induction b arbitrary: d)
  case (0 d)
  obtain d' more where r: "dictRehash hf d 100 = Some (d', more)" "dict_wf hf d'" "dict_map d' = dict_map d"
    "more \<longleftrightarrow> dictIsRehashing d'"
    "dictIsRehashing d \<Longrightarrow> \<not> more \<or> rehashidx d < rehashidx d' \<and> hsize (ht0 d') = hsize (ht0 d)"
    using dictRehash_spec [OF "0.prems"(1), of 100] by auto
  have "\<not> more"
  proof (cases "dictIsRehashing d")
    case True
    then show ?thesis using r "0.prems"(2) by (auto simp: dict_wf_rehashing rehash_inv_def)
  next
    case False
    then show ?thesis using r by (auto simp: dictRehash_def)
  qed
  with r show ?case by (simp add: dictRehashMilliseconds.simps)
next
  case (Suc b d)
  obtain d' more where r: "dictRehash hf d 100 = Some (d', more)" "dict_wf hf d'" "dict_map d' = dict_map d"
    "more \<longleftrightarrow> dictIsRehashing d'"
    "dictIsRehashing d \<Longrightarrow> \<not> more \<or> rehashidx d < rehashidx d' \<and> hsize (ht0 d') = hsize (ht0 d)"
    using dictRehash_spec [OF Suc.prems(1), of 100] by auto
  show ?case
  proof (cases more)
    case True
    then have "dictIsRehashing d" using r(1) by (cases "dictIsRehashing d") (auto simp: dictRehash_def)
    with True r Suc.prems(2) have "nat (int (hsize (ht0 d')) - rehashidx d') \<le> b" by auto
    from Suc.IH [OF r(2) this] True r show ?thesis
      by (auto simp: dictRehashMilliseconds.simps [of hf "Suc b"])
  next
    case False
    with r show ?thesis by (simp add: dictRehashMilliseconds.simps [of hf "Suc b"])
  qed
qed

theorem dictRehashMilliseconds_finishes_witness:
  "\<exists>d' n. dictRehashMilliseconds of_nat 3 dict_example = Some (d', n) \<and>
    dict_map d' = dict_map dict_example \<and> \<not> dictIsRehashing d'"
  using dictRehashMilliseconds_finishes [OF dict_example_wf, of 3]
  by (auto simp: dict_example_def)

text \<open>C28.  \<open>dictEmpty\<close> frees every entry of both tables exactly once and leaves an empty, well-formed
  dictionary that is not rehashing.\<close>
theorem dictEmpty_frees_all:
  assumes "dict_wf hf d"
  shows "snd (dictEmpty d) = dict_entries d \<and> distinct (map fst (snd (dictEmpty d))) \<and>
    dict_wf hf (fst (dictEmpty d)) \<and> dict_map (fst (dictEmpty d)) = Map.empty \<and>
    \<not> dictIsRehashing (fst (dictEmpty d))"
proof -
  have "dictClear (ht0 d) = (dictReset, ht_entries (ht0 d))" "dictClear (ht1 d) = (dictReset, ht_entries (ht1 d))"
    using assms by (auto simp: dict_wf_def dictClear_wf(2) dictClear_wf(1) [of hf] split: if_splits)
  then have "dictEmpty d = (d\<lparr>ht0 := dictReset, ht1 := dictReset, rehashidx := -1, iterators := 0\<rparr>, dict_entries d)"
    by (simp add: dictEmpty_def dict_entries_def)
  then show ?thesis
    using assms by (simp add: dict_wf_def dict_entries_def dict_map_def dictIsRehashing_def)
qed

theorem dictEmpty_frees_all_witness:
  "snd (dictEmpty dict_example) = [(5, 50), (1, 10), (3, 30), (8, 80)] \<and>
   dict_map (fst (dictEmpty dict_example)) = Map.empty"
  using dictEmpty_frees_all [OF dict_example_wf]
  by (simp add: dict_example_def dict_entries_def ht_entries_def)

end
