(* ===== verification/Redis_Scan.thy ===== *)
theory Redis_Scan
  imports Redis_Dict
begin

unbundle bit_operations_syntax

text \<open>
  The stateless scan of \<open>dict.c\<close>: the bit reversal \<open>rev\<close>, the reverse-binary cursor and \<open>dictScan\<close>,
  with the buckets handed to the callback collected in call order (\<open>bucketfn\<close> is \<open>NULL\<close>).  The proofs
  read a cursor as the number \<open>rho v\<close> its reversed bits denote.  A call on a table of \<open>2 ^ k\<close> buckets
  visits the keys whose reversed hash lies in the aligned window of width \<open>2 ^ (64 - k)\<close> around the
  cursor and returns the start of the next window, so that calls on tables of different sizes leave
  no gap between their windows.
\<close>

section \<open>The reversed cursor\<close>

text \<open>The loop halves \<open>s\<close> first; it ends when \<open>s\<close> reaches zero.\<close>

function rev_loop :: "nat \<Rightarrow> u64 \<Rightarrow> u64 \<Rightarrow> u64" where
  "rev_loop s msk v =
     (let s = s div 2 in
      if s > 0 then
        let msk = msk XOR push_bit s msk;
            v = (drop_bit s v AND msk) OR (push_bit s v AND NOT msk)
        in rev_loop s msk v
      else v)"
  by pat_completeness auto
termination
  by (relation "measure (\<lambda>(s, msk, v). s)") auto

declare rev_loop.simps [simp del]

definition rev_bits :: "u64 \<Rightarrow> u64" where
  "rev_bits v = rev_loop 64 (NOT 0) v"

text \<open>Set the unmasked bits, then increment the reversed cursor.\<close>

definition scan_next :: "u64 \<Rightarrow> u64 \<Rightarrow> u64" where
  "scan_next m v = rev_bits (rev_bits (v OR NOT m) + 1)"

text \<open>One round of the reversal exchanges neighbouring blocks of \<open>s\<close> bits.\<close>

definition swap_pos :: "nat \<Rightarrow> nat \<Rightarrow> nat" where
  "swap_pos s i = (if even (i div s) then i + s else i - s)"

definition swap_step :: "nat \<Rightarrow> u64 \<Rightarrow> u64 \<Rightarrow> u64" where
  "swap_step s m v = (drop_bit s v AND m) OR (push_bit s v AND NOT m)"

lemma bit_swap_step:
  assumes "\<forall>i < 64. bit m i \<longleftrightarrow> even (i div s)" "i < 64" "0 < s"
  shows "bit (swap_step s m v) i \<longleftrightarrow> bit v (swap_pos s i)"
proof -
  have "bit m i \<longleftrightarrow> even (i div s)" using assms by blast
  moreover have "odd (i div s) \<Longrightarrow> s \<le> i" by (rule ccontr) simp
  ultimately show ?thesis using assms(2)
    by (auto simp: swap_step_def swap_pos_def bit_simps add.commute)
qed

lemma rev_bits_steps:
  "rev_bits v = swap_step 1 0x5555555555555555 (swap_step 2 0x3333333333333333
     (swap_step 4 0x0F0F0F0F0F0F0F0F (swap_step 8 0x00FF00FF00FF00FF
     (swap_step 16 0x0000FFFF0000FFFF (swap_step 32 0x00000000FFFFFFFF v)))))"
  by (simp add: rev_bits_def rev_loop.simps Let_def swap_step_def push_bit_eq_mult)

lemma all_64: "(\<forall>i < 64. P i) \<longleftrightarrow> (\<forall>i \<in> set [0..<64]. P (i :: nat))"
  by auto

lemma swap_masks:
  "\<forall>i < 64. bit (0x5555555555555555 :: u64) i \<longleftrightarrow> even (i div 1)"
  "\<forall>i < 64. bit (0x3333333333333333 :: u64) i \<longleftrightarrow> even (i div 2)"
  "\<forall>i < 64. bit (0x0F0F0F0F0F0F0F0F :: u64) i \<longleftrightarrow> even (i div 4)"
  "\<forall>i < 64. bit (0x00FF00FF00FF00FF :: u64) i \<longleftrightarrow> even (i div 8)"
  "\<forall>i < 64. bit (0x0000FFFF0000FFFF :: u64) i \<longleftrightarrow> even (i div 16)"
  "\<forall>i < 64. bit (0x00000000FFFFFFFF :: u64) i \<longleftrightarrow> even (i div 32)"
  unfolding all_64 by code_simp+

lemma swap_pos_64:
  "\<forall>i < 64. swap_pos 1 i < 64 \<and> swap_pos 2 (swap_pos 1 i) < 64 \<and>
    swap_pos 4 (swap_pos 2 (swap_pos 1 i)) < 64 \<and>
    swap_pos 8 (swap_pos 4 (swap_pos 2 (swap_pos 1 i))) < 64 \<and>
    swap_pos 16 (swap_pos 8 (swap_pos 4 (swap_pos 2 (swap_pos 1 i)))) < 64 \<and>
    swap_pos 32 (swap_pos 16 (swap_pos 8 (swap_pos 4 (swap_pos 2 (swap_pos 1 i))))) = 63 - i"
  unfolding all_64 by code_simp

lemmas bit_swaps = swap_masks [THEN bit_swap_step]

lemma bit_rev_bits: "i < 64 \<Longrightarrow> bit (rev_bits v) i \<longleftrightarrow> bit v (63 - i)"
  using swap_pos_64 unfolding rev_bits_steps
  by (simp add: bit_swaps del: One_nat_def)

lemma rev_rev_bits [simp]: "rev_bits (rev_bits v) = v"
  by (rule bit_word_eqI) (simp add: bit_rev_bits)

lemma rev_bits_0 [simp]: "rev_bits 0 = 0"
  by (rule bit_word_eqI) (simp add: bit_rev_bits)


abbreviation rho :: "u64 \<Rightarrow> nat" where "rho v \<equiv> unat (rev_bits v)"

lemma rev_bits_or: "rev_bits (v OR w) = rev_bits v OR rev_bits w"
  by (rule bit_word_eqI) (simp add: bit_rev_bits bit_simps)

lemma unat_le_or: "unat (x :: u64) \<le> unat (x OR y)"
proof -
  have "x \<le> x OR y" by (simp add: word_le_def uint_or or_greater_eq)
  then show ?thesis by (simp add: word_le_nat_alt)
qed

lemma scan_next_increases:
  assumes "scan_next m v \<noteq> 0"
  shows "rho v < rho (scan_next m v)"
proof -
  let ?x = "rev_bits (v OR NOT m)"
  have "unat (?x + 1) \<noteq> 0" using assms by (auto simp: scan_next_def unat_eq_0)
  then have "unat (?x + 1) = unat ?x + 1"
    using unsigned_less [of ?x, where 'a = nat] by (auto simp: unat_word_ariths mod_Suc split: if_splits)
  moreover have "rho v \<le> unat ?x" unfolding rev_bits_or by (rule unat_le_or)
  ultimately show ?thesis by (simp add: scan_next_def)
qed

lemma rev_or_not_mask:
  "k \<le> 64 \<Longrightarrow> rev_bits (v OR NOT (mask k)) = rev_bits v OR mask (64 - k)"
  by (rule bit_word_eqI) (auto simp: bit_rev_bits bit_simps)

lemma unat_or_mask: "j \<le> 64 \<Longrightarrow> unat (x OR mask j :: u64) + 1 = 2 ^ j * (unat x div 2 ^ j + 1)"
proof -
  assume j: "j \<le> 64"
  have "unat (x OR mask j) = unat x OR mask j"
    using j by (intro bit_eqI) (auto simp: bit_simps dest: bit_imp_le_length)
  also have "\<dots> = push_bit j (drop_bit j (unat x)) + mask j"
  proof -
    have "unat x OR mask j = push_bit j (drop_bit j (unat x)) OR mask j"
      by (rule bit_eqI) (auto simp: bit_simps)
    moreover have "push_bit j (drop_bit j (unat x)) AND mask j = 0"
      by (rule bit_eqI) (auto simp: bit_simps)
    ultimately show ?thesis by (simp add: disjunctive_add_eq_or)
  qed
  finally show ?thesis by (simp add: push_bit_eq_mult drop_bit_eq_div mask_eq_exp_minus_1 algebra_simps)
qed

definition next_mult :: "nat \<Rightarrow> nat \<Rightarrow> nat" where
  "next_mult j c = 2 ^ j * (c div 2 ^ j + 1)"

lemma rho_scan_next:
  "k \<le> 64 \<Longrightarrow> rho (scan_next (mask k) v) = next_mult (64 - k) (rho v) mod 2 ^ 64"
proof -
  assume k: "k \<le> 64"
  have "rho (scan_next (mask k) v) = (unat (rev_bits v OR mask (64 - k)) + 1) mod 2 ^ 64"
    using k by (simp add: scan_next_def rev_or_not_mask unat_word_ariths)
  then show ?thesis unfolding next_mult_def unat_or_mask [OF diff_le_self] .
qed

lemma rho_take: "take_bit 64 (rho v) = rho v"
  using unsigned_less [of "rev_bits v", where 'a = nat] by (intro take_bit_nat_eq_self) simp

lemma same_bucket:
  assumes "k \<le> 64"
  shows "v AND mask k = h AND mask k \<longleftrightarrow> rho v div 2 ^ (64 - k) = rho h div 2 ^ (64 - k)"
proof -
  have "v AND mask k = h AND mask k \<longleftrightarrow> (\<forall>i < k. bit v i = bit h i)"
    using assms by (auto simp: bit_eq_iff bit_simps) (metis order_less_le_trans)+
  moreover have "drop_bit (64 - k) (rev_bits v) = drop_bit (64 - k) (rev_bits h) \<longleftrightarrow>
      (\<forall>i < k. bit v i = bit h i)" (is "?L \<longleftrightarrow> ?R")
  proof
    assume l: ?L
    show ?R
    proof (intro allI impI)
      fix i assume "i < k"
      moreover have "bit (drop_bit (64 - k) (rev_bits v)) (k - 1 - i) =
        bit (drop_bit (64 - k) (rev_bits h)) (k - 1 - i)" unfolding l ..
      ultimately show "bit v i = bit h i" using assms by (simp add: bit_simps bit_rev_bits)
    qed
  next
    assume r: ?R
    show ?L
    proof (rule bit_word_eqI)
      fix i
      show "bit (drop_bit (64 - k) (rev_bits v)) i = bit (drop_bit (64 - k) (rev_bits h)) i"
        using r assms by (cases "64 - k + i < 64") (auto simp: bit_simps bit_rev_bits dest: bit_imp_le_length)
    qed
  qed
  moreover have "drop_bit (64 - k) (rev_bits v) = drop_bit (64 - k) (rev_bits h) \<longleftrightarrow>
      rho v div 2 ^ (64 - k) = rho h div 2 ^ (64 - k)"
    by (simp add: word_unat_eq_iff unsigned_drop_bit_eq rho_take flip: drop_bit_eq_div)
  ultimately show ?thesis by blast
qed

lemma scan_stop:
  assumes "k0 \<le> k1" "k1 \<le> 64" "2 ^ (64 - k1) dvd rho v"
  shows "v AND (mask k0 XOR mask k1) = 0 \<longleftrightarrow> 2 ^ (64 - k0) dvd rho v"
proof -
  have t: "2 ^ j dvd rho v \<longleftrightarrow> (\<forall>i < j. \<not> bit v (63 - i))" if "j \<le> 64" for j
  proof -
    have "2 ^ j dvd rho v \<longleftrightarrow> take_bit j (rho v) = 0" by (simp add: take_bit_eq_mod dvd_eq_mod_eq_0)
    also have "\<dots> \<longleftrightarrow> (\<forall>i < j. \<not> bit (rho v) i)" by (auto simp: bit_eq_iff bit_simps)
    also have "\<dots> \<longleftrightarrow> (\<forall>i < j. \<not> bit v (63 - i))" using that by (auto simp: bit_simps bit_rev_bits)
    finally show ?thesis .
  qed
  have "v AND (mask k0 XOR mask k1) = 0 \<longleftrightarrow> (\<forall>i. k0 \<le> i \<and> i < k1 \<longrightarrow> \<not> bit v i)"
    using assms by (auto simp: bit_eq_iff bit_simps) (metis order_less_le_trans order_less_imp_not_less not_less)+
  also have "\<dots> \<longleftrightarrow> (\<forall>i. 64 - k1 \<le> i \<and> i < 64 - k0 \<longrightarrow> \<not> bit v (63 - i))" (is "?L \<longleftrightarrow> ?R")
  proof
    assume l: ?L
    show ?R
    proof (intro allI impI)
      fix i assume "64 - k1 \<le> i \<and> i < 64 - k0"
      then have "k0 \<le> 63 - i \<and> 63 - i < k1" using assms by linarith
      with l show "\<not> bit v (63 - i)" by blast
    qed
  next
    assume r: ?R
    show ?L
    proof (intro allI impI)
      fix i assume "k0 \<le> i \<and> i < k1"
      then have "64 - k1 \<le> 63 - i \<and> 63 - i < 64 - k0" "63 - (63 - i) = i" using assms by linarith+
      with r show "\<not> bit v i" by metis
    qed
  qed
  also have "\<dots> \<longleftrightarrow> (\<forall>i < 64 - k0. \<not> bit v (63 - i))"
    using assms(3) t [of "64 - k1"] by (auto simp: not_less) (metis not_less)+
  finally show ?thesis using t [of "64 - k0"] by simp
qed


section \<open>Scanning\<close>

text \<open>The loop over the expansions of the cursor in the larger table.  Its termination is part of the
  definition: an incremented cursor is larger in reversed order unless it wrapped to zero.\<close>

function scan_loop :: "('k, 'v) dictht \<Rightarrow> u64 \<Rightarrow> u64 \<Rightarrow> u64 \<Rightarrow> (u64 \<times> ('k \<times> 'v) list) option" where
  "scan_loop t1 m0 m1 v = do {
     es \<leftarrow> bucket t1 (unat (v AND m1));
     let v' = scan_next m1 v in
     if v' AND (m0 XOR m1) \<noteq> 0
     then map_option (\<lambda>(w, es'). (w, es @ es')) (scan_loop t1 m0 m1 v')
     else Some (v', es) }"
  by pat_completeness auto
termination
proof (relation "measure (\<lambda>(t1, m0, m1, v). 2 ^ 64 - rho v)", simp, goal_cases)
  case (1 t1 m0 m1 v es v')
  then have "v' \<noteq> 0" by auto
  then have "rho v < rho v'" using scan_next_increases [of m1 v] 1(2) by simp
  then show ?case using unsigned_less [of "rev_bits v'", where 'a = nat] by simp
qed

declare scan_loop.simps [simp del]

definition dictScan :: "('k, 'v) dict \<Rightarrow> u64 \<Rightarrow> (u64 \<times> ('k \<times> 'v) list) option" where
  "dictScan d v =
     (if dictSize d = 0 then Some (0, [])
      else if \<not> dictIsRehashing d then
        let m0 = of_nat (sizemask (ht0 d)) in
        do { es \<leftarrow> bucket (ht0 d) (unat (v AND m0)); Some (scan_next m0 v, es) }
      else
        let (t0, t1) = (if hsize (ht0 d) > hsize (ht1 d) then (ht1 d, ht0 d) else (ht0 d, ht1 d));
            m0 = of_nat (sizemask t0);
            m1 = of_nat (sizemask t1)
        in do {
          es \<leftarrow> bucket t0 (unat (v AND m0));
          (w, es') \<leftarrow> scan_loop t1 m0 m1 v;
          Some (w, es @ es') })"


text \<open>A client that repeats the call until the cursor is zero; the dictionary may be any of the
  \<open>ds\<close> from one call to the next.\<close>

fun scan_all :: "('k, 'v) dict list \<Rightarrow> u64 \<Rightarrow> (u64 \<times> ('k \<times> 'v) list) option" where
  "scan_all [] v = Some (v, [])"
| "scan_all (d # ds) v = do {
     (w, es) \<leftarrow> dictScan d v;
     if w = 0 then Some (0, es)
     else map_option (\<lambda>(w', es'). (w', es @ es')) (scan_all ds w) }"

lemma next_mult_gt: "c < next_mult j c"
proof -
  have "c mod 2 ^ j < 2 ^ j" by simp
  then show ?thesis unfolding next_mult_def using mult_div_mod_eq [of "2 ^ j" c] by (simp only: distrib_left)
qed

lemma next_mult_window:
  assumes "c \<le> r" "r < next_mult j c"
  shows "r div 2 ^ j = c div 2 ^ j"
proof (rule div_nat_eqI)
  show "2 ^ j * (c div 2 ^ j) \<le> r" using assms(1) by (meson order_trans times_div_less_eq_dividend)
  show "r < 2 ^ j * Suc (c div 2 ^ j)" using assms(2) by (simp add: next_mult_def)
qed

lemma next_mult_le:
  assumes "2 ^ j dvd (M :: nat)" "c < M"
  shows "next_mult j c \<le> M"
proof -
  obtain q where q: "M = 2 ^ j * q" using assms(1) by blast
  have "c div 2 ^ j < q" using assms(2) unfolding q
    by (metis div_less_iff_less_mult mult.commute zero_less_numeral zero_less_power)
  then have "c div 2 ^ j + 1 \<le> q" by simp
  then show ?thesis unfolding next_mult_def q by (rule mult_le_mono2)
qed

lemma next_mult_dvd: "j \<le> i \<Longrightarrow> 2 ^ j dvd next_mult i c"
  by (simp add: next_mult_def le_imp_power_dvd dvd_mult2)

lemma rho_less: "rho v < 2 ^ 64"
  using unsigned_less [of "rev_bits v", where 'a = nat] by simp

lemma rho_0: "rho v = 0 \<longleftrightarrow> v = 0"
  by (metis rev_bits_0 rev_rev_bits unat_0 unat_eq_0)

lemma next_mult_bound: "j \<le> 64 \<Longrightarrow> next_mult j (rho v) \<le> 2 ^ 64"
  by (rule next_mult_le [OF le_imp_power_dvd rho_less])

lemma scan_bucket:
  assumes wf: "ht_wf hf t" and k: "hsize t = 2 ^ k" "k \<le> 64"
  shows "\<exists>es. bucket t (unat (v AND mask k)) = Some es \<and> set es \<subseteq> set (ht_entries t) \<and>
    (\<forall>e \<in> set (ht_entries t). rho v \<le> rho (hf (fst e)) \<and> rho (hf (fst e)) < next_mult (64 - k) (rho v) \<longrightarrow>
       e \<in> set es)"
proof -
  let ?i = "unat (v AND mask k)"
  have m: "sizemask t = mask k" "length (tbl t) = 2 ^ k"
    using wf k by (simp_all add: ht_wf_def mask_eq_exp_minus_1)
  have h: "hash_idx hf t x = unat (hf x AND mask k)" for x
    using k(2) by (intro bit_eqI) (auto simp: hash_idx_def m bit_simps)
  have "?i = unat v AND mask k" using k(2) by (intro bit_eqI) (auto simp: bit_simps)
  then have i: "?i < length (tbl t)" by (simp add: m and_less_eq flip: take_bit_eq_mask)
  have "e \<in> set (tbl t ! ?i)" if e: "e \<in> set (ht_entries t)"
    "rho v \<le> rho (hf (fst e))" "rho (hf (fst e)) < next_mult (64 - k) (rho v)" for e
  proof -
    have "hash_idx hf t (fst e) = ?i"
      using next_mult_window [OF e(2,3)] same_bucket [OF k(2)] h by metis
    then show ?thesis using e(1) wf unfolding set_ht_entries ht_wf_def by fastforce
  qed
  moreover have "set (tbl t ! ?i) \<subseteq> set (ht_entries t)" using i by (auto simp: set_ht_entries)
  ultimately show ?thesis using i by (auto simp: bucket_def)
qed


lemma scan_loop_spec:
  assumes wf: "ht_wf hf t" and k: "hsize t = 2 ^ k1" "k0 \<le> k1" "k1 \<le> 64"
  shows "\<exists>w es. scan_loop t (mask k0) (mask k1) v = Some (w, es) \<and>
    rho w = next_mult (64 - k0) (rho v) mod 2 ^ 64 \<and> set es \<subseteq> set (ht_entries t) \<and>
    (\<forall>e \<in> set (ht_entries t). rho v \<le> rho (hf (fst e)) \<and> rho (hf (fst e)) < next_mult (64 - k0) (rho v) \<longrightarrow>
       e \<in> set es)"
proof (induction v rule: measure_induct_rule [of "\<lambda>v. 2 ^ 64 - rho v"])
  case (less v)
  let ?N = "next_mult (64 - k0) (rho v)" and ?n = "next_mult (64 - k1) (rho v)"
  let ?v = "scan_next (mask k1) v"
  obtain es where es: "bucket t (unat (v AND mask k1)) = Some es" "set es \<subseteq> set (ht_entries t)"
    "\<forall>e \<in> set (ht_entries t). rho v \<le> rho (hf (fst e)) \<and> rho (hf (fst e)) < ?n \<longrightarrow> e \<in> set es"
    using scan_bucket [OF wf k(1,3)] by blast
  have j: "64 - k1 \<le> 64 - k0" "64 - k1 \<le> 64" "64 - k0 \<le> 64" using k(2) by auto
  have rv: "rho ?v = ?n mod 2 ^ 64" by (rule rho_scan_next [OF k(3)])
  have nN: "?n \<le> ?N" using next_mult_le [OF next_mult_dvd [OF j(1)] next_mult_gt] .
  have N64: "?N \<le> 2 ^ 64" by (rule next_mult_bound [OF j(3)])
  have d: "2 ^ (64 - k1) dvd rho ?v"
    unfolding rv by (rule dvd_mod [OF next_mult_dvd [OF order_refl] le_imp_power_dvd [OF j(2)]])
  note stop = scan_stop [OF k(2,3) d]
  show ?case
  proof (cases "?v AND (mask k0 XOR mask k1) = 0")
    case True
    have "?n = ?N"
    proof (cases "?n < 2 ^ 64")
      case True
      then have "2 ^ (64 - k0) dvd ?n" using stop \<open>?v AND (mask k0 XOR mask k1) = 0\<close> rv by simp
      then have "?N \<le> ?n" using next_mult_le [OF _ next_mult_gt] by blast
      then show ?thesis using nN by simp
    next
      case False
      then show ?thesis using nN N64 by simp
    qed
    with True es rv show ?thesis by (auto simp: scan_loop.simps [of t _ _ v])
  next
    case False
    then have nz: "?v \<noteq> 0" by auto
    have lt: "rho v < rho ?v" by (rule scan_next_increases [OF nz])
    have "\<not> 2 ^ (64 - k0) dvd rho ?v" using False stop by simp
    have "?n \<noteq> 2 ^ 64" using nz rv rho_0 [of ?v] by (metis mod_self)
    then have n64: "?n < 2 ^ 64" using nN N64 by simp
    then have rn: "rho ?v = ?n" using rv by simp
    have "?n \<noteq> ?N" using \<open>\<not> 2 ^ (64 - k0) dvd rho ?v\<close> rn next_mult_dvd [OF order_refl] by metis
    then have "rho ?v div 2 ^ (64 - k0) = rho v div 2 ^ (64 - k0)"
      using nN rn lt by (intro next_mult_window) auto
    then have N: "next_mult (64 - k0) (rho ?v) = ?N" by (simp add: next_mult_def)
    have "2 ^ 64 - rho ?v < 2 ^ 64 - rho v" using lt rho_less [of ?v] by linarith
    from less [OF this, unfolded N, unfolded rn] obtain w es' where "scan_loop t (mask k0) (mask k1) ?v = Some (w, es')"
      "rho w = ?N mod 2 ^ 64" "set es' \<subseteq> set (ht_entries t)"
      "\<forall>e \<in> set (ht_entries t). ?n \<le> rho (hf (fst e)) \<and> rho (hf (fst e)) < ?N \<longrightarrow> e \<in> set es'"
      by blast
    moreover have "x < ?n \<or> ?n \<le> x" for x by auto
    ultimately show ?thesis using False es by (simp add: scan_loop.simps [of t _ _ v]) blast
  qed
qed

lemma dictScan_spec:
  assumes wf: "dict_wf hf d" and sz: "dictSlots d \<le> 2 ^ 64" and ne: "dictSize d \<noteq> 0"
  shows "\<exists>w es k. dictScan d v = Some (w, es) \<and> set es \<subseteq> set (dict_entries d) \<and>
    rho w = next_mult (64 - k) (rho v) mod 2 ^ 64 \<and> k \<le> 64 \<and> 2 ^ k \<le> hsize (ht0 d) \<and>
    (\<forall>e \<in> set (dict_entries d). rho v \<le> rho (hf (fst e)) \<and> rho (hf (fst e)) < next_mult (64 - k) (rho v) \<longrightarrow>
       e \<in> set es)"
proof (cases "dictIsRehashing d")
  case False
  have t: "ht_wf hf (ht0 d)" using used_nonzero_wf [OF wf ne] .
  then obtain k where k: "hsize (ht0 d) = 2 ^ k" by (auto simp: ht_wf_def)
  have "(2 :: nat) ^ k \<le> 2 ^ 64" using sz k by (simp add: dictSlots_def)
  then have k64: "k \<le> 64" using power_le_imp_le_exp [of 2 k 64] by simp
  have m: "of_nat (sizemask (ht0 d)) = (mask k :: u64)" using t k by (simp add: ht_wf_def mask_eq_exp_minus_1)
  have e: "dict_entries d = ht_entries (ht0 d)"
    using wf False by (simp add: dict_wf_def dictIsRehashing_def dict_entries_def)
  obtain es where "bucket (ht0 d) (unat (v AND mask k)) = Some es" "set es \<subseteq> set (ht_entries (ht0 d))"
    "\<forall>e \<in> set (ht_entries (ht0 d)). rho v \<le> rho (hf (fst e)) \<and>
       rho (hf (fst e)) < next_mult (64 - k) (rho v) \<longrightarrow> e \<in> set es"
    using scan_bucket [OF t k k64, of v] by blast
  then show ?thesis
    using False ne k k64 rho_scan_next [OF k64] e m by (auto simp: dictScan_def Let_def)
next
  case True
  have w: "ht_wf hf (ht0 d)" "ht_wf hf (ht1 d)"
    using wf True by (auto simp: dict_wf_rehashing rehash_inv_def)
  obtain t0 t1 where t: "(t0, t1) = (if hsize (ht0 d) > hsize (ht1 d) then (ht1 d, ht0 d) else (ht0 d, ht1 d))"
    by (metis surj_pair)
  then have tw: "ht_wf hf t0" "ht_wf hf t1" "hsize t0 \<le> hsize t1" "hsize t0 \<le> hsize (ht0 d)" "hsize t1 \<le> 2 ^ 64"
    "set (dict_entries d) = set (ht_entries t0) \<union> set (ht_entries t1)"
    using w sz by (cases "hsize (ht0 d) > hsize (ht1 d)"; simp add: dict_entries_def dictSlots_def Un_commute)+
  obtain k0 k1 where k: "hsize t0 = 2 ^ k0" "hsize t1 = 2 ^ k1" using tw(1,2) by (auto simp: ht_wf_def)
  have kk: "k0 \<le> k1" "k1 \<le> 64"
    using tw(3,5) power_le_imp_le_exp [of "2 :: nat" k0 k1] power_le_imp_le_exp [of "2 :: nat" k1 64]
    unfolding k by simp_all
  have m: "of_nat (sizemask t0) = (mask k0 :: u64)" "of_nat (sizemask t1) = (mask k1 :: u64)"
    using tw k by (simp_all add: ht_wf_def mask_eq_exp_minus_1)
  obtain es where es: "bucket t0 (unat (v AND mask k0)) = Some es" "set es \<subseteq> set (ht_entries t0)"
    "\<forall>e \<in> set (ht_entries t0). rho v \<le> rho (hf (fst e)) \<and>
       rho (hf (fst e)) < next_mult (64 - k0) (rho v) \<longrightarrow> e \<in> set es"
    using scan_bucket [OF tw(1) k(1), of v] kk by auto
  obtain x es' where es': "scan_loop t1 (mask k0) (mask k1) v = Some (x, es')"
    "rho x = next_mult (64 - k0) (rho v) mod 2 ^ 64" "set es' \<subseteq> set (ht_entries t1)"
    "\<forall>e \<in> set (ht_entries t1). rho v \<le> rho (hf (fst e)) \<and>
       rho (hf (fst e)) < next_mult (64 - k0) (rho v) \<longrightarrow> e \<in> set es'"
    using scan_loop_spec [OF tw(2) k(2) kk, of v] by blast
  have "dictScan d v = Some (x, es @ es')"
    unfolding dictScan_def t [symmetric] using True ne es(1) es'(1) m by (simp add: Let_def)
  then show ?thesis using es es' tw k kk by (intro exI [of _ x] exI [of _ "es @ es'"] exI [of _ k0]) auto
qed


lemma dictScan_empty: "dictSize d = 0 \<Longrightarrow> dictScan d v = Some (0, [])"
  by (simp add: dictScan_def)

lemma dictScan_advances:
  assumes "dict_wf hf d" "dictSlots d \<le> 2 ^ 64" "hsize (ht0 d) \<le> 2 ^ n" "n \<le> 64"
  shows "\<exists>w es. dictScan d v = Some (w, es) \<and> set es \<subseteq> set (dict_entries d) \<and>
    (w = 0 \<or> rho v div 2 ^ (64 - n) < rho w div 2 ^ (64 - n))"
proof (cases "dictSize d = 0")
  case False
  obtain w es k where w: "dictScan d v = Some (w, es)" "set es \<subseteq> set (dict_entries d)"
    "rho w = next_mult (64 - k) (rho v) mod 2 ^ 64" "k \<le> 64" "2 ^ k \<le> hsize (ht0 d)"
    using dictScan_spec [OF assms(1,2) False, of v] by blast
  have "k \<le> n" by (rule power_le_imp_le_exp [of "2 :: nat", OF _ order_trans [OF w(5) assms(3)]]) simp
  show ?thesis
  proof (cases "w = 0")
    case nz: False
    then have "next_mult (64 - k) (rho v) \<noteq> 2 ^ 64" using w(3) rho_0 [of w] by (metis mod_self)
    then have rw: "rho w = next_mult (64 - k) (rho v)"
      using w(3,4) next_mult_bound [of "64 - k" v] by simp
    have "next_mult (64 - n) (rho v) \<le> rho w"
      unfolding rw using \<open>k \<le> n\<close> by (intro next_mult_le next_mult_dvd next_mult_gt) simp
    then have "rho v div 2 ^ (64 - n) + 1 \<le> rho w div 2 ^ (64 - n)"
      unfolding next_mult_def by (simp add: less_eq_div_iff_mult_less_eq mult.commute)
    with w show ?thesis by auto
  qed (use w in auto)
qed (simp add: dictScan_empty)

lemma scan_all_covers:
  assumes "\<forall>d \<in> set ds. dict_wf hf d \<and> dictSlots d \<le> 2 ^ 64 \<and> k \<in> dom (dict_map d)"
    "scan_all ds v = Some (0, es)" "ds \<noteq> [] \<or> v \<noteq> 0" "rho v \<le> rho (hf k)"
  shows "k \<in> fst ` set es"
  using assms
proof (induction ds arbitrary: v es)
  case (Cons d ds)
  have wf: "dict_wf hf d" and sl: "dictSlots d \<le> 2 ^ 64" and kd: "k \<in> fst ` set (dict_entries d)"
    using Cons.prems(1) dict_map_None [of d k] by auto
  have "dictSize d \<noteq> 0" using kd dict_size_entries [OF wf] by auto
  then obtain w es1 j where w: "dictScan d v = Some (w, es1)"
    "rho w = next_mult (64 - j) (rho v) mod 2 ^ 64"
    "\<forall>e \<in> set (dict_entries d). rho v \<le> rho (hf (fst e)) \<and> rho (hf (fst e)) < next_mult (64 - j) (rho v) \<longrightarrow>
       e \<in> set es1"
    using dictScan_spec [OF wf sl, of v] by blast
  show ?case
  proof (cases "rho (hf k) < next_mult (64 - j) (rho v)")
    case True
    then have "k \<in> fst ` set es1" using w(3) kd Cons.prems(4) by force
    then show ?thesis using Cons.prems(2) w(1) by (auto split: if_splits)
  next
    case False
    have "next_mult (64 - j) (rho v) < 2 ^ 64" using False rho_less [of "hf k"] by linarith
    then have rw: "rho w = next_mult (64 - j) (rho v)" using w(2) by simp
    then have "w \<noteq> 0" using next_mult_gt [of "rho v" "64 - j"] by (metis not_less_zero rho_0)
    then obtain es2 where "scan_all ds w = Some (0, es2)" "es = es1 @ es2"
      using Cons.prems(2) w(1) by auto
    then show ?thesis using Cons.IH [of w es2] Cons.prems(1) \<open>w \<noteq> 0\<close> rw False by auto
  qed
qed simp

lemma scan_all_ends:
  assumes "\<forall>d \<in> set ds. dict_wf hf d \<and> dictSlots d \<le> 2 ^ 64 \<and> hsize (ht0 d) \<le> 2 ^ n" "n \<le> 64"
    "2 ^ n \<le> length ds + rho v div 2 ^ (64 - n)"
  shows "\<exists>es. scan_all ds v = Some (0, es) \<and> set es \<subseteq> (\<Union>d \<in> set ds. set (dict_entries d))"
  using assms
proof (induction ds arbitrary: v)
  case Nil
  have "rho v div 2 ^ (64 - n) < 2 ^ n"
    using rho_less [of v] \<open>n \<le> 64\<close> by (simp add: div_less_iff_less_mult flip: power_add)
  with Nil.prems(3) show ?case by simp
next
  case (Cons d ds)
  obtain w es where w: "dictScan d v = Some (w, es)" "set es \<subseteq> set (dict_entries d)"
    "w = 0 \<or> rho v div 2 ^ (64 - n) < rho w div 2 ^ (64 - n)"
    using dictScan_advances [of hf d n v] Cons.prems by auto
  show ?case
  proof (cases "w = 0")
    case False
    then have "2 ^ n \<le> length ds + rho w div 2 ^ (64 - n)" using w(3) Cons.prems(3) by simp
    then obtain es' where "scan_all ds w = Some (0, es')" "set es' \<subseteq> (\<Union>d \<in> set ds. set (dict_entries d))"
      using Cons.IH [of w] Cons.prems by auto
    with w False show ?thesis by auto
  qed (use w in auto)
qed

section \<open>Properties\<close>

text \<open>\<open>rev\<close> reverses the 64 bits of its argument, and is its own inverse.\<close>
lemma rev_bits_correct:
  "(\<forall>i. bit (rev_bits v) i = (i < 64 \<and> bit v (63 - i))) \<and> rev_bits (rev_bits v) = v"
proof (intro conjI allI)
  fix i
  show "bit (rev_bits v) i = (i < 64 \<and> bit v (63 - i))"
    using bit_rev_bits [of i v] bit_imp_le_length [of "rev_bits v" i] by (cases "i < 64") auto
qed simp

text \<open>C9.  The guarantee of \<open>dictScan\<close>: a client that starts at cursor 0 and repeats the call, while
  other operations change and resize the dictionary arbitrarily between the calls (\<open>ds\<close> are the
  states the calls see, rehashing or not, growing or shrinking), gets the cursor 0 back after at most
  \<open>2 ^ n\<close> calls when the main table never has more than \<open>2 ^ n\<close> buckets; it is handed every key
  that is present in all the states, and nothing that was not an entry of one of them.\<close>
theorem dictScan_complete:
  assumes "\<forall>d \<in> set ds. dict_wf hf d \<and> dictSlots d \<le> 2 ^ 64 \<and> hsize (ht0 d) \<le> 2 ^ n" "n \<le> 64"
    "2 ^ n \<le> length ds"
  shows "\<exists>es. scan_all ds 0 = Some (0, es) \<and> set es \<subseteq> (\<Union>d \<in> set ds. set (dict_entries d)) \<and>
    (\<Inter>d \<in> set ds. dom (dict_map d)) \<subseteq> fst ` set es"
proof -
  have ne: "ds \<noteq> []" using assms(3) by auto
  obtain es where es: "scan_all ds 0 = Some (0, es)" "set es \<subseteq> (\<Union>d \<in> set ds. set (dict_entries d))"
    using scan_all_ends [OF assms(1,2), of 0] assms(3) by auto
  have "k \<in> fst ` set es" if "\<forall>d \<in> set ds. k \<in> dom (dict_map d)" for k
    by (rule scan_all_covers [where hf = hf, OF _ es(1)]) (use assms(1) ne that in simp_all)
  then have "(\<Inter>d \<in> set ds. dom (dict_map d)) \<subseteq> fst ` set es" by (intro subsetI) simp
  with es show ?thesis by (intro exI conjI)
qed

theorem dictScan_complete_witness:
  "\<exists>es. scan_all [dict_example, dict_example, dict_example, dict_example] 0 = Some (0, es) \<and>
    {1, 3, 5, 8} \<subseteq> fst ` set es"
proof -
  have "dom (dict_map dict_example) = {1, 3, 5, 8}"
    by (auto simp: dict_map_def dict_entries_def ht_entries_def dict_example_def)
  then show ?thesis
    using dictScan_complete [of "[dict_example, dict_example, dict_example, dict_example]" of_nat 2]
      dict_example_wf
    by (auto simp: dictSlots_def) (auto simp: dict_example_def)
qed

end
