(* ===== verification/Redis_Iter.thy ===== *)
theory Redis_Iter
  imports Redis_Dict
begin

text \<open>
  The iterators of \<open>dict.c\<close>.  A pointer to an entry is the key of the entry, which is unique in a
  dictionary and stays with the entry when a rehash moves it; following the pointer to an entry that
  has been freed is \<^const>\<open>None\<close>.  The addresses of the two tables, which only the fingerprint of an
  unsafe iterator reads, are a parameter.
\<close>

section \<open>Definitions\<close>

unbundle bit_operations_syntax

record 'k dictIterator =
  index :: int
  table :: nat
  safe :: bool
  entry :: "'k option"
  nextEntry :: "'k option"
  fingerprint :: u64

definition fp_mix :: "u64 \<Rightarrow> u64 \<Rightarrow> u64" where
  "fp_mix i h =
     (let h = h + i;
          h = NOT h + push_bit 21 h;
          h = h XOR signed_drop_bit 24 h;
          h = (h + push_bit 3 h) + push_bit 8 h;
          h = h XOR signed_drop_bit 14 h;
          h = (h + push_bit 2 h) + push_bit 4 h;
          h = h XOR signed_drop_bit 28 h
      in h + push_bit 31 h)"

definition dictFingerprint :: "(nat \<Rightarrow> u64) \<Rightarrow> ('k, 'v) dict \<Rightarrow> u64" where
  "dictFingerprint addr d =
     fold fp_mix [addr 0, of_nat (hsize (ht0 d)), of_nat (used (ht0 d)),
                  addr 1, of_nat (hsize (ht1 d)), of_nat (used (ht1 d))] 0"

text \<open>The fingerprint is set by the first call of \<open>dictNext\<close>; until then it is whatever memory held.\<close>

definition dictGetIterator :: "u64 \<Rightarrow> 'k dictIterator" where
  "dictGetIterator junk = \<lparr>index = -1, table = 0, safe = False, entry = None, nextEntry = None, fingerprint = junk\<rparr>"

definition dictGetSafeIterator :: "u64 \<Rightarrow> 'k dictIterator" where
  "dictGetSafeIterator junk = (dictGetIterator junk)\<lparr>safe := True\<rparr>"

text \<open>\<open>entry->next\<close>.\<close>

fun chain_next :: "'k \<Rightarrow> ('k \<times> 'v) list \<Rightarrow> 'k option" where
  "chain_next k [] = None"
| "chain_next k (e # es) = (if fst e = k then (case es of [] \<Rightarrow> None | e' # _ \<Rightarrow> Some (fst e')) else chain_next k es)"

definition entry_next :: "('k, 'v) dict \<Rightarrow> 'k \<Rightarrow> 'k option option" where
  "entry_next d k = map_option (chain_next k) (List.find (\<lambda>b. k \<in> fst ` set b) (tbl (ht0 d) @ tbl (ht1 d)))"

definition chain_head :: "('k \<times> 'v) list \<Rightarrow> 'k option" where
  "chain_head b = (case b of [] \<Rightarrow> None | e # _ \<Rightarrow> Some (fst e))"

text \<open>The head of the loop: the next slot, or \<^const>\<open>None\<close> at the end of the tables.\<close>

definition first_call :: "(nat \<Rightarrow> u64) \<Rightarrow> ('k, 'v) dict \<Rightarrow> 'k dictIterator \<Rightarrow> ('k, 'v) dict \<times> 'k dictIterator" where
  "first_call addr d it =
     (if index it = -1 \<and> table it = 0 then
        if safe it then (d\<lparr>iterators := iterators d + 1\<rparr>, it) else (d, it\<lparr>fingerprint := dictFingerprint addr d\<rparr>)
      else (d, it))"

definition next_slot :: "('k, 'v) dict \<Rightarrow> 'k dictIterator \<Rightarrow> 'k dictIterator \<times> bool" where
  "next_slot d it =
     (let it = it\<lparr>index := index it + 1\<rparr> in
      if index it \<ge> int (hsize (table_of d (table it))) then
        if dictIsRehashing d \<and> table it = 0 then (it\<lparr>table := 1, index := 0\<rparr>, True) else (it, False)
      else (it, True))"

definition slots_left :: "('k, 'v) dict \<Rightarrow> 'k dictIterator \<Rightarrow> nat" where
  "slots_left d it =
     (if table it = 0 then nat (int (hsize (ht0 d)) - index it) + hsize (ht1 d) + 1
      else nat (int (hsize (ht1 d)) - index it))"

lemma next_slot_less: "next_slot d it = (it', True) \<Longrightarrow> slots_left d it' < slots_left d it"
  by (auto simp: next_slot_def slots_left_def Let_def split: if_splits)

lemma slots_left_cong [simp]:
  "slots_left (fst (first_call addr d it)) x = slots_left d x" "slots_left d (snd (first_call addr d it)) = slots_left d it"
  "slots_left d (it\<lparr>entry := e\<rparr>) = slots_left d it"
  by (auto simp: slots_left_def first_call_def)

function dictNext :: "(nat \<Rightarrow> u64) \<Rightarrow> ('k, 'v) dict \<Rightarrow> 'k dictIterator \<Rightarrow>
  (('k, 'v) dict \<times> 'k dictIterator \<times> 'k option) option" where
  "dictNext addr d it =
     (case entry it of
        None \<Rightarrow>
          (let d' = fst (first_call addr d it); it1 = snd (first_call addr d it);
               it' = fst (next_slot d' it1)
           in if \<not> snd (next_slot d' it1) then Some (d', it', None)
              else do {
                b \<leftarrow> (if index it' < 0 then None else bucket (table_of d' (table it')) (nat (index it')));
                case chain_head b of
                  None \<Rightarrow> dictNext addr d' (it'\<lparr>entry := None\<rparr>)
                | Some k \<Rightarrow> do { n \<leftarrow> entry_next d' k; Some (d', it'\<lparr>entry := Some k, nextEntry := n\<rparr>, Some k) } })
      | Some _ \<Rightarrow>
          (case nextEntry it of
             None \<Rightarrow> dictNext addr d (it\<lparr>entry := None\<rparr>)
           | Some k \<Rightarrow> do { n \<leftarrow> entry_next d k; Some (d, it\<lparr>entry := Some k, nextEntry := n\<rparr>, Some k) }))"
  by pat_completeness auto
termination
proof (relation "measure (\<lambda>(addr, d, it). 2 * slots_left d it + (if entry it = None then 0 else 1))", goal_cases)
  case (2 addr d it d' it1 it' b)
  then have "next_slot d' it1 = (it', True)" by (simp add: prod_eq_iff)
  from next_slot_less [OF this] have "slots_left d it' < slots_left d it"
    using 2(2,3) by simp
  then show ?case using 2 by simp
qed auto

declare dictNext.simps [simp del]

definition dictReleaseIterator :: "(nat \<Rightarrow> u64) \<Rightarrow> ('k, 'v) dict \<Rightarrow> 'k dictIterator \<Rightarrow> ('k, 'v) dict option" where
  "dictReleaseIterator addr d it =
     (if \<not> (index it = -1 \<and> table it = 0) then
        if safe it then Some (d\<lparr>iterators := iterators d - 1\<rparr>)
        else if fingerprint it = dictFingerprint addr d then Some d else None
      else Some d)"

section \<open>Chains\<close>

lemma chain_split:
  assumes "distinct (map fst b)" "k \<in> fst ` set b"
  obtains pre v rest where "b = pre @ (k, v) # rest" "chain_next k b = chain_head rest"
    "k \<notin> fst ` set pre" "k \<notin> fst ` set rest"
    "\<And>n. chain_head rest = Some n \<Longrightarrow> dropWhile (\<lambda>e. fst e \<noteq> n) b = rest"
proof -
  from assms(2) obtain v where "(k, v) \<in> set b" by auto
  then obtain pre rest where b: "b = pre @ (k, v) # rest" by (auto dest: split_list)
  have pre: "k \<notin> fst ` set pre" "k \<notin> fst ` set rest" using assms(1) b by auto
  have "chain_next k (xs @ (k, v) # rest) = chain_head rest" if "k \<notin> fst ` set xs" for xs
    using that by (induction xs) (auto simp: chain_head_def)
  then have nx: "chain_next k b = chain_head rest" using b pre by simp
  have "dropWhile (\<lambda>e. fst e \<noteq> n) b = rest" if n: "chain_head rest = Some n" for n
  proof -
    from n obtain e r where r: "rest = e # r" "fst e = n" by (auto simp: chain_head_def split: list.splits)
    then have "n \<notin> fst ` set (pre @ [(k, v)])" using assms(1) b by auto
    then have "dropWhile (\<lambda>e. fst e \<noteq> n) ((pre @ [(k, v)]) @ rest) = dropWhile (\<lambda>e. fst e \<noteq> n) rest"
      by (intro dropWhile_append2) auto
    then show ?thesis using b r by simp
  qed
  with that b pre nx show ?thesis by blast
qed

lemma concat_bucket_unique:
  "distinct (map fst (concat bs)) \<Longrightarrow> b \<in> set bs \<Longrightarrow> b' \<in> set bs \<Longrightarrow> k \<in> fst ` set b \<Longrightarrow> k \<in> fst ` set b' \<Longrightarrow> b = b'"
  by (induction bs) (auto 0 4)

lemma entries_concat: "dict_entries d = concat (tbl (ht0 d) @ tbl (ht1 d))"
  by (simp add: dict_entries_def ht_entries_def)

lemma wf_distinct: "dict_wf hf d \<Longrightarrow> distinct (map fst (concat (tbl (ht0 d) @ tbl (ht1 d))))"
  by (simp add: dict_wf_def entries_concat)

lemma entry_next_in_bucket:
  assumes "dict_wf hf d" "b \<in> set (tbl (ht0 d) @ tbl (ht1 d))" "k \<in> fst ` set b"
  shows "entry_next d k = Some (chain_next k b)"
proof -
  obtain b' where f: "List.find (\<lambda>b. k \<in> fst ` set b) (tbl (ht0 d) @ tbl (ht1 d)) = Some b'"
    using assms(2,3) by (cases "List.find (\<lambda>b. k \<in> fst ` set b) (tbl (ht0 d) @ tbl (ht1 d))") (auto simp: find_None_iff)
  then have "b' \<in> set (tbl (ht0 d) @ tbl (ht1 d))" "k \<in> fst ` set b'"
    unfolding find_Some_iff using nth_mem by blast+
  then have "b' = b" using concat_bucket_unique [OF wf_distinct [OF assms(1)]] assms(2,3) by blast
  then show ?thesis by (simp add: entry_next_def f)
qed

lemma bucket_distinct: "dict_wf hf d \<Longrightarrow> b \<in> set (tbl (ht0 d) @ tbl (ht1 d)) \<Longrightarrow> distinct (map fst b)"
  using wf_distinct [of hf d] by (auto simp: map_concat distinct_concat_iff)

lemma table_length:
  assumes "dict_wf hf d"
  shows "length (tbl (table_of d j)) = hsize (table_of d j)"
  using assms by (auto simp: dict_wf_def ht_wf_def split: if_splits)

section \<open>What an iterator has left\<close>

definition remaining :: "('k, 'v) dict \<Rightarrow> 'k dictIterator \<Rightarrow> 'k list" where
  "remaining d it =
     (if entry it = None then [] else case nextEntry it of None \<Rightarrow> []
        | Some n \<Rightarrow> map fst (dropWhile (\<lambda>e. fst e \<noteq> n) (tbl (table_of d (table it)) ! nat (index it)))) @
     map fst (concat (drop (nat (index it + 1)) (tbl (table_of d (table it))))) @
     (if table it = 0 \<and> dictIsRehashing d then map fst (ht_entries (ht1 d)) else [])"

text \<open>The entry last returned is in the current slot, and the saved successor is its successor there.\<close>

definition it_ok :: "('k, 'v) dict \<Rightarrow> 'k dictIterator \<Rightarrow> bool" where
  "it_ok d it \<longleftrightarrow> -1 \<le> index it \<and> (table it = 1 \<longrightarrow> 0 \<le> index it) \<and> table it \<le> 1 \<and>
     (case entry it of None \<Rightarrow> True
      | Some k \<Rightarrow> 0 \<le> index it \<and> nat (index it) < length (tbl (table_of d (table it))) \<and>
         (\<forall>n. nextEntry it = Some n \<longrightarrow> n \<in> fst ` set (tbl (table_of d (table it)) ! nat (index it))))"

abbreviation started :: "'k dictIterator \<Rightarrow> bool" where
  "started it \<equiv> \<not> (index it = -1 \<and> table it = 0)"

definition at_key :: "('k, 'v) dict \<Rightarrow> 'k dictIterator \<Rightarrow> 'k \<Rightarrow> bool" where
  "at_key d it k \<longleftrightarrow> entry it = Some k \<and> k \<in> fst ` set (tbl (table_of d (table it)) ! nat (index it)) \<and>
     nextEntry it = chain_next k (tbl (table_of d (table it)) ! nat (index it))"

lemma remaining_iterators [simp]: "remaining (d\<lparr>iterators := n\<rparr>) it = remaining d it"
  by (simp add: remaining_def dictIsRehashing_def split: option.splits)

lemma it_ok_iterators [simp]: "it_ok (d\<lparr>iterators := n\<rparr>) it = it_ok d it" "at_key (d\<lparr>iterators := n\<rparr>) it k = at_key d it k"
  by (simp_all add: it_ok_def at_key_def split: option.splits)

lemma dict_wf_iterators [simp]: "dict_wf hf (d\<lparr>iterators := n\<rparr>) = dict_wf hf d"
  by (simp add: dict_wf_def dict_entries_def)

lemma dict_entries_iterators [simp]: "dict_entries (d\<lparr>iterators := n\<rparr>) = dict_entries d" "dict_map (d\<lparr>iterators := n\<rparr>) = dict_map d"
  by (simp_all add: dict_entries_def dict_map_def)

lemma slot_in_tables:
  "it_ok d it \<Longrightarrow> nat (index it) < length (tbl (table_of d (table it))) \<Longrightarrow>
   tbl (table_of d (table it)) ! nat (index it) \<in> set (tbl (ht0 d) @ tbl (ht1 d))"
  by (auto simp: it_ok_def)

text \<open>Taking the entry \<open>k\<close> of the current slot leaves the rest of the chain.\<close>

lemma take_entry:
  assumes wf: "dict_wf hf d" and i: "0 \<le> index it" "nat (index it) < length (tbl (table_of d (table it)))" "table it \<le> 1"
    and k: "k \<in> fst ` set (tbl (table_of d (table it)) ! nat (index it))"
  shows "\<exists>n. entry_next d k = Some n \<and> it_ok d (it\<lparr>entry := Some k, nextEntry := n\<rparr>) \<and>
    at_key d (it\<lparr>entry := Some k, nextEntry := n\<rparr>) k \<and>
    map fst (dropWhile (\<lambda>e. fst e \<noteq> k) (tbl (table_of d (table it)) ! nat (index it))) @
      map fst (concat (drop (nat (index it + 1)) (tbl (table_of d (table it))))) @
      (if table it = 0 \<and> dictIsRehashing d then map fst (ht_entries (ht1 d)) else []) =
    k # remaining d (it\<lparr>entry := Some k, nextEntry := n\<rparr>)"
proof -
  let ?b = "tbl (table_of d (table it)) ! nat (index it)"
  have mem: "?b \<in> set (tbl (ht0 d) @ tbl (ht1 d))" using i by auto
  note e = entry_next_in_bucket [OF wf mem k] and dist = bucket_distinct [OF wf mem]
  from chain_split [OF dist k] obtain pre v rest where s: "?b = pre @ (k, v) # rest" "chain_next k ?b = chain_head rest"
    "k \<notin> fst ` set pre" "\<And>n. chain_head rest = Some n \<Longrightarrow> dropWhile (\<lambda>e. fst e \<noteq> n) ?b = rest" by metis
  have "dropWhile (\<lambda>e. fst e \<noteq> k) (pre @ (k, v) # rest) = (k, v) # rest"
    using s(3) by (subst dropWhile_append2) auto
  then have dk: "dropWhile (\<lambda>e. fst e \<noteq> k) ?b = (k, v) # rest" unfolding s(1) .
  have n: "n \<in> fst ` set ?b" if "chain_head rest = Some n" for n
    using that s(1) by (auto simp: chain_head_def split: list.splits)
  have r: "map fst rest = (case chain_head rest of None \<Rightarrow> [] | Some n \<Rightarrow> map fst (dropWhile (\<lambda>e. fst e \<noteq> n) ?b))"
    using s(4) by (cases rest) (auto simp: chain_head_def)
  show ?thesis
    using i e n r k by (cases "chain_head rest") (auto simp: remaining_def it_ok_def at_key_def dk s(2))
qed


section \<open>One call of dictNext\<close>

lemma it_fingerprint [simp]:
  "remaining d (it\<lparr>fingerprint := f\<rparr>) = remaining d it" "it_ok d (it\<lparr>fingerprint := f\<rparr>) = it_ok d it"
  by (simp_all add: remaining_def it_ok_def split: option.splits)

lemma first_call_simps [simp]:
  "entry (snd (first_call addr d it)) = entry it" "nextEntry (snd (first_call addr d it)) = nextEntry it"
  "index (snd (first_call addr d it)) = index it" "table (snd (first_call addr d it)) = table it"
  "safe (snd (first_call addr d it)) = safe it"
  "remaining (fst (first_call addr d it)) x = remaining d x" "remaining d (snd (first_call addr d it)) = remaining d it"
  "it_ok (fst (first_call addr d it)) x = it_ok d x" "it_ok d (snd (first_call addr d it)) = it_ok d it"
  "at_key (fst (first_call addr d it)) x k = at_key d x k"
  "dict_wf hf (fst (first_call addr d it)) = dict_wf hf d"
  "ht0 (fst (first_call addr d it)) = ht0 d" "ht1 (fst (first_call addr d it)) = ht1 d"
  "dictIsRehashing (fst (first_call addr d it)) = dictIsRehashing d"
  by (simp_all add: first_call_def dictIsRehashing_def)

lemma remaining_slot:
  assumes "entry it = None" "0 \<le> index it" "nat (index it) < length (tbl (table_of d (table it)))"
  shows "map fst (concat (drop (nat (index it)) (tbl (table_of d (table it))))) @
      (if table it = 0 \<and> dictIsRehashing d then map fst (ht_entries (ht1 d)) else []) =
    map fst (tbl (table_of d (table it)) ! nat (index it)) @ remaining d it"
proof -
  have "nat (index it + 1) = Suc (nat (index it))" using assms(2) by simp
  then show ?thesis using Cons_nth_drop_Suc [OF assms(3), symmetric] assms(1) by (simp add: remaining_def)
qed

lemma next_slot_Some:
  assumes wf: "dict_wf hf d" and ok: "it_ok d it" "entry it = None" and s: "next_slot d it = (it', True)"
  shows "0 \<le> index it'" "nat (index it') < length (tbl (table_of d (table it')))" "table it' \<le> 1"
    "entry it' = None" "safe it' = safe it" "fingerprint it' = fingerprint it"
    "remaining d it = map fst (tbl (table_of d (table it')) ! nat (index it')) @ remaining d it'"
proof -
  have i: "-1 \<le> index it" "table it \<le> 1" using ok by (auto simp: it_ok_def)
  have len: "length (tbl (table_of d j)) = hsize (table_of d j)" for j using table_length [OF wf] .
  have *: "0 \<le> index it' \<and> nat (index it') < length (tbl (table_of d (table it'))) \<and> table it' \<le> 1 \<and>
    entry it' = None \<and> safe it' = safe it \<and> fingerprint it' = fingerprint it \<and>
    remaining d it = map fst (concat (drop (nat (index it')) (tbl (table_of d (table it'))))) @
      (if table it' = 0 \<and> dictIsRehashing d then map fst (ht_entries (ht1 d)) else [])"
  proof (cases "index it + 1 \<ge> int (hsize (table_of d (table it)))")
    case False
    then have "it' = it\<lparr>index := index it + 1\<rparr>" using s by (simp add: next_slot_def Let_def split: if_splits)
    then show ?thesis using False i ok(2) len [of "table it"] by (simp add: remaining_def)
  next
    case True
    then have r: "dictIsRehashing d" "table it = 0" and it': "it' = it\<lparr>table := 1, index := 0\<rparr>"
      using s by (auto simp: next_slot_def Let_def split: if_splits)
    then have "0 < hsize (ht1 d)" using wf by (auto simp: dict_wf_def dictIsRehashing_def ht_wf_def)
    then show ?thesis using True r it' ok(2) len [of 0] len [of 1] i by (simp add: remaining_def ht_entries_def)
  qed
  then show "0 \<le> index it'" "nat (index it') < length (tbl (table_of d (table it')))" "table it' \<le> 1"
    "entry it' = None" "safe it' = safe it" "fingerprint it' = fingerprint it" by simp_all
  from * show "remaining d it = map fst (tbl (table_of d (table it')) ! nat (index it')) @ remaining d it'"
    using remaining_slot [of it' d] by metis
qed

lemma next_slot_None:
  assumes wf: "dict_wf hf d" and ok: "it_ok d it" "entry it = None" and s: "next_slot d it = (it', False)"
  shows "remaining d it = []" "it' = it\<lparr>index := index it + 1\<rparr>"
  using s ok table_length [OF wf, of "table it"]
  by (auto simp: next_slot_def Let_def remaining_def split: if_splits)

text \<open>What a call promises: the entry it returns is the first of those left.\<close>

definition next_ok :: "('k, 'v) dict \<Rightarrow> 'k dictIterator \<Rightarrow> 'k dictIterator \<Rightarrow> 'k option \<Rightarrow> bool" where
  "next_ok d it it' r \<longleftrightarrow> it_ok d it' \<and> started it' \<and> safe it' = safe it \<and> fingerprint it' = fingerprint it \<and>
     (case remaining d it of [] \<Rightarrow> r = None | k # ks \<Rightarrow> r = Some k \<and> at_key d it' k \<and> remaining d it' = ks)"

lemma next_ok_dict [simp]: "next_ok (fst (first_call addr d x)) it it' r = next_ok d it it' r"
  by (simp add: next_ok_def split: list.splits)

lemma next_ok_trans:
  assumes "next_ok d it it' r" "remaining d it0 = remaining d it" "safe it0 = safe it" "fingerprint it0 = fingerprint it"
  shows "next_ok d it0 it' r"
  using assms by (simp add: next_ok_def)

lemma next_ok_entry:
  assumes wf: "dict_wf hf d" and i: "0 \<le> index it" "nat (index it) < length (tbl (table_of d (table it)))" "table it \<le> 1"
    and k: "k \<in> fst ` set (tbl (table_of d (table it)) ! nat (index it))"
    and rem: "remaining d it0 = map fst (dropWhile (\<lambda>e. fst e \<noteq> k) (tbl (table_of d (table it)) ! nat (index it))) @
      map fst (concat (drop (nat (index it + 1)) (tbl (table_of d (table it))))) @
      (if table it = 0 \<and> dictIsRehashing d then map fst (ht_entries (ht1 d)) else [])"
    and same: "safe it = safe it0" "fingerprint it = fingerprint it0"
  obtains n where "entry_next d k = Some n" "next_ok d it0 (it\<lparr>entry := Some k, nextEntry := n\<rparr>) (Some k)"
  using take_entry [OF wf i k] rem i same that by (auto simp: next_ok_def)

lemma dictNext_end:
  assumes "entry it = None" "next_slot d it = (it', False)" "dict_wf hf d" "it_ok d it"
  shows "next_ok d it it' None"
  using next_slot_None [OF assms(3,4,1,2)] assms by (auto simp: next_ok_def it_ok_def)

lemma dictNext_spec:
  assumes "dict_wf hf d" "it_ok d it"
  shows "\<exists>it' r. dictNext addr d it = Some (fst (first_call addr d it), it', r) \<and> next_ok d (snd (first_call addr d it)) it' r"
  using assms
proof (induction addr d it rule: dictNext.induct)
  case (1 addr d it)
  let ?d = "fst (first_call addr d it)" and ?it = "snd (first_call addr d it)"
  show ?case
  proof (cases "entry it")
    case None
    obtain it' b where s: "next_slot ?d ?it = (it', b)" by fastforce
    have wf: "dict_wf hf ?d" "it_ok ?d ?it" "entry ?it = None" using 1 None by simp_all
    show ?thesis
    proof (cases b)
      case False
      with dictNext_end [OF wf(3) _ wf(1,2)] s None show ?thesis by (subst dictNext.simps) (simp add: Let_def)
    next
      case True
      then have s': "next_slot ?d ?it = (it', True)" using s by simp
      note n = next_slot_Some [OF wf s']
      let ?b = "tbl (table_of ?d (table it')) ! nat (index it')"
      have bk: "bucket (table_of ?d (table it')) (nat (index it')) = Some ?b" using n by (auto simp: bucket_def)
      show ?thesis
      proof (cases ?b)
        case Nil
        then have h: "chain_head ?b = None" by (simp add: chain_head_def)
        have it': "it'\<lparr>entry := None\<rparr> = it'" using n(4) by simp
        have ok: "it_ok ?d it'" and st: "first_call addr ?d it' = (?d, it')" using n by (auto simp: it_ok_def first_call_def)
        have run: "dictNext addr d it = dictNext addr ?d it'"
          using None s' n(1) bk h it' by (subst dictNext.simps) (simp add: Let_def)
        from 1(1) [OF None refl refl refl _ _ h] obtain it'' r where
          it'': "dictNext addr ?d it' = Some (?d, it'', r)" "next_ok ?d it' it'' r"
          using s' n(1) bk it' wf(1) ok st by auto
        from next_ok_trans [OF it''(2)] have "next_ok d ?it it'' r" using n(5-7) Nil by simp
        with run it'' show ?thesis by simp
      next
        case (Cons e es)
        then have k: "fst e \<in> fst ` set ?b" and h: "chain_head ?b = Some (fst e)" by (simp_all add: chain_head_def)
        have "remaining ?d ?it = map fst (dropWhile (\<lambda>x. fst x \<noteq> fst e) ?b) @
            map fst (concat (drop (nat (index it' + 1)) (tbl (table_of ?d (table it'))))) @
            (if table it' = 0 \<and> dictIsRehashing ?d then map fst (ht_entries (ht1 ?d)) else [])"
          using n(7,4) Cons by (simp add: remaining_def [of d it'])
        from next_ok_entry [OF wf(1) n(1,2,3) k this n(5,6)] obtain nx where
          "entry_next ?d (fst e) = Some nx" "next_ok ?d ?it (it'\<lparr>entry := Some (fst e), nextEntry := nx\<rparr>) (Some (fst e))" .
        then show ?thesis using None s' n(1) bk h by (subst dictNext.simps) (simp add: Let_def)
      qed
    qed
  next
    case (Some k)
    then have fc: "first_call addr d it = (d, it)" using 1(4) by (auto simp: it_ok_def first_call_def)
    show ?thesis
    proof (cases "nextEntry it")
      case None
      have ok: "it_ok d (it\<lparr>entry := None\<rparr>)" and fc': "first_call addr d (it\<lparr>entry := None\<rparr>) = (d, it\<lparr>entry := None\<rparr>)"
        using 1(4) Some by (auto simp: it_ok_def first_call_def)
      from 1(2) [OF Some None 1(3) ok] fc' obtain it' r where
        "dictNext addr d (it\<lparr>entry := None\<rparr>) = Some (d, it', r)" "next_ok d (it\<lparr>entry := None\<rparr>) it' r" by auto
      then show ?thesis using next_ok_trans [of d "it\<lparr>entry := None\<rparr>" it' r it] None Some fc
        by (subst dictNext.simps) (simp add: remaining_def)
    next
      case (Some n)
      have i: "0 \<le> index it" "nat (index it) < length (tbl (table_of d (table it)))" "table it \<le> 1"
        "n \<in> fst ` set (tbl (table_of d (table it)) ! nat (index it))"
        using 1(4) \<open>entry it = Some k\<close> Some by (auto simp: it_ok_def)
      from next_ok_entry [OF 1(3) i, of it] obtain nx where
        "entry_next d n = Some nx" "next_ok d it (it\<lparr>entry := Some n, nextEntry := nx\<rparr>) (Some n)"
        using Some \<open>entry it = Some k\<close> by (auto simp: remaining_def)
      then show ?thesis using Some \<open>entry it = Some k\<close> fc by (subst dictNext.simps) simp
    qed
  qed
qed


section \<open>Iterating to the end\<close>

text \<open>The loop \<open>while ((de = dictNext(di)) != NULL)\<close> with a body that works on the dictionary and its own state.\<close>

partial_function (option) dict_foreach ::
  "(nat \<Rightarrow> u64) \<Rightarrow> ('k \<Rightarrow> ('k, 'v) dict \<Rightarrow> 's \<Rightarrow> (('k, 'v) dict \<times> 's) option) \<Rightarrow> ('k, 'v) dict \<Rightarrow> 'k dictIterator \<Rightarrow> 's \<Rightarrow>
   (('k, 'v) dict \<times> 'k dictIterator \<times> 's) option" where
  "dict_foreach addr body d it s = do {
     (d, it, r) \<leftarrow> dictNext addr d it;
     case r of
       None \<Rightarrow> Some (d, it, s)
     | Some k \<Rightarrow> do { (d, s) \<leftarrow> body k d s; dict_foreach addr body d it s } }"

text \<open>Reading all keys with an unsafe iterator.\<close>

definition dict_keys_unsafe :: "(nat \<Rightarrow> u64) \<Rightarrow> u64 \<Rightarrow> ('k, 'v) dict \<Rightarrow> (('k, 'v) dict \<times> 'k list) option" where
  "dict_keys_unsafe addr junk d = do {
     (d, it, ks) \<leftarrow> dict_foreach addr (\<lambda>k d ks. Some (d, ks @ [k])) d (dictGetIterator junk) [];
     d \<leftarrow> dictReleaseIterator addr d it;
     Some (d, ks) }"

text \<open>Deleting keys while a safe iterator runs; the keys visited are collected.\<close>

definition delete_if :: "('k \<Rightarrow> u64) \<Rightarrow> ('k \<Rightarrow> bool) \<Rightarrow> 'k \<Rightarrow> ('k, 'v) dict \<Rightarrow> 'k list \<Rightarrow> (('k, 'v) dict \<times> 'k list) option" where
  "delete_if hf P k d ks = do {
     d \<leftarrow> (if P k then map_option fst (dictDelete hf d k) else Some d);
     Some (d, ks @ [k]) }"

definition dict_delete_safe :: "(nat \<Rightarrow> u64) \<Rightarrow> u64 \<Rightarrow> ('k \<Rightarrow> u64) \<Rightarrow> ('k \<Rightarrow> bool) \<Rightarrow> ('k, 'v) dict \<Rightarrow> (('k, 'v) dict \<times> 'k list) option" where
  "dict_delete_safe addr junk hf P d = do {
     (d, it, ks) \<leftarrow> dict_foreach addr (delete_if hf P) d (dictGetSafeIterator junk) [];
     d \<leftarrow> dictReleaseIterator addr d it;
     Some (d, ks) }"

lemma it_ok_new [simp]:
  "it_ok d (dictGetIterator junk)" "it_ok d (dictGetSafeIterator junk)"
  "remaining d (dictGetIterator junk) = map fst (ht_entries (ht0 d)) @ (if dictIsRehashing d then map fst (ht_entries (ht1 d)) else [])"
  "remaining d (dictGetSafeIterator junk) = map fst (ht_entries (ht0 d)) @ (if dictIsRehashing d then map fst (ht_entries (ht1 d)) else [])"
  by (simp_all add: it_ok_def remaining_def dictGetIterator_def dictGetSafeIterator_def ht_entries_def)

lemma remaining_new:
  assumes "dict_wf hf d"
  shows "map fst (ht_entries (ht0 d)) @ (if dictIsRehashing d then map fst (ht_entries (ht1 d)) else []) = map fst (dict_entries d)"
  using assms by (auto simp: dict_wf_def dictIsRehashing_def dict_entries_def)

lemma first_call_started: "started it \<Longrightarrow> first_call addr d it = (d, it)"
  by (auto simp: first_call_def)

lemma dict_foreach_read:
  assumes "dict_wf hf d" "it_ok d it"
  shows "\<exists>it'. dict_foreach addr (\<lambda>k d ks. Some (d, ks @ [k])) d it acc = Some (fst (first_call addr d it), it', acc @ remaining d it) \<and>
    started it' \<and> safe it' = safe it \<and> fingerprint it' = fingerprint (snd (first_call addr d it))"
  using assms
proof (induction "remaining d it" arbitrary: d it acc)
  case Nil
  obtain it' r where "dictNext addr d it = Some (fst (first_call addr d it), it', r)" "next_ok d (snd (first_call addr d it)) it' r"
    using dictNext_spec [OF Nil(2,3), of addr] by blast
  then show ?case using Nil(1) [symmetric] by (subst dict_foreach.simps) (simp add: next_ok_def)
next
  case (Cons k ks)
  let ?d = "fst (first_call addr d it)"
  obtain it' r where r: "dictNext addr d it = Some (?d, it', r)" "next_ok d (snd (first_call addr d it)) it' r"
    using dictNext_spec [OF Cons(3,4), of addr] by blast
  then have n: "ks = remaining ?d it'" "it_ok ?d it'" "started it'" "r = Some k" "safe it' = safe it"
      "fingerprint it' = fingerprint (snd (first_call addr d it))"
    using Cons(2) [symmetric] by (simp_all add: next_ok_def)
  have "first_call addr ?d it' = (?d, it')" using n(3) by (rule first_call_started)
  with Cons(1) [OF n(1) _ n(2), of "acc @ [k]"] Cons(3) obtain it'' where
    "dict_foreach addr (\<lambda>k d ks. Some (d, ks @ [k])) ?d it' (acc @ [k]) = Some (?d, it'', (acc @ [k]) @ remaining ?d it')"
    "started it''" "safe it'' = safe it'" "fingerprint it'' = fingerprint it'" by auto
  with r(1) n Cons(2) [symmetric] show ?case by (subst dict_foreach.simps) simp
qed

section \<open>Deleting the current entry\<close>

lemma filter_keys_id [simp]: "k \<notin> fst ` set xs \<Longrightarrow> filter (\<lambda>e. fst e \<noteq> k) xs = xs"
  by (induction xs) auto

lemma bucket_hash: "ht_wf hf t \<Longrightarrow> i < length (tbl t) \<Longrightarrow> k \<in> fst ` set (tbl t ! i) \<Longrightarrow> hash_idx hf t k = i"
  by (auto simp: ht_wf_def)

lemma remove_nth_filter: "distinct (map fst b) \<Longrightarrow> p < length b \<Longrightarrow> remove_nth p b = filter (\<lambda>e. fst e \<noteq> fst (b ! p)) b"
proof -
  assume d: "distinct (map fst b)" and p: "p < length b"
  have b: "b = take p b @ b ! p # drop (Suc p) b" using p by (rule id_take_nth_drop)
  have n: "fst (b ! p) \<notin> fst ` set (take p b)" "fst (b ! p) \<notin> fst ` set (drop (Suc p) b)"
    using d by (subst (asm) b, simp)+
  have "filter (\<lambda>e. fst e \<noteq> fst (b ! p)) (take p b @ b ! p # drop (Suc p) b) = take p b @ drop (Suc p) b"
    using n by simp
  then show ?thesis using b by (simp add: remove_nth_def)
qed

text \<open>The slot of the iterator is where a search for its key ends.\<close>

lemma at_key_slot:
  assumes wf: "dict_wf hf d" and ok: "it_ok d it" "at_key d it k" and r: "entry_at hf d k (j, i, p)"
  shows "(j = 0) = (table it = 0)" "i = nat (index it)"
proof -
  let ?b = "tbl (table_of d (table it)) ! nat (index it)"
  have ix: "nat (index it) < length (tbl (table_of d (table it)))" and k: "k \<in> fst ` set ?b"
    using ok by (auto simp: it_ok_def at_key_def)
  have e: "ht_wf hf (table_of d j)" "i = hash_idx hf (table_of d j) k" "i < length (tbl (table_of d j))"
      "k \<in> fst ` set (tbl (table_of d j) ! i)"
    using r by (auto simp: entry_at_def) (metis image_eqI nth_mem)+
  then have ke: "k \<in> fst ` set (ht_entries (table_of d j))" by (force simp: set_ht_entries)
  have k': "k \<in> fst ` set (ht_entries (table_of d (table it)))" using k ix by (force simp: set_ht_entries)
  have dist: "distinct (map fst (ht_entries (ht0 d) @ ht_entries (ht1 d)))" using wf by (simp add: dict_wf_def dict_entries_def)
  show jt: "(j = 0) = (table it = 0)" using ke k' dist by (auto split: if_splits)
  then have t: "table_of d j = table_of d (table it)" by simp
  show "i = nat (index it)" using bucket_hash [OF e(1)] e(2) k ix unfolding t by simp
qed

lemma remaining_change_slot:
  assumes "case nextEntry it of None \<Rightarrow> True
    | Some n \<Rightarrow> dropWhile (\<lambda>e. fst e \<noteq> n) (tbl (table_of d' (table it)) ! nat (index it)) =
        dropWhile (\<lambda>e. fst e \<noteq> n) (tbl (table_of d (table it)) ! nat (index it))"
    "drop (nat (index it + 1)) (tbl (table_of d' (table it))) = drop (nat (index it + 1)) (tbl (table_of d (table it)))"
    "table it = 0 \<Longrightarrow> ht1 d' = ht1 d" "dictIsRehashing d' = dictIsRehashing d"
  shows "remaining d' it = remaining d it"
  using assms by (cases "nextEntry it"; cases "table it = 0") (simp_all add: remaining_def)

lemma delete_current:
  assumes wf: "dict_wf hf d" and it: "iterators d \<noteq> 0" and ok: "it_ok d it" "at_key d it k"
  obtains d' where "dictDelete hf d k = Some (d', True)" "dict_wf hf d'" "dict_map d' = (dict_map d)(k := None)"
    "iterators d' = iterators d" "it_ok d' it" "remaining d' it = remaining d it"
proof -
  let ?t = "table_of d (table it)" and ?i = "nat (index it)"
  let ?b = "tbl ?t ! ?i"
  have ix: "?i < length (tbl ?t)" "0 \<le> index it" "k \<in> fst ` set ?b" "nextEntry it = chain_next k ?b" "entry it = Some k"
    using ok by (auto simp: it_ok_def at_key_def)
  have mem: "?b \<in> set (tbl (ht0 d) @ tbl (ht1 d))" using ix by auto
  have "k \<in> fst ` set (dict_entries d)" using mem ix(3) by (force simp: entries_concat)
  then have kd: "dict_map d k \<noteq> None" "dictSize d \<noteq> 0"
    using dict_size_entries [OF wf] by (auto simp: dict_map_None)
  obtain j i p idx where f: "find_tables hf d k = Some (Some (j, i, p), idx)" and r: "entry_at hf d k (j, i, p)"
    using find_tables_spec [OF wf used_nonzero_wf [OF wf kd(2)], of k] kd(1) by (auto split: option.splits)
  note s = at_key_slot [OF wf ok r]
  define d' where "d' = upd_ht j (\<lambda>t. t\<lparr>tbl := (tbl t)[i := remove_nth p (tbl t ! i)], used := used t - 1\<rparr>) d"
  have run: "dictDelete hf d k = Some (d', True)"
    using f it kd(2) by (auto simp: d'_def dictDelete_def dictGenericDelete_def dictRehashStep_def dictSize_def)
  have p: "p < length ?b" "fst (?b ! p) = k" using r s by (auto simp: entry_at_def split: if_splits)
  have nb: "tbl (table_of d' (table it)) = (tbl ?t)[?i := remove_nth p ?b]"
      "table it = 0 \<Longrightarrow> ht1 d' = ht1 d" "dictIsRehashing d' = dictIsRehashing d" "iterators d' = iterators d"
    using s by (auto simp: d'_def upd_ht_def dictIsRehashing_def)
  from chain_split [OF bucket_distinct [OF wf mem] ix(3)] obtain pre v rest where b: "?b = pre @ (k, v) # rest"
    "chain_next k ?b = chain_head rest" "k \<notin> fst ` set pre" "k \<notin> fst ` set rest"
    "\<And>n. chain_head rest = Some n \<Longrightarrow> dropWhile (\<lambda>e. fst e \<noteq> n) ?b = rest" by metis
  have rb: "remove_nth p ?b = pre @ rest"
    using remove_nth_filter [OF bucket_distinct [OF wf mem] p(1)] p(2) b(3,4) unfolding b(1) by simp
  have dw: "dropWhile (\<lambda>e. fst e \<noteq> n) (pre @ rest) = rest" if "chain_head rest = Some n" for n
    using b(5) [OF that] bucket_distinct [OF wf mem] that unfolding b(1)
    by (auto simp: chain_head_def dropWhile_append split: list.splits if_splits)
  have slot: "tbl (table_of d' (table it)) ! ?i = pre @ rest" "length (tbl (table_of d' (table it))) = length (tbl ?t)"
    using nb(1) ix(1) rb by simp_all
  have "drop (nat (index it + 1)) (tbl (table_of d' (table it))) = drop (nat (index it + 1)) (tbl ?t)"
    unfolding nb(1) using ix(2) by (simp add: nat_add_distrib)
  then have "remaining d' it = remaining d it"
    using slot(1) nb(2,3) ix(4,5) b(2,5) dw by (intro remaining_change_slot) (auto split: option.splits)
  moreover have "it_ok d' it"
    using ok(1) ix slot b(2) by (cases rest) (auto simp: it_ok_def chain_head_def)
  ultimately show thesis
    using that [OF run] dictUnlink_at [OF wf r] nb(4) unfolding d'_def by blast
qed


lemma dict_foreach_delete:
  assumes "dict_wf hf d" "it_ok d it" "safe it" "started it \<Longrightarrow> iterators d \<noteq> 0"
  shows "\<exists>d' it'. dict_foreach addr (delete_if hf P) d it acc = Some (d', it', acc @ remaining d it) \<and> dict_wf hf d' \<and>
    dict_map d' = (\<lambda>k. if k \<in> set (remaining d it) \<and> P k then None else dict_map d k) \<and>
    iterators d' = iterators (fst (first_call addr d it)) \<and> started it' \<and> safe it'"
  using assms
proof (induction "remaining d it" arbitrary: d it acc)
  case Nil
  obtain it' r where "dictNext addr d it = Some (fst (first_call addr d it), it', r)" "next_ok d (snd (first_call addr d it)) it' r"
    using dictNext_spec [OF Nil(2,3), of addr] by blast
  moreover have "dict_map (fst (first_call addr d it)) = dict_map d" by (simp add: first_call_def)
  ultimately show ?case using Nil(1) [symmetric] Nil(2,4) by (subst dict_foreach.simps) (simp add: next_ok_def)
next
  case (Cons k ks)
  let ?d = "fst (first_call addr d it)"
  obtain it' r where r: "dictNext addr d it = Some (?d, it', r)" "next_ok d (snd (first_call addr d it)) it' r"
    using dictNext_spec [OF Cons(3,4), of addr] by blast
  then have n: "remaining ?d it' = ks" "it_ok ?d it'" "started it'" "r = Some k" "safe it'" "at_key ?d it' k"
    using Cons(2) [symmetric] Cons(5) by (simp_all add: next_ok_def)
  have d: "dict_wf hf ?d" "iterators ?d \<noteq> 0" "dict_map ?d = dict_map d"
    using Cons(3,5,6) by (auto simp: first_call_def)
  obtain d1 where d1: "delete_if hf P k ?d acc = Some (d1, acc @ [k])" "dict_wf hf d1" "iterators d1 = iterators ?d"
      "it_ok d1 it'" "remaining d1 it' = ks" "dict_map d1 = (if P k then (dict_map d)(k := None) else dict_map d)"
  proof (cases "P k")
    case True
    from delete_current [OF d(1,2) n(2,6)] obtain d1 where "dictDelete hf ?d k = Some (d1, True)" "dict_wf hf d1"
      "dict_map d1 = (dict_map ?d)(k := None)" "iterators d1 = iterators ?d" "it_ok d1 it'" "remaining d1 it' = remaining ?d it'" .
    with that True d(3) n(1) show ?thesis by (auto simp: delete_if_def)
  next
    case False
    then show ?thesis using that [of ?d] n d by (simp add: delete_if_def)
  qed
  have fc: "first_call addr d1 it' = (d1, it')" using n(3) by (rule first_call_started)
  from Cons(1) [OF d1(5) [symmetric] d1(2,4) n(5), of "acc @ [k]"] d1(3) d(2) obtain d' it'' where
    "dict_foreach addr (delete_if hf P) d1 it' (acc @ [k]) = Some (d', it'', (acc @ [k]) @ remaining d1 it')" "dict_wf hf d'"
    "dict_map d' = (\<lambda>x. if x \<in> set (remaining d1 it') \<and> P x then None else dict_map d1 x)"
    "iterators d' = iterators d1" "started it''" "safe it''" unfolding fc by auto
  with r(1) n(4) d1 Cons(2) [symmetric] show ?case
    by (subst dict_foreach.simps) (auto simp: fun_eq_iff)
qed

section \<open>Properties\<close>

lemma keys_dom: "dict_wf hf d \<Longrightarrow> distinct (map fst (dict_entries d)) \<and> set (map fst (dict_entries d)) = dom (dict_map d)"
  by (simp add: dict_wf_def dict_map_def dom_map_of_conv_image_fst)

text \<open>Going through a dictionary with an unsafe iterator, at any stage of a rehash, returns every key exactly once,
  leaves the dictionary as it was and does not fail the fingerprint check.\<close>

lemma dict_iterator_complete:
  assumes "dict_wf hf d"
  shows "\<exists>ks. dict_keys_unsafe addr junk d = Some (d, ks) \<and> distinct ks \<and> set ks = dom (dict_map d)"
proof -
  have fc: "fst (first_call addr d (dictGetIterator junk)) = d"
      "fingerprint (snd (first_call addr d (dictGetIterator junk))) = dictFingerprint addr d" "\<not> safe (dictGetIterator junk)"
    by (simp_all add: first_call_def dictGetIterator_def)
  with dict_foreach_read [OF assms it_ok_new(1) [of d junk], of addr "[]"] show ?thesis
    using keys_dom [OF assms] remaining_new [OF assms] by (auto simp: dict_keys_unsafe_def dictReleaseIterator_def)
qed

text \<open>C17.  While a safe iterator runs, its user may delete the entry last returned: every key that was there is still visited
  exactly once, no freed entry is followed, exactly the chosen keys are gone at the end and rehashing is allowed
  again.\<close>

theorem dict_safe_iteration:
  assumes "dict_wf hf d"
  shows "\<exists>d' ks. dict_delete_safe addr junk hf P d = Some (d', ks) \<and> distinct ks \<and> set ks = dom (dict_map d) \<and>
    dict_wf hf d' \<and> dict_map d' = dict_map d |` {k. \<not> P k} \<and> iterators d' = iterators d"
proof -
  have fc: "iterators (fst (first_call addr d (dictGetSafeIterator junk))) = iterators d + 1" "safe (dictGetSafeIterator junk)"
      "\<not> started (dictGetSafeIterator junk)"
    by (simp_all add: first_call_def dictGetSafeIterator_def dictGetIterator_def)
  have st: "started (dictGetSafeIterator junk) \<Longrightarrow> iterators d \<noteq> 0" using fc(3) by blast
  obtain d' it' where r: "dict_foreach addr (delete_if hf P) d (dictGetSafeIterator junk) [] = Some (d', it', map fst (dict_entries d))"
      "dict_wf hf d'" "dict_map d' = (\<lambda>k. if k \<in> set (map fst (dict_entries d)) \<and> P k then None else dict_map d k)"
      "iterators d' = iterators d + 1" "started it'" "safe it'"
    using dict_foreach_delete [OF assms it_ok_new(2) fc(2) st, of addr P "[]"] fc(1)
    unfolding it_ok_new(4) remaining_new [OF assms] append_Nil by auto
  have "dict_map d' = dict_map d |` {k. \<not> P k}"
    using r(3) keys_dom [OF assms] by (auto simp: fun_eq_iff restrict_map_def)
  with r keys_dom [OF assms] show ?thesis by (auto simp: dict_delete_safe_def dictReleaseIterator_def)
qed

theorem dict_safe_iteration_witness:
  "\<exists>d' ks. dict_delete_safe (\<lambda>_. 7) 0 of_nat odd dict_example = Some (d', ks) \<and> set ks = {5, 1, 3, 8} \<and> dom (dict_map d') = {8}"
proof -
  have dom: "dom (dict_map dict_example) = {5, 1, 3, 8}"
    by (auto simp: dict_map_def dict_entries_def ht_entries_def dict_example_def split: if_splits)
  then have "dom (dict_map dict_example |` {k. \<not> odd k}) = {8}" by auto
  then show ?thesis using dict_safe_iteration [OF dict_example_wf, of "\<lambda>_. 7" 0 odd] dom by auto
qed

end
