(* ===== verification/Redis_Util.thy ===== *)
theory Redis_Util
  imports Redis_Prelude
begin

text \<open>
  Integer/string conversion of \<open>util.c\<close>.  Strings are byte lists; \<open>ll2string\<close> writes into a
  caller's buffer of \<open>dstlen\<close> bytes, the first bytes of the block \<open>dst\<close>.  The unsigned 64-bit
  accumulator of \<open>string2ll\<close> is a natural number with the code's overflow tests written out.
\<close>

section \<open>Operations\<close>

fun digits10 :: "nat \<Rightarrow> nat" where
  "digits10 v =
     (if v < 10 then 1 else if v < 100 then 2 else if v < 1000 then 3
      else if v < 1000000000000 then
        (if v < 100000000 then
           (if v < 1000000 then
              (if v < 10000 then 4 else 5 + (if v \<ge> 100000 then 1 else 0))
            else 7 + (if v \<ge> 10000000 then 1 else 0))
         else if v < 10000000000 then 9 + (if v \<ge> 1000000000 then 1 else 0)
         else 11 + (if v \<ge> 100000000000 then 1 else 0))
      else 12 + digits10 (v div 1000000000000))"

declare digits10.simps [simp del]

text \<open>The absolute value, computed on unsigned 64-bit integers with the special case of
  \<open>LLONG_MIN\<close>.\<close>

definition ll_abs :: "int \<Rightarrow> nat" where
  "ll_abs v = (if v \<noteq> - (2 ^ 63) then nat (- v mod 2 ^ 64) else 2 ^ 63 - 1 + 1)"

definition sdigits10 :: "int \<Rightarrow> nat" where
  "sdigits10 v = (if v < 0 then digits10 (ll_abs v) + 1 else digits10 (nat v))"

definition digits_table :: "byte list" where
  "digits_table = str_bytes
    (''0001020304050607080910111213141516171819'' @
     ''2021222324252627282930313233343536373839'' @
     ''4041424344454647484950515253545556575859'' @
     ''6061626364656667686970717273747576777879'' @
     ''8081828384858687888990919293949596979899'')"

text \<open>Decrement of the 32-bit index \<open>next\<close>.\<close>

definition sub_u32 :: "nat \<Rightarrow> nat \<Rightarrow> nat" where
  "sub_u32 a b = nat ((int a - int b) mod 2 ^ 32)"

definition put_pair :: "nat \<Rightarrow> nat \<Rightarrow> mem \<Rightarrow> mem option" where
  "put_pair nxt i dst =
     do { hi \<leftarrow> mem_read (i + 1) 1 digits_table; dst \<leftarrow> mem_write nxt hi dst;
          lo \<leftarrow> mem_read i 1 digits_table; mem_write (sub_u32 nxt 1) lo dst }"

fun ll2string_loop :: "nat \<Rightarrow> nat \<Rightarrow> mem \<Rightarrow> (nat \<times> nat \<times> mem) option" where
  "ll2string_loop value nxt dst =
     (if value \<ge> 100
      then do { dst \<leftarrow> put_pair nxt (value mod 100 * 2) dst;
                ll2string_loop (value div 100) (sub_u32 nxt 2) dst }
      else Some (value, nxt, dst))"

declare ll2string_loop.simps [simp del]

definition ll2string :: "mem \<Rightarrow> nat \<Rightarrow> int \<Rightarrow> (nat \<times> mem) option" where
  "ll2string dst dstlen svalue =
     (let negative = (if svalue < 0 then 1 else 0);
          value = (if svalue < 0 then ll_abs svalue else nat svalue);
          length = digits10 value + negative
      in if length \<ge> dstlen then Some (0, dst)
         else do {
           dst \<leftarrow> mem_write length [0] dst;
           (value, nxt, dst) \<leftarrow> ll2string_loop value (sub_u32 length 1) dst;
           dst \<leftarrow> (if value < 10 then mem_write nxt [48 + of_nat value] dst
                   else put_pair nxt (value * 2) dst);
           dst \<leftarrow> (if negative = 1 then mem_write 0 [45] dst else Some dst);
           Some (length, dst) })"

abbreviation (input) ULLONG_MAX :: nat where "ULLONG_MAX \<equiv> 2 ^ 64 - 1"

definition is_digit :: "byte \<Rightarrow> bool" where
  "is_digit c \<longleftrightarrow> 48 \<le> c \<and> c \<le> 57"

text \<open>The digit loop of \<open>string2ll\<close>: the accumulator and the bytes it did not consume, or
  \<^const>\<open>None\<close> when it returns early on overflow.\<close>

fun string2ll_loop :: "nat \<Rightarrow> byte list \<Rightarrow> (nat \<times> byte list) option" where
  "string2ll_loop v [] = Some (v, [])"
| "string2ll_loop v (c # p) =
     (if is_digit c then
        (if v > ULLONG_MAX div 10 then None
         else if v * 10 > ULLONG_MAX - unat (c - 48) then None
         else string2ll_loop (v * 10 + unat (c - 48)) p)
      else Some (v, c # p))"

definition string2ll :: "byte list \<Rightarrow> int option" where
  "string2ll s =
     (if s = [] then None
      else if length s = 1 \<and> hd s = 48 then Some 0
      else
        let negative = (hd s = 45); p = (if negative then tl s else s) in
        if p = [] then None
        else if 49 \<le> hd p \<and> hd p \<le> 57 then
          do { (v, rest) \<leftarrow> string2ll_loop (unat (hd p - 48)) (tl p);
               if rest \<noteq> [] then None
               else if negative then
                 (if v > 2 ^ 63 then None else Some (to_signed 8 (- int v mod 2 ^ 64)))
               else if v > 2 ^ 63 - 1 then None else Some (int v) }
        else None)"

definition string2l :: "byte list \<Rightarrow> int option" where
  "string2l s =
     do { llval \<leftarrow> string2ll s;
          if llval < - (2 ^ 63) \<or> llval > 2 ^ 63 - 1 then None else Some llval }"

section \<open>Decimal notation\<close>

fun dec :: "nat \<Rightarrow> byte list" where
  "dec v = (if v < 10 then [48 + of_nat v] else dec (v div 10) @ [48 + of_nat (v mod 10)])"

declare dec.simps [simp del]

definition ll_repr :: "int \<Rightarrow> byte list" where
  "ll_repr v = (if v < 0 then 45 # dec (nat (- v)) else dec (nat v))"

lemma dec_small: "v < 10 \<Longrightarrow> dec v = [48 + of_nat v]"
  by (simp add: dec.simps)

lemma dec_step: "10 \<le> v \<Longrightarrow> dec v = dec (v div 10) @ [48 + of_nat (v mod 10)]"
  by (subst dec.simps) simp

lemma length_dec_step: "length (dec v) = (if v < 10 then 1 else Suc (length (dec (v div 10))))"
  by (subst dec.simps) simp

lemma length_dec_pow:
  "v < 10 ^ Suc n \<Longrightarrow> 10 ^ n \<le> v \<or> n = 0 \<Longrightarrow> length (dec v) = Suc n"
proof (induction n arbitrary: v)
  case (Suc n)
  moreover have "(1::nat) \<le> 10 ^ n" by simp
  ultimately have "v div 10 < 10 ^ Suc n" "10 ^ n \<le> v div 10 \<or> n = 0" "\<not> v < 10"
    by (auto simp: not_less intro: order_trans [rotated])
  with Suc.IH show ?case by (subst length_dec_step) simp
qed (simp add: dec_small)

lemma length_dec_div: "10 ^ n \<le> v \<Longrightarrow> length (dec v) = n + length (dec (v div 10 ^ n))"
proof (induction n arbitrary: v)
  case (Suc n)
  have "(1::nat) \<le> 10 ^ n" by simp
  then have "10 \<le> 10 * (10::nat) ^ n" by simp
  also have "\<dots> \<le> v" using Suc.prems by simp
  finally have "10 \<le> v" .
  moreover have "10 ^ n \<le> v div 10" using Suc.prems by auto
  ultimately show ?case
    using Suc.IH [of "v div 10"] by (subst length_dec_step) (simp add: div_mult2_eq [symmetric])
qed simp

lemma digits10_length_dec: "digits10 v = length (dec v)"
proof (induction v rule: digits10.induct)
  case (1 v)
  show ?case
  proof (cases "v < 1000000000000")
    case False
    with 1 have "digits10 (v div 1000000000000) = length (dec (v div 1000000000000))" by simp
    moreover have "length (dec v) = 12 + length (dec (v div 10 ^ 12))"
      using False by (intro length_dec_div) simp
    ultimately show ?thesis using False by (subst digits10.simps) simp
  next
    case True
    then show ?thesis
      using length_dec_pow [of v 0] length_dec_pow [of v 1] length_dec_pow [of v 2]
        length_dec_pow [of v 3] length_dec_pow [of v 4] length_dec_pow [of v 5]
        length_dec_pow [of v 6] length_dec_pow [of v 7] length_dec_pow [of v 8]
        length_dec_pow [of v 9] length_dec_pow [of v 10] length_dec_pow [of v 11]
      by (subst digits10.simps) simp
  qed
qed

section \<open>Printing\<close>

lemma length_digits_table: "length digits_table = 200"
  by (simp add: digits_table_def)

lemma digits_table_eq:
  "digits_table = concat (map (\<lambda>n. [48 + of_nat (n div 10), 48 + of_nat (n mod 10)]) [0..<100])"
  unfolding digits_table_def by (simp add: upt_rec)

lemma nth_concat_pairs:
  "n < m \<Longrightarrow> concat (map (\<lambda>n. [f n, g n]) [0..<m]) ! (n * 2) = f n \<and>
             concat (map (\<lambda>n. [f n, g n]) [0..<m]) ! Suc (n * 2) = g n"
proof (induction m)
  case (Suc m)
  have "length (concat (map (\<lambda>n. [f n, g n]) [0..<m])) = 2 * m" by (induction m) auto
  with Suc show ?case by (cases "n = m") (auto simp: nth_append)
qed simp

lemma digits_table_nth:
  assumes "n < 100"
  shows "digits_table ! (n * 2) = 48 + of_nat (n div 10)"
    and "digits_table ! Suc (n * 2) = 48 + of_nat (n mod 10)"
  using nth_concat_pairs [OF assms, of "\<lambda>n. 48 + (of_nat (n div 10) :: byte)" "\<lambda>n. 48 + of_nat (n mod 10)"]
  unfolding digits_table_eq by simp_all

lemma mem_write_1: "n = length xs \<Longrightarrow> mem_write n [y] (xs @ x # zs) = Some (xs @ y # zs)"
  by (simp add: mem_write_def)

lemma sub_u32_eq: "b \<le> a \<Longrightarrow> a < 2 ^ 32 \<Longrightarrow> sub_u32 a b = a - b"
  by (simp add: sub_u32_def nat_diff_distrib')

lemma mem_read_1: "i < length m \<Longrightarrow> mem_read i 1 m = Some [m ! i]"
  by (simp add: mem_read_def Cons_nth_drop_Suc [symmetric])

lemma dec_pair:
  "v < 100 \<Longrightarrow> 10 \<le> v \<Longrightarrow> dec v = [digits_table ! (v * 2), digits_table ! Suc (v * 2)]"
  using digits_table_nth [of v] by (simp add: dec_step [of v] dec_small)

lemma dec_step100:
  "100 \<le> v \<Longrightarrow> dec v = dec (v div 100) @
     [digits_table ! (v mod 100 * 2), digits_table ! Suc (v mod 100 * 2)]"
proof -
  assume v: "100 \<le> v"
  have "v mod (10 * 10) = 10 * (v div 10 mod 10) + v mod 10" by (rule mod_mult2_eq)
  then have "v mod 100 div 10 = v div 10 mod 10" "v mod 100 mod 10 = v mod 10" by simp_all
  then show ?thesis
    using v digits_table_nth [of "v mod 100"]
    by (simp add: dec_step [of v] dec_step [of "v div 10"] div_mult2_eq [symmetric])
qed

lemma put_pair_at:
  assumes "length A = n" "i + 1 < 200" "Suc n < 2 ^ 32"
  shows "put_pair (Suc n) i (A @ a # b # B) = Some (A @ digits_table ! i # digits_table ! Suc i # B)"
proof -
  have "mem_read (i + 1) 1 digits_table = Some [digits_table ! Suc i]"
    "mem_read i 1 digits_table = Some [digits_table ! i]"
    using assms(2) length_digits_table by (simp_all only: mem_read_1) (simp_all add: mem_read_def)
  moreover have "mem_write (Suc n) [c] (A @ a # b # B) = Some (A @ a # c # B)" for c
    using mem_write_1 [of "Suc n" "A @ [a]" c b B] assms(1) by simp
  moreover have "mem_write n [c] (A @ a # d # B) = Some (A @ c # d # B)" for c d
    using mem_write_1 [of n A c a "d # B"] assms(1) by simp
  moreover have "sub_u32 (Suc n) 1 = n" using assms(3) by (simp add: sub_u32_eq)
  ultimately show ?thesis by (simp add: put_pair_def)
qed

text \<open>The loop writes the decimal digits backwards, two at a time.\<close>

lemma ll2string_loop_spec:
  assumes "length A + length (dec v) < 2 ^ 32" "length G = length (dec v)"
  shows "\<exists>w G'. ll2string_loop v (length A + length (dec v) - 1) (A @ G @ B) =
      Some (w, length A + length (dec w) - 1, A @ G' @ drop (length (dec w)) (dec v) @ B) \<and>
    w < 100 \<and> length G' = length (dec w) \<and> take (length (dec w)) (dec v) = dec w"
  using assms
proof (induction v arbitrary: G B rule: less_induct)
  case (less v)
  show ?case
  proof (cases "100 \<le> v")
    case False
    then show ?thesis using less.prems by (subst ll2string_loop.simps) auto
  next
    case True
    let ?q = "v div 100" and ?i = "v mod 100 * 2"
    let ?two = "[digits_table ! ?i, digits_table ! Suc ?i]"
    note d = dec_step100 [OF True]
    obtain G0 a b where G: "G = G0 @ [a, b]" "length G0 = length (dec ?q)"
    proof -
      have "G = take (length (dec ?q)) G @ drop (length (dec ?q)) G" by simp
      moreover have "length (drop (length (dec ?q)) G) = 2" using less.prems(2) d by simp
      then obtain a b where "drop (length (dec ?q)) G = [a, b]"
        by (rule length_2E)
      ultimately show thesis using that [of "take (length (dec ?q)) G" a b] less.prems(2) d by simp
    qed
    have pos: "0 < length (dec ?q)" by (subst length_dec_step) simp
    let ?n = "length A + length (dec ?q)"
    have nx: "length A + length (dec v) - 1 = Suc ?n" using d by simp
    have put: "put_pair (Suc ?n) ?i (A @ G @ B) = Some (A @ G0 @ ?two @ B)"
      using put_pair_at [of "A @ G0" ?n ?i a b B] G less.prems(1) d by simp
    have "sub_u32 (Suc ?n) 2 = Suc ?n - 2" using less.prems(1) d pos
      by (intro sub_u32_eq) (auto simp: Suc_le_eq)
    then have "sub_u32 (Suc ?n) 2 = ?n - 1" using pos by simp
    with put nx True have step: "ll2string_loop v (length A + length (dec v) - 1) (A @ G @ B) =
        ll2string_loop ?q (?n - 1) (A @ G0 @ ?two @ B)"
      by (subst ll2string_loop.simps) simp
    obtain w G' where "ll2string_loop ?q (?n - 1) (A @ G0 @ ?two @ B) =
        Some (w, length A + length (dec w) - 1, A @ G' @ drop (length (dec w)) (dec ?q) @ ?two @ B)"
      and w: "w < 100" "length G' = length (dec w)" "take (length (dec w)) (dec ?q) = dec w"
      using less.IH [of ?q G0 "?two @ B"] less.prems(1) G(2) d True by auto
    moreover have "length (dec w) \<le> length (dec ?q)"
      using arg_cong [OF w(3), of length] by simp
    ultimately show ?thesis using step d by auto
  qed
qed

lemma dec_nonempty: "dec v \<noteq> []"
  by (subst dec.simps) simp

lemma length_dec_le: "v < 10 ^ Suc n \<Longrightarrow> length (dec v) \<le> Suc n"
proof (induction n arbitrary: v)
  case (Suc n)
  then have "v div 10 < 10 ^ Suc n" by auto
  with Suc.IH [of "v div 10"] show ?case by (subst length_dec_step) simp
qed (simp add: dec_small)

lemma length_dec_u64: "v < 2 ^ 64 \<Longrightarrow> length (dec v) \<le> 20"
  using length_dec_le [of v 19] by simp

text \<open>Digits written between a prefix \<open>A\<close> and a suffix \<open>B\<close> of the buffer.\<close>

lemma ll2string_digits:
  assumes "length A + length (dec v) < 2 ^ 32" "length G = length (dec v)"
  shows "do { (value, nxt, dst) \<leftarrow> ll2string_loop v (length A + length (dec v) - 1) (A @ G @ B);
              if value < 10 then mem_write nxt [48 + of_nat value] dst
              else put_pair nxt (value * 2) dst } = Some (A @ dec v @ B)"
proof -
  obtain w G' where L: "ll2string_loop v (length A + length (dec v) - 1) (A @ G @ B) =
      Some (w, length A + length (dec w) - 1, A @ G' @ drop (length (dec w)) (dec v) @ B)"
    and w: "w < 100" "length G' = length (dec w)" "take (length (dec w)) (dec v) = dec w"
    using ll2string_loop_spec [OF assms] by blast
  define R where "R = drop (length (dec w)) (dec v)"
  have v: "dec v = dec w @ R"
    using w(3) unfolding R_def by (metis append_take_drop_id)
  note L = L [folded R_def]
  show ?thesis
  proof (cases "w < 10")
    case True
    then have dw: "dec w = [48 + of_nat w]" by (rule dec_small)
    with w(2) obtain g where "G' = [g]" by (auto simp: length_Suc_conv)
    then have "mem_write (length A) [48 + of_nat w] (A @ G' @ R @ B) = Some (A @ dec w @ R @ B)"
      using dw by (simp add: mem_write_def)
    with L True dw v show ?thesis by simp
  next
    case False
    then have dw: "dec w = [digits_table ! (w * 2), digits_table ! Suc (w * 2)]"
      using w(1) by (intro dec_pair) auto
    with w(2) have "length G' = 2" by simp
    then obtain g h where "G' = [g, h]" by (rule length_2E)
    moreover have "Suc (length A) < 2 ^ 32"
      using assms(1) v dw by simp
    ultimately have "put_pair (Suc (length A)) (w * 2) (A @ G' @ R @ B) = Some (A @ dec w @ R @ B)"
      using put_pair_at [of A "length A" "w * 2" g h "R @ B"] w(1) dw by simp
    with L False dw v show ?thesis by simp
  qed
qed

lemma ll_abs_eq: "int64 v \<Longrightarrow> v < 0 \<Longrightarrow> ll_abs v = nat (- v)"
  by (auto simp: ll_abs_def int_fits_def)

lemma ll_repr_length: "int64 v \<Longrightarrow> length (ll_repr v) \<le> 21"
proof -
  assume "int64 v"
  then have "nat (- v) < 2 ^ 64" "nat v < 2 ^ 64" by (auto simp: int_fits_def)
  then show ?thesis using length_dec_u64 [of "nat (- v)"] length_dec_u64 [of "nat v"]
    by (auto simp: ll_repr_def)
qed

lemma ll2string_spec:
  assumes "int64 v" "dstlen \<le> length dst"
  shows "ll2string dst dstlen v =
    (if length (ll_repr v) < dstlen
     then Some (length (ll_repr v), ll_repr v @ [0] @ drop (Suc (length (ll_repr v))) dst)
     else Some (0, dst))"
proof -
  define neg where "neg = (if v < 0 then 1 else 0 :: nat)"
  define u where "u = (if v < 0 then ll_abs v else nat v)"
  have u: "ll_repr v = replicate neg 45 @ dec u"
    using assms(1) by (simp add: ll_repr_def neg_def u_def ll_abs_eq)
  then have len: "length (ll_repr v) = digits10 u + neg" by (simp add: digits10_length_dec)
  show ?thesis
  proof (cases "length (ll_repr v) < dstlen")
    case False
    with len show ?thesis by (simp add: ll2string_def neg_def u_def)
  next
    case True
    let ?n = "length (ll_repr v)"
    define A where "A = take neg dst"
    define G where "G = take (length (dec u)) (drop neg dst)"
    define B where "B = 0 # drop (Suc ?n) dst"
    have A: "length A = neg" and G: "length G = length (dec u)"
      using True assms(2) len by (auto simp: A_def G_def digits10_length_dec)
    have "take ?n dst = A @ G"
      using u by (simp add: A_def G_def take_add [symmetric])
    then have "mem_write ?n [0] dst = Some (A @ G @ B)"
      using True assms(2) by (simp add: mem_write_def B_def)
    moreover have "sub_u32 ?n 1 = length A + length (dec u) - 1"
      using ll_repr_length [OF assms(1)] dec_nonempty [of u] u A by (simp add: sub_u32_eq Suc_le_eq)
    moreover have "length A + length (dec u) < 2 ^ 32"
      using ll_repr_length [OF assms(1)] u A by simp
    then obtain w nx d where
      "ll2string_loop u (length A + length (dec u) - 1) (A @ G @ B) = Some (w, nx, d)"
      "(if w < 10 then mem_write nx [48 + of_nat w] d else put_pair nx (w * 2) d) = Some (A @ dec u @ B)"
      using ll2string_digits [OF _ G, of A B] by (auto simp: bind_eq_Some_conv simp del: if_split)
    moreover have "(if neg = 1 then mem_write 0 [45] (A @ dec u @ B) else Some (A @ dec u @ B)) =
        Some (ll_repr v @ B)"
      using A u by (cases A) (auto simp: neg_def mem_write_def split: if_splits)
    ultimately show ?thesis
      using True len unfolding ll2string_def Let_def neg_def [symmetric] u_def [symmetric]
      by (simp add: B_def [symmetric] del: if_split) (simp add: B_def)
  qed
qed

section \<open>Parsing\<close>

text \<open>The value of a digit string read after the accumulator \<open>v\<close>.\<close>

fun dec_val :: "nat \<Rightarrow> byte list \<Rightarrow> nat" where
  "dec_val v [] = v"
| "dec_val v (c # p) = dec_val (v * 10 + unat (c - 48)) p"

lemma dec_val_append: "dec_val v (p @ q) = dec_val (dec_val v p) q"
  by (induction p arbitrary: v) auto

lemma dec_val_ge: "v \<le> dec_val v p"
proof (induction p arbitrary: v)
  case (Cons c p)
  from Cons [of "v * 10 + unat (c - 48)"] show ?case by simp
qed simp

lemma digit_byte: "d < 10 \<Longrightarrow> is_digit (48 + of_nat d) \<and> unat ((48 + of_nat d :: byte) - 48) = d"
  by (simp add: is_digit_def word_le_nat_alt unat_word_ariths unat_of_nat)

lemma digit_unat: "is_digit c \<Longrightarrow> unat (c - 48) < 10 \<and> c = 48 + of_nat (unat (c - 48))"
proof -
  assume "is_digit c"
  then have "unat (c - 48) = unat c - 48" "unat c \<le> 57"
    by (auto simp: is_digit_def unat_sub word_le_nat_alt)
  moreover have "48 + of_nat (unat (c - 48)) = c" by simp
  ultimately show ?thesis by simp
qed

lemma string2ll_loop_spec:
  "v < 2 ^ 64 \<Longrightarrow> string2ll_loop v p =
     (let ds = takeWhile is_digit p; r = dropWhile is_digit p in
      if dec_val v ds < 2 ^ 64 then Some (dec_val v ds, r) else None)"
proof (induction v p rule: string2ll_loop.induct)
  case (2 v c p)
  show ?case
  proof (cases "is_digit c")
    case True
    let ?d = "unat (c - 48)"
    have d: "?d < 10" using digit_unat [OF True] by blast
    show ?thesis
    proof (cases "v * 10 + ?d < 2 ^ 64")
      case small: True
      then have "\<not> v > (2 ^ 64 - 1) div 10" "\<not> v * 10 > 2 ^ 64 - 1 - ?d" by auto
      with 2(1) [OF True] small True show ?thesis by simp
    next
      case False
      then have "v > (2 ^ 64 - 1) div 10 \<or> v * 10 > 2 ^ 64 - 1 - ?d" using d by auto
      moreover have "\<not> dec_val (v * 10 + ?d) (takeWhile is_digit p) < 2 ^ 64"
        using dec_val_ge [of "v * 10 + ?d" "takeWhile is_digit p"] False by linarith
      ultimately show ?thesis using True by auto
    qed
  qed (use 2(2) in simp)
qed simp

text \<open>Canonical digit strings are exactly the decimal notations of positive numbers.\<close>

lemma dec_digits: "list_all is_digit (dec v)"
  by (induction v rule: dec.induct) (subst dec.simps, auto simp: digit_byte)

lemma dec_val_dec: "dec_val 0 (dec v) = v"
proof (induction v rule: dec.induct)
  case (1 v)
  then show ?case
    by (cases "v < 10") (simp_all add: dec_small dec_step dec_val_append unat_of_nat)
qed

lemma dec_of_dec_val:
  "0 < v \<Longrightarrow> list_all is_digit p \<Longrightarrow> dec (dec_val v p) = dec v @ p"
proof (induction p arbitrary: v)
  case (Cons c p)
  let ?d = "unat (c - 48)"
  have d: "?d < 10" "c = 48 + of_nat ?d" using digit_unat Cons.prems(2) by auto
  have "dec (v * 10 + ?d) = dec v @ [c]"
    using Cons.prems(1) d by (subst dec_step) simp_all
  with Cons show ?case by simp
qed simp

lemma dec_hd: "0 < v \<Longrightarrow> 49 \<le> hd (dec v) \<and> hd (dec v) \<le> 57"
proof (induction v rule: dec.induct)
  case (1 v)
  show ?case
  proof (cases "v < 10")
    case True
    then show ?thesis using 1(2)
      by (simp add: dec_small word_le_nat_alt unat_word_ariths unat_of_nat)
  next
    case False
    with 1 dec_nonempty [of "v div 10"] show ?thesis by (simp add: dec_step)
  qed
qed

lemma string2ll_loop_dec:
  assumes "49 \<le> c" "c \<le> 57"
  shows "string2ll_loop (unat (c - 48)) t = Some (u, []) \<longleftrightarrow> u < 2 ^ 64 \<and> c # t = dec u"
proof -
  let ?d = "unat (c - 48)"
  have dig: "is_digit c" using assms by (auto simp: is_digit_def word_le_nat_alt)
  then have d: "?d < 10" "c = 48 + of_nat ?d" using digit_unat by auto
  have "?d = unat c - 48" "49 \<le> unat c"
    using assms by (auto simp: unat_sub word_le_nat_alt)
  then have pos: "0 < ?d" by simp
  have dc: "dec ?d = [c]" using d by (simp add: dec_small)
  have "string2ll_loop ?d t = Some (u, []) \<longleftrightarrow> list_all is_digit t \<and> u = dec_val ?d t \<and> u < 2 ^ 64"
  proof -
    have d64: "?d < 2 ^ 64" using d(1) by simp
    have tw: "takeWhile is_digit t = t" "dropWhile is_digit t = []" if "list_all is_digit t"
      using that by (simp_all add: list_all_iff)
    have dw: "dropWhile is_digit t \<noteq> []" if "\<not> list_all is_digit t"
      using that by (simp add: list_all_iff)
    show ?thesis
      using string2ll_loop_spec [OF d64, of t] tw dw by (cases "list_all is_digit t") (auto simp: Let_def)
  qed
  also have "\<dots> \<longleftrightarrow> u < 2 ^ 64 \<and> c # t = dec u"
  proof
    assume "list_all is_digit t \<and> u = dec_val ?d t \<and> u < 2 ^ 64"
    then show "u < 2 ^ 64 \<and> c # t = dec u" using dec_of_dec_val [OF pos, of t] dc by simp
  next
    assume u: "u < 2 ^ 64 \<and> c # t = dec u"
    then have "dec_val 0 (c # t) = u" using dec_val_dec [of u] by simp
    with u dec_digits [of u] show "list_all is_digit t \<and> u = dec_val ?d t \<and> u < 2 ^ 64"
      by (metis add_0 dec_val.simps(2) list.pred_inject(2) mult_0)
  qed
  finally show ?thesis .
qed

text \<open>Parsing of an optional sign and a digit string, without the special case of zero.\<close>

lemma string2ll_signed:
  assumes "s \<noteq> [48]"
  shows "string2ll s = Some v \<longleftrightarrow> v \<noteq> 0 \<and> int64 v \<and> s = ll_repr v"
proof (cases s)
  case Nil
  then show ?thesis using dec_nonempty [of "nat v"] by (auto simp: string2ll_def ll_repr_def dest: sym)
next
  case (Cons a t)
  define neg where "neg \<longleftrightarrow> a = 45"
  define p where "p = (if neg then t else s)"
  have ns: "\<not> (length s = 1 \<and> hd s = 48)" using assms by (cases s) auto
  have hd0: "hd (dec u) \<noteq> 45" if "0 < u" for u
    using dec_hd [OF that] by (auto simp: word_le_nat_alt)
  have repr: "s = ll_repr v \<longleftrightarrow> neg = (v < 0) \<and> p = dec (nat \<bar>v\<bar>)" if "v \<noteq> 0" for v
    using that hd0 [of "nat v"] Cons by (auto simp: ll_repr_def p_def neg_def abs_if dest: sym)
  have unf: "string2ll s = (if p \<noteq> [] \<and> 49 \<le> hd p \<and> hd p \<le> 57
    then do { (u, rest) \<leftarrow> string2ll_loop (unat (hd p - 48)) (tl p);
        if rest \<noteq> [] then None
        else if neg then (if u > 2 ^ 63 then None else Some (to_signed 8 (- int u mod 2 ^ 64)))
        else if u > 2 ^ 63 - 1 then None else Some (int u) }
    else None)"
  proof -
    have n: "(hd s = 45) = neg" and e: "(if neg then tl s else s) = p" and "s \<noteq> []"
      using Cons by (simp_all add: p_def neg_def)
    then show ?thesis using ns unfolding string2ll_def Let_def n e by auto
  qed
  show ?thesis
  proof (cases "p \<noteq> [] \<and> 49 \<le> hd p \<and> hd p \<le> 57")
    case False
    then have "string2ll s = None" using unf by auto
    moreover have "v \<noteq> 0 \<Longrightarrow> p \<noteq> dec (nat \<bar>v\<bar>)"
      using False dec_hd [of "nat \<bar>v\<bar>"] dec_nonempty [of "nat \<bar>v\<bar>"] by auto
    ultimately show ?thesis using repr by auto
  next
    case True
    then obtain c q where p: "p = c # q" "49 \<le> c" "c \<le> 57" by (cases p) auto
    have "string2ll s = do { (u, rest) \<leftarrow> string2ll_loop (unat (c - 48)) q;
        if rest \<noteq> [] then None
        else if neg then (if u > 2 ^ 63 then None else Some (to_signed 8 (- int u mod 2 ^ 64)))
        else if u > 2 ^ 63 - 1 then None else Some (int u) }"
      using unf p by simp
    moreover have "to_signed 8 (- int u mod 2 ^ 64) = - int u" if "u \<le> 2 ^ 63" for u
      using that to_signed_mod [of 8 "- int u"] by (simp add: int_fits_def)
    ultimately have "string2ll s = Some v \<longleftrightarrow> (\<exists>u. string2ll_loop (unat (c - 48)) q = Some (u, []) \<and>
        (if neg then u \<le> 2 ^ 63 \<and> v = - int u else u < 2 ^ 63 \<and> v = int u))"
      by (cases "string2ll_loop (unat (c - 48)) q"; cases neg) (auto simp: not_less split: if_splits)
    also have "\<dots> \<longleftrightarrow> (\<exists>u. u < 2 ^ 64 \<and> p = dec u \<and>
        (if neg then u \<le> 2 ^ 63 \<and> v = - int u else u < 2 ^ 63 \<and> v = int u))"
      using string2ll_loop_dec [OF p(2,3)] p(1) by simp
    also have "\<dots> \<longleftrightarrow> v \<noteq> 0 \<and> int64 v \<and> neg = (v < 0) \<and> p = dec (nat \<bar>v\<bar>)"
    proof -
      have p0: "p \<noteq> dec 0" using p by (auto simp: dec_small)
      then have "p = dec u \<Longrightarrow> 0 < u" for u by (cases u) auto
      with p0 show ?thesis
        by (auto simp: int_fits_def split: if_splits intro!: exI [of _ "nat \<bar>v\<bar>"])
    qed
    finally show ?thesis using repr by auto
  qed
qed

lemma string2ll_iff: "string2ll s = Some v \<longleftrightarrow> int64 v \<and> s = ll_repr v"
proof (cases "s = [48]")
  case True
  have "ll_repr 0 = [48]" by (simp add: ll_repr_def dec_small)
  moreover have "ll_repr v = [48] \<Longrightarrow> v = 0"
  proof -
    assume a: "ll_repr v = [48]"
    have "0 < v \<Longrightarrow> hd (dec (nat v)) \<noteq> 48" using dec_hd [of "nat v"] by (auto simp: word_le_nat_alt)
    with a show ?thesis by (cases "v < 0"; cases "v = 0") (auto simp: ll_repr_def)
  qed
  moreover have "string2ll s = Some 0" "int64 0" using True by (simp_all add: string2ll_def int_fits_def)
  ultimately show ?thesis using True by (metis option.inject)
next
  case False
  moreover have "ll_repr 0 = [48]" by (simp add: ll_repr_def dec_small)
  ultimately show ?thesis using string2ll_signed [OF False, of v] by auto
qed

section \<open>Properties\<close>

text \<open>C11.  \<open>string2ll\<close> accepts exactly the canonical decimal notations of 64-bit integers: no
  leading zeros, no plus sign, no spaces, no minus zero, no value out of range; and it returns the
  value denoted.\<close>

theorem string2ll_exact: "string2ll s = Some v \<longleftrightarrow> int64 v \<and> s = ll_repr v"
  by (rule string2ll_iff)

text \<open>\<open>ll2string\<close> stays inside the caller's buffer, writes the canonical decimal notation
  followed by a zero byte and returns its length when the buffer has room for both, and otherwise
  returns 0 and leaves the buffer alone.\<close>

lemma ll2string_correct:
  assumes "int64 v" "dstlen \<le> length dst"
  shows "ll2string dst dstlen v =
    (if length (ll_repr v) < dstlen
     then Some (length (ll_repr v), ll_repr v @ [0] @ drop (Suc (length (ll_repr v))) dst)
     else Some (0, dst))"
  using assms by (rule ll2string_spec)

text \<open>C26.  Printing a 64-bit integer and parsing the bytes printed gives the integer back, and 21
  bytes of buffer always suffice for the digits.\<close>

theorem ll2string_string2ll:
  assumes "int64 v" "22 \<le> dstlen" "dstlen \<le> length dst"
  shows "\<exists>n dst'. ll2string dst dstlen v = Some (n, dst') \<and> n \<le> 21 \<and>
    string2ll (take n dst') = Some v"
  using assms ll2string_spec [OF assms(1,3)] ll_repr_length [OF assms(1)] string2ll_iff by auto

theorem ll2string_string2ll_witness:
  "\<exists>n dst'. ll2string (replicate 22 0) 22 (- (2 ^ 63)) = Some (n, dst') \<and> n \<le> 21 \<and>
     string2ll (take n dst') = Some (- (2 ^ 63))"
  using ll2string_string2ll [of "- (2 ^ 63)" 22 "replicate 22 0"] by (simp add: int_fits_def)

text \<open>The comparison cascade of \<open>digits10\<close> computes the number of decimal digits, for
  unsigned integers of any size, and \<open>sdigits10\<close> the length of the signed notation.\<close>

lemma digits10_correct:
  "digits10 n = length (dec n) \<and> (int64 v \<longrightarrow> sdigits10 v = length (ll_repr v))"
  by (auto simp: digits10_length_dec sdigits10_def ll_repr_def ll_abs_eq)

end
