(* ===== verification/Redis_Server.thy ===== *)
theory Redis_Server
  imports Redis_Util
begin

text \<open>
  The shared state of the server (\<open>server.h\<close>), string objects (\<open>object.c\<close>), replies and
  propagation.  A dictionary of the keyspace is the map it represents, a client and a database are
  named by their index, and a pointer to a client or database is that index.  A failed
  \<open>serverAssert\<close> or \<open>serverPanic\<close> is \<^const>\<open>None\<close>.  The clock read by \<open>mstime()\<close> is the field \<open>now\<close>,
  fixed during one command.  Reference counts, the access clock \<open>lru\<close> and the memory-saving
  distinction between the raw and the embedded encoding have no influence on the modelled results.
\<close>

section \<open>Objects\<close>

type_synonym sds = "byte list"

datatype obj_type = OBJ_LIST | OBJ_SET | OBJ_ZSET | OBJ_HASH | OBJ_STREAM

text \<open>A string object is an integer or a byte string; the contents of the other types are opaque.\<close>

datatype robj = Str_int int | Str_sds sds | Coll obj_type sds

definition is_string :: "robj \<Rightarrow> bool" where
  "is_string ob \<longleftrightarrow> (case ob of Coll _ _ \<Rightarrow> False | _ \<Rightarrow> True)"

definition ll2sds :: "int \<Rightarrow> sds" where
  "ll2sds v = (case ll2string (replicate 32 0) 32 v of Some (n, buf) \<Rightarrow> take n buf | None \<Rightarrow> [])"

definition tryObjectEncoding :: "sds \<Rightarrow> robj" where
  "tryObjectEncoding s =
     (case (if length s \<le> 20 then string2l s else None) of
        Some value \<Rightarrow> Str_int value
      | None \<Rightarrow> Str_sds s)"

definition getDecodedObject :: "robj \<Rightarrow> sds option" where
  "getDecodedObject ob =
     (case ob of Str_sds s \<Rightarrow> Some s | Str_int v \<Rightarrow> Some (ll2sds v) | Coll _ _ \<Rightarrow> None)"

definition stringObjectLen :: "robj \<Rightarrow> nat option" where
  "stringObjectLen ob =
     (case ob of Str_sds s \<Rightarrow> Some (length s) | Str_int v \<Rightarrow> Some (sdigits10 v) | Coll _ _ \<Rightarrow> None)"

definition createStringObjectFromLongLongForValue :: "int \<Rightarrow> robj" where
  "createStringObjectFromLongLongForValue value =
     (if - (2 ^ 63) \<le> value \<and> value \<le> 2 ^ 63 - 1 then Str_int value else Str_sds (ll2sds value))"

text \<open>The outer option is the assertion on the type, the inner one \<open>C_ERR\<close>.\<close>

definition getLongLongFromObject :: "robj option \<Rightarrow> int option option" where
  "getLongLongFromObject ob =
     (case ob of None \<Rightarrow> Some (Some 0)
      | Some (Str_sds s) \<Rightarrow> Some (string2ll s)
      | Some (Str_int v) \<Rightarrow> Some (Some v)
      | Some (Coll _ _) \<Rightarrow> None)"

text \<open>Two's complement arithmetic of \<open>long long\<close>.\<close>

definition ll_wrap :: "int \<Rightarrow> int" where
  "ll_wrap v = to_signed 8 (v mod 2 ^ 64)"

section \<open>Replies\<close>

datatype reply_err =
    E_wrongtype | E_syntax | E_nokey | E_outofrange | E_sameobject | E_execabort | E_noauth | E_oom
  | E_bgsave | E_misconf | E_noreplicas | E_roslave | E_masterdown | E_loading | E_slowscript
  | E_redirect | E_msg string

datatype reply =
    R_ok | R_queued | R_pong | R_nullbulk | R_nullmultibulk | R_emptybulk
  | R_longlong int | R_status string | R_bulk sds | R_multibulklen nat | R_error reply_err

section \<open>Commands, clients, databases\<close>

datatype cmd_flag = CMD_WRITE | CMD_READONLY | CMD_DENYOOM | CMD_ADMIN | CMD_PUBSUB | CMD_NOSCRIPT
  | CMD_RANDOM | CMD_SORT_FOR_SCRIPT | CMD_LOADING | CMD_STALE | CMD_SKIP_MONITOR | CMD_ASKING | CMD_FAST

datatype proc =
    P_get | P_set | P_setnx | P_setex | P_psetex | P_append | P_strlen | P_del | P_unlink | P_exists
  | P_setrange | P_getrange | P_incr | P_decr | P_mget | P_incrby | P_decrby | P_getset | P_mset | P_msetnx
  | P_select | P_swapdb | P_move | P_rename | P_renamenx | P_expire | P_expireat | P_pexpire | P_pexpireat
  | P_dbsize | P_auth | P_ping | P_type | P_ttl | P_pttl | P_persist | P_touch | P_multi | P_exec
  | P_discard | P_watch | P_unwatch | P_flushdb | P_flushall

record redisCommand =
  proc_of :: proc
  arity :: int
  cflags :: "cmd_flag set"

datatype client_flag = CLIENT_MULTI | CLIENT_DIRTY_CAS | CLIENT_DIRTY_EXEC | CLIENT_MASTER
  | CLIENT_LUA | CLIENT_PUBSUB | CLIENT_CLOSE_AFTER_REPLY | CLIENT_FORCE_AOF | CLIENT_FORCE_REPL
  | CLIENT_PREVENT_AOF_PROP | CLIENT_PREVENT_REPL_PROP

record multiCmd =
  mc_cmd :: redisCommand
  mc_argv :: "sds list"

record multiState =
  commands :: "multiCmd list"
  cmd_flags :: "cmd_flag set"

record client =
  db :: nat
  argv :: "sds list"
  cmd :: redisCommand
  flags :: "client_flag set"
  mstate :: multiState
  watched_keys :: "(nat \<times> sds) list"
  authenticated :: bool
  reply :: "reply list"

record redisDb =
  db_dict :: "sds \<rightharpoonup> robj"
  db_expires :: "sds \<rightharpoonup> int"
  db_watched :: "sds \<rightharpoonup> nat list"

datatype disk_error = DISK_ERROR_TYPE_NONE | DISK_ERROR_TYPE_RDB | DISK_ERROR_TYPE_AOF

record server =
  dbs :: "nat \<Rightarrow> redisDb"
  dbnum :: nat
  clients :: "nat \<Rightarrow> client"
  client_list :: "nat list"
  current_client :: "nat option"
  master :: "nat option"
  now :: int
  loading :: bool
  lua_caller :: bool
  lua_time_start :: int
  lua_timedout :: bool
  masterhost :: bool
  master_up :: bool
  repl_slave_ro :: bool
  repl_serve_stale_data :: bool
  enough_good_slaves :: bool
  disk_error :: disk_error
  out_of_memory :: bool
  requirepass :: "sds option"
  cluster_redirect :: "nat \<Rightarrow> bool"
  lazyfree_lazy_expire :: bool
  aof_on :: bool
  dirty :: int
  stat_expiredkeys :: nat
  stat_keyspace_hits :: nat
  stat_keyspace_misses :: nat
  events :: "(string \<times> sds \<times> nat) list"
  aof :: "(nat \<times> sds list) list"
  repl :: "(nat \<times> sds list) list"

definition upd_client :: "nat \<Rightarrow> (client \<Rightarrow> client) \<Rightarrow> server \<Rightarrow> server" where
  "upd_client c f s = s\<lparr>clients := (clients s)(c := f (clients s c))\<rparr>"

definition upd_db :: "nat \<Rightarrow> (redisDb \<Rightarrow> redisDb) \<Rightarrow> server \<Rightarrow> server" where
  "upd_db i f s = s\<lparr>dbs := (dbs s)(i := f (dbs s i))\<rparr>"

definition addReply :: "nat \<Rightarrow> reply \<Rightarrow> server \<Rightarrow> server" where
  "addReply c r s = upd_client c (\<lambda>cl. cl\<lparr>reply := reply cl @ [r]\<rparr>) s"

abbreviation addReplyError :: "nat \<Rightarrow> string \<Rightarrow> server \<Rightarrow> server" where
  "addReplyError c m s \<equiv> addReply c (R_error (E_msg m)) s"

definition arg :: "nat \<Rightarrow> nat \<Rightarrow> server \<Rightarrow> sds option" where
  "arg c j s = (let a = argv (clients s c) in if j < length a then Some (a ! j) else None)"

definition notifyKeyspaceEvent :: "string \<Rightarrow> sds \<Rightarrow> nat \<Rightarrow> server \<Rightarrow> server" where
  "notifyKeyspaceEvent event key dbid s = s\<lparr>events := events s @ [(event, key, dbid)]\<rparr>"

definition incr_dirty :: "int \<Rightarrow> server \<Rightarrow> server" where
  "incr_dirty n s = s\<lparr>dirty := dirty s + n\<rparr>"

text \<open>A replica does not feed its own replicas from command execution.\<close>

definition propagate :: "nat \<Rightarrow> sds list \<Rightarrow> bool \<Rightarrow> bool \<Rightarrow> server \<Rightarrow> server" where
  "propagate dbid av to_aof to_repl s =
     (let s = (if aof_on s \<and> to_aof then s\<lparr>aof := aof s @ [(dbid, av)]\<rparr> else s)
      in if to_repl \<and> \<not> masterhost s then s\<lparr>repl := repl s @ [(dbid, av)]\<rparr> else s)"

text \<open>\<open>getLongLongFromObjectOrReply\<close> on a command argument: the value, or the state with the error reply.\<close>

definition getLongLongOrReply :: "nat \<Rightarrow> robj option \<Rightarrow> server \<Rightarrow> (server + int) option" where
  "getLongLongOrReply c ob s = do {
     r \<leftarrow> getLongLongFromObject ob;
     Some (case r of None \<Rightarrow> Inl (addReplyError c ''value is not an integer or out of range'' s)
           | Some v \<Rightarrow> Inr v) }"

text \<open>\<open>getLongFromObjectOrReply\<close>: \<open>long\<close> has 64 bits.\<close>

definition getLongOrReply :: "nat \<Rightarrow> robj option \<Rightarrow> string \<Rightarrow> server \<Rightarrow> (server + int) option" where
  "getLongOrReply c ob msg s = do {
     r \<leftarrow> getLongLongFromObject ob;
     Some (case r of None \<Rightarrow> Inl (addReplyError c msg s)
           | Some v \<Rightarrow>
               if v < - (2 ^ 63) \<or> v > 2 ^ 63 - 1 then Inl (addReplyError c msg s) else Inr v) }"

text \<open>\<open>checkType\<close> for strings.\<close>

definition checkType_string :: "nat \<Rightarrow> robj \<Rightarrow> server \<Rightarrow> server option" where
  "checkType_string c ob s = (if is_string ob then None else Some (addReply c (R_error E_wrongtype) s))"

section \<open>The command table\<close>

definition to_lower :: "byte \<Rightarrow> byte" where
  "to_lower b = (if 65 \<le> b \<and> b \<le> 90 then b + 32 else b)"

text \<open>\<open>!strcasecmp(a, lit)\<close> on C strings, which end at the first zero byte.\<close>

definition strcaseeq :: "sds \<Rightarrow> string \<Rightarrow> bool" where
  "strcaseeq a lit \<longleftrightarrow> map to_lower (takeWhile (\<lambda>b. b \<noteq> 0) a) = map to_lower (str_bytes lit)"

definition redisCommandTable :: "(string \<times> proc \<times> int \<times> string) list" where
  "redisCommandTable = [
     (''get'', P_get, 2, ''rF''), (''set'', P_set, -3, ''wm''), (''setnx'', P_setnx, 3, ''wmF''),
     (''setex'', P_setex, 4, ''wm''), (''psetex'', P_psetex, 4, ''wm''), (''append'', P_append, 3, ''wm''),
     (''strlen'', P_strlen, 2, ''rF''), (''del'', P_del, -2, ''w''), (''unlink'', P_unlink, -2, ''wF''),
     (''exists'', P_exists, -2, ''rF''), (''setrange'', P_setrange, 4, ''wm''),
     (''getrange'', P_getrange, 4, ''r''), (''substr'', P_getrange, 4, ''r''),
     (''incr'', P_incr, 2, ''wmF''), (''decr'', P_decr, 2, ''wmF''), (''mget'', P_mget, -2, ''rF''),
     (''incrby'', P_incrby, 3, ''wmF''), (''decrby'', P_decrby, 3, ''wmF''),
     (''getset'', P_getset, 3, ''wm''), (''mset'', P_mset, -3, ''wm''), (''msetnx'', P_msetnx, -3, ''wm''),
     (''select'', P_select, 2, ''lF''), (''swapdb'', P_swapdb, 3, ''wF''), (''move'', P_move, 3, ''wF''),
     (''rename'', P_rename, 3, ''w''), (''renamenx'', P_renamenx, 3, ''wF''),
     (''expire'', P_expire, 3, ''wF''), (''expireat'', P_expireat, 3, ''wF''),
     (''pexpire'', P_pexpire, 3, ''wF''), (''pexpireat'', P_pexpireat, 3, ''wF''),
     (''dbsize'', P_dbsize, 1, ''rF''), (''auth'', P_auth, 2, ''sltF''), (''ping'', P_ping, -1, ''tF''),
     (''type'', P_type, 2, ''rF''), (''multi'', P_multi, 1, ''sF''), (''exec'', P_exec, 1, ''sM''),
     (''discard'', P_discard, 1, ''sF''), (''flushdb'', P_flushdb, -1, ''w''),
     (''flushall'', P_flushall, -1, ''w''), (''ttl'', P_ttl, 2, ''rFR''), (''touch'', P_touch, -2, ''rF''),
     (''pttl'', P_pttl, 2, ''rFR''), (''persist'', P_persist, 2, ''wF''),
     (''watch'', P_watch, -2, ''sF''), (''unwatch'', P_unwatch, 1, ''sF'')]"

definition flag_of_char :: "char \<Rightarrow> cmd_flag option" where
  "flag_of_char f = map_of
     [(CHR ''w'', CMD_WRITE), (CHR ''r'', CMD_READONLY), (CHR ''m'', CMD_DENYOOM), (CHR ''a'', CMD_ADMIN),
      (CHR ''p'', CMD_PUBSUB), (CHR ''s'', CMD_NOSCRIPT), (CHR ''R'', CMD_RANDOM),
      (CHR ''S'', CMD_SORT_FOR_SCRIPT), (CHR ''l'', CMD_LOADING), (CHR ''t'', CMD_STALE),
      (CHR ''M'', CMD_SKIP_MONITOR), (CHR ''k'', CMD_ASKING), (CHR ''F'', CMD_FAST)] f"

text \<open>\<open>populateCommandTable\<close>: the flag characters of an entry as a set.\<close>

definition command_of :: "proc \<times> int \<times> string \<Rightarrow> redisCommand" where
  "command_of e =
     (case e of (p, ar, sflags) \<Rightarrow>
        \<lparr>proc_of = p, arity = ar, cflags = set (List.map_filter flag_of_char sflags)\<rparr>)"

text \<open>The table is a dictionary that hashes the whole name without regard to case, so a name must agree in full: a zero
  byte and what follows it count (\<open>strcasecmp\<close>, which would stop there, only sees keys of the same bucket).\<close>

definition lookupCommand :: "sds \<Rightarrow> redisCommand option" where
  "lookupCommand name =
     map_option (\<lambda>(_, e). command_of e)
       (List.find (\<lambda>(n, _). map to_lower name = map to_lower (str_bytes n)) redisCommandTable)"

section \<open>Facts on objects\<close>

lemma ll2sds_repr: "int64 v \<Longrightarrow> ll2sds v = ll_repr v"
  using ll2string_spec [of v 32 "replicate 32 0"] ll_repr_length [of v]
  by (simp add: ll2sds_def split: if_splits)

section \<open>An example state\<close>

text \<open>A master with two databases and two clients, used to instantiate the properties; client 0 is in
  database 0, client 1 too.\<close>

definition example_client :: client where
  "example_client =
     \<lparr>db = 0, argv = [], cmd = \<lparr>proc_of = P_ping, arity = -1, cflags = {}\<rparr>, flags = {},
      mstate = \<lparr>commands = [], cmd_flags = {}\<rparr>, watched_keys = [], authenticated = True, reply = []\<rparr>"

definition example_server :: "(sds \<rightharpoonup> robj) \<Rightarrow> (sds \<rightharpoonup> int) \<Rightarrow> server" where
  "example_server d e =
     \<lparr>dbs = (\<lambda>i. \<lparr>db_dict = (if i = 0 then d else Map.empty), db_expires = (if i = 0 then e else Map.empty),
                  db_watched = Map.empty\<rparr>),
      dbnum = 2, clients = (\<lambda>c. example_client), client_list = [0, 1], current_client = None, master = None,
      now = 1000, loading = False, lua_caller = False, lua_time_start = 0, lua_timedout = False,
      masterhost = False, master_up = True, repl_slave_ro = True, repl_serve_stale_data = True,
      enough_good_slaves = True, disk_error = DISK_ERROR_TYPE_NONE, out_of_memory = False,
      requirepass = None, cluster_redirect = (\<lambda>c. False), lazyfree_lazy_expire = False, aof_on = True,
      dirty = 0, stat_expiredkeys = 0, stat_keyspace_hits = 0, stat_keyspace_misses = 0,
      events = [], aof = [], repl = []\<rparr>"

end
