(* ===== verification/Redis_Sds.thy ===== *)
theory Redis_Sds
  imports Redis_Server
begin

text \<open>
  Dynamic strings (\<open>sds.c\<close>): printing integers, ranges, quoting a string (\<open>sdscatrepr\<close>) and splitting a line
  into arguments (\<open>sdssplitargs\<close>).  An sds is its list of bytes; the terminating zero byte is the end
  of the list.  Headers and allocation are not modelled.
\<close>

section \<open>Printing integers\<close>

text \<open>\<open>sdsll2str\<close> and \<open>sdsull2str\<close>: the digits from the least significant one, then reversed in place.\<close>

function ull_digits :: "nat \<Rightarrow> byte list" where
  "ull_digits v = (48 + of_nat (v mod 10)) # (if v div 10 \<noteq> 0 then ull_digits (v div 10) else [])"
  by pat_completeness auto
termination by (relation "measure id") auto

declare ull_digits.simps [simp del]

function swap_loop :: "byte list \<Rightarrow> nat \<Rightarrow> nat \<Rightarrow> byte list" where
  "swap_loop s i j = (if i < j then swap_loop (s[i := s ! j, j := s ! i]) (i + 1) (j - 1) else s)"
  by pat_completeness auto
termination by (relation "measure (\<lambda>(_, i, j). j - i)") auto

declare swap_loop.simps [simp del]

definition sdsll2str :: "int \<Rightarrow> byte list" where
  "sdsll2str value =
     (let v = (if value < 0 then ll_abs value else nat value);
          s = ull_digits v @ (if value < 0 then [45] else [])
      in swap_loop s 0 (length s - 1))"

definition sdsull2str :: "nat \<Rightarrow> byte list" where
  "sdsull2str v = (let s = ull_digits v in swap_loop s 0 (length s - 1))"

definition sdsfromlonglong :: "int \<Rightarrow> sds" where
  "sdsfromlonglong value = sdsll2str value"

section \<open>Ranges\<close>

definition sdsrange :: "sds \<Rightarrow> int \<Rightarrow> int \<Rightarrow> sds" where
  "sdsrange s start end =
     (let len = int (length s) in
      if len = 0 then s
      else
        let start = (if start < 0 then max 0 (len + start) else start);
            end = (if end < 0 then max 0 (len + end) else end);
            newlen = (if start > end then 0 else end - start + 1);
            (start, newlen) =
              (if newlen \<noteq> 0 then
                 if start \<ge> len then (start, 0)
                 else if end \<ge> len then let end = len - 1 in (start, if start > end then 0 else end - start + 1)
                 else (start, newlen)
               else (0, newlen))
        in take (nat newlen) (drop (nat start) s))"

section \<open>Quoting\<close>

definition is_space :: "byte \<Rightarrow> bool" where
  "is_space b \<longleftrightarrow> b = 32 \<or> 9 \<le> b \<and> b \<le> 13"

definition is_print :: "byte \<Rightarrow> bool" where
  "is_print b \<longleftrightarrow> 32 \<le> b \<and> b \<le> 126"

definition hex_char :: "nat \<Rightarrow> byte" where
  "hex_char n = (if n < 10 then 48 + of_nat n else 87 + of_nat n)"

definition repr_char :: "byte \<Rightarrow> byte list" where
  "repr_char b =
     (if b = 92 \<or> b = 34 then [92, b]
      else if b = 10 then [92, 110] else if b = 13 then [92, 114] else if b = 9 then [92, 116]
      else if b = 7 then [92, 97] else if b = 8 then [92, 98]
      else if is_print b then [b]
      else [92, 120, hex_char (unat b div 16), hex_char (unat b mod 16)])"

definition sdscatrepr :: "sds \<Rightarrow> sds \<Rightarrow> sds" where
  "sdscatrepr s p = s @ [34] @ concat (map repr_char p) @ [34]"

section \<open>Splitting\<close>

definition is_hex_digit :: "byte \<Rightarrow> bool" where
  "is_hex_digit c \<longleftrightarrow> 48 \<le> c \<and> c \<le> 57 \<or> 97 \<le> c \<and> c \<le> 102 \<or> 65 \<le> c \<and> c \<le> 70"

definition hex_digit_to_int :: "byte \<Rightarrow> nat" where
  "hex_digit_to_int c =
     (if 48 \<le> c \<and> c \<le> 57 then unat (c - 48) else if 97 \<le> c \<and> c \<le> 102 then unat (c - 87)
      else if 65 \<le> c \<and> c \<le> 70 then unat (c - 55) else 0)"

definition unescape :: "byte \<Rightarrow> byte" where
  "unescape c = (if c = 110 then 10 else if c = 114 then 13 else if c = 116 then 9 else if c = 98 then 8
     else if c = 97 then 7 else c)"

text \<open>The three states of the token loop: outside quotes, in double quotes, in single quotes.\<close>

datatype quote_mode = Unquoted | Inq | Insq

text \<open>The inner loop: the token and the input after it, or \<^const>\<open>None\<close> for \<open>goto err\<close>.\<close>

fun get_token :: "quote_mode \<Rightarrow> sds \<Rightarrow> byte list \<Rightarrow> (sds \<times> byte list) option" where
  "get_token Inq current (c # p) =
     (if c = 92 \<and> length p \<ge> 3 \<and> p ! 0 = 120 \<and> is_hex_digit (p ! 1) \<and> is_hex_digit (p ! 2)
      then get_token Inq (current @ [of_nat (hex_digit_to_int (p ! 1) * 16 + hex_digit_to_int (p ! 2))]) (drop 3 p)
      else if c = 92 \<and> p \<noteq> [] then get_token Inq (current @ [unescape (hd p)]) (tl p)
      else if c = 34 then (if p \<noteq> [] \<and> \<not> is_space (hd p) then None else Some (current, p))
      else get_token Inq (current @ [c]) p)"
| "get_token Inq current [] = None"
| "get_token Insq current (c # p) =
     (if c = 92 \<and> p \<noteq> [] \<and> hd p = 39 then get_token Insq (current @ [39]) (tl p)
      else if c = 39 then (if p \<noteq> [] \<and> \<not> is_space (hd p) then None else Some (current, p))
      else get_token Insq (current @ [c]) p)"
| "get_token Insq current [] = None"
| "get_token Unquoted current (c # p) =
     (if c = 32 \<or> c = 10 \<or> c = 13 \<or> c = 9 then Some (current, p)
      else if c = 34 then get_token Inq current p
      else if c = 39 then get_token Insq current p
      else get_token Unquoted (current @ [c]) p)"
| "get_token Unquoted current [] = Some (current, [])"

lemma get_token_le: "get_token m current p = Some (t, p') \<Longrightarrow> length p' \<le> length p"
  by (induction m current p rule: get_token.induct) (force split: if_splits)+

lemma get_token_length:
  assumes "get_token m current p = Some (t, p')" "p \<noteq> []"
  shows "length p' < length p"
proof -
  obtain c q where p: "p = c # q" using assms(2) by (cases p) auto
  show ?thesis
    using assms(1) unfolding p by (cases m) (auto split: if_splits dest!: get_token_le)
qed

function split_loop :: "sds list \<Rightarrow> byte list \<Rightarrow> sds list option" where
  "split_loop vector p =
     (let p = dropWhile is_space p in
      if p = [] then Some vector
      else case get_token Unquoted [] p of None \<Rightarrow> None | Some (t, p') \<Rightarrow> split_loop (vector @ [t]) p')"
  by pat_completeness auto
termination
  by (relation "measure (\<lambda>(_, p). length p)")
    (auto dest!: get_token_length intro: less_le_trans [OF _ length_dropWhile_le])

declare split_loop.simps [simp del]

text \<open>The line is a C string: it ends at its first zero byte.\<close>

definition sdssplitargs :: "byte list \<Rightarrow> sds list option" where
  "sdssplitargs line = split_loop [] (takeWhile (\<lambda>b. b \<noteq> 0) line)"

section \<open>Printing is the decimal notation\<close>

lemma swap_loop_mid:
  "length a = i \<Longrightarrow> length m = k \<Longrightarrow> swap_loop (a @ m @ b) i (i + k - 1) = a @ rev m @ b"
proof (induction k arbitrary: a m b i rule: less_induct)
  case (less k)
  show ?case
  proof (cases "2 \<le> k")
    case False
    then have "length m \<le> 1" using less.prems by simp
    then have "rev m = m" by (cases m) auto
    then show ?thesis using False less.prems by (subst swap_loop.simps) auto
  next
    case True
    then obtain x m' y where m: "m = x # m' @ [y]"
      using less.prems by (cases m; cases "tl m" rule: rev_cases) auto
    have k: "k = length m' + 2" using less.prems m by simp
    have "swap_loop (a @ m @ b) i (i + k - 1) = swap_loop ((a @ [y]) @ m' @ (x # b)) (i + 1) (i + k - 1 - 1)"
      using less.prems k by (subst swap_loop.simps) (simp add: m nth_append list_update_append)
    also have "i + k - 1 - 1 = (i + 1) + length m' - 1" using k by simp
    also have "swap_loop ((a @ [y]) @ m' @ (x # b)) (i + 1) ((i + 1) + length m' - 1) = (a @ [y]) @ rev m' @ (x # b)"
      using k less.prems by (intro less.IH) auto
    finally show ?thesis by (simp add: m)
  qed
qed

lemma swap_loop_rev: "swap_loop s 0 (length s - 1) = rev s"
  using swap_loop_mid [of "[]" 0 s "length s" "[]"] by simp

lemma ull_digits_dec: "ull_digits v = rev (dec v)"
proof (induction v rule: ull_digits.induct)
  case (1 v)
  show ?case
  proof (cases "v div 10 = 0")
    case True
    then have "v < 10" by simp
    then show ?thesis by (subst ull_digits.simps) (simp add: dec_small)
  next
    case False
    then show ?thesis using 1 by (subst ull_digits.simps) (simp add: dec_step)
  qed
qed

text \<open>\<open>sdsfromlonglong\<close> and \<open>sdsull2str\<close>, which fill a buffer backwards and reverse it in place, print the same
  canonical decimal notation as \<open>ll2string\<close>, for every 64-bit value including the least one.\<close>

lemma sdsfromlonglong_correct:
  "(int64 v \<longrightarrow> sdsfromlonglong v = ll_repr v) \<and> sdsull2str n = dec n"
  unfolding sdsfromlonglong_def sdsll2str_def sdsull2str_def Let_def swap_loop_rev
  by (simp add: ull_digits_dec ll_repr_def ll_abs_eq)

section \<open>Quoting and splitting are inverse\<close>

lemma all_16: "(\<forall>n<16. P n) \<longleftrightarrow> (\<forall>n \<in> {0, 1, 2, 3, 4, 5, 6, 7, 8, 9, 10, 11, 12, 13, 14, 15}. P (n::nat))"
proof -
  have "{..<16::nat} = {0, 1, 2, 3, 4, 5, 6, 7, 8, 9, 10, 11, 12, 13, 14, 15}"
    by (simp add: lessThan_nat_numeral lessThan_Suc insert_commute)
  then show ?thesis by (metis lessThan_iff)
qed

lemma hex_char_digit:
  "n < 16 \<Longrightarrow> is_hex_digit (hex_char n) \<and> hex_digit_to_int (hex_char n) = n \<and> hex_char n \<noteq> 0"
  using all_16 [of "\<lambda>n. is_hex_digit (hex_char n) \<and> hex_digit_to_int (hex_char n) = n \<and> hex_char n \<noteq> 0"]
  by (simp add: hex_char_def is_hex_digit_def hex_digit_to_int_def)

lemma hex_bytes: "of_nat (hex_digit_to_int (hex_char (unat b div 16)) * 16 + hex_digit_to_int (hex_char (unat b mod 16))) = (b :: byte)"
proof -
  have "unat b < 256" using unsigned_less [of b, where ?'a = nat] by simp
  then have "unat b div 16 < 16" by (simp add: less_mult_imp_div_less)
  then have "hex_digit_to_int (hex_char (unat b div 16)) * 16 + hex_digit_to_int (hex_char (unat b mod 16)) = unat b"
    using hex_char_digit [of "unat b div 16"] hex_char_digit [of "unat b mod 16"] by simp
  then have "of_nat (hex_digit_to_int (hex_char (unat b div 16)) * 16 + hex_digit_to_int (hex_char (unat b mod 16))) =
    (of_nat (unat b) :: byte)" by (rule arg_cong)
  then show ?thesis by simp
qed

lemma hex_bytes_ok:
  "is_hex_digit (hex_char (unat (b :: byte) div 16)) \<and> is_hex_digit (hex_char (unat b mod 16)) \<and>
   hex_char (unat b div 16) \<noteq> 0 \<and> hex_char (unat b mod 16) \<noteq> 0"
proof -
  have "unat b < 256" using unsigned_less [of b, where ?'a = nat] by simp
  then have "unat b div 16 < 16" by (simp add: less_mult_imp_div_less)
  then show ?thesis using hex_char_digit [of "unat b div 16"] hex_char_digit [of "unat b mod 16"] by simp
qed

lemma get_token_repr_char: "q \<noteq> [] \<Longrightarrow> get_token Inq current (repr_char b @ q) = get_token Inq (current @ [b]) q"
  using hex_bytes [of b] hex_bytes_ok [of b]
  by (simp add: repr_char_def unescape_def is_print_def)

lemma get_token_repr:
  assumes "q = [] \<or> is_space (hd q)"
  shows "get_token Inq current (concat (map repr_char a) @ 34 # q) = Some (current @ a, q)"
proof (induction a arbitrary: current)
  case Nil
  then show ?case using assms by auto
next
  case (Cons b a)
  then show ?case using get_token_repr_char [of "concat (map repr_char a) @ 34 # q" current b] by simp
qed

lemma repr_char_nonzero: "0 \<notin> set (repr_char b)"
  using hex_bytes_ok [of b] by (auto simp: repr_char_def is_print_def)

abbreviation quoted :: "sds \<Rightarrow> byte list" where
  "quoted a \<equiv> 32 # sdscatrepr [] a"

lemma split_loop_quoted: "split_loop vector (concat (map quoted args)) = Some (vector @ args)"
proof (induction args arbitrary: vector)
  case Nil
  then show ?case by (subst split_loop.simps) simp
next
  case (Cons a args)
  let ?q = "concat (map quoted args)"
  have q: "?q = [] \<or> is_space (hd ?q)" by (cases args) (simp_all add: is_space_def)
  have "dropWhile is_space (concat (map quoted (a # args))) = 34 # concat (map repr_char a) @ 34 # ?q"
    by (simp add: sdscatrepr_def is_space_def)
  then show ?case
    using get_token_repr [OF q, of "[]" a] Cons.IH by (subst split_loop.simps) simp
qed

text \<open>C12.  Quoting and splitting are inverse: a line made of any byte strings, each quoted by \<open>sdscatrepr\<close> after a blank, is
  split by \<open>sdssplitargs\<close> into exactly these strings, whatever bytes (zero bytes, quotes, newlines) they
  contain.\<close>

theorem sdssplitargs_sdscatrepr:
  "sdssplitargs (foldl (\<lambda>s a. sdscatrepr (s @ [32]) a) [] args) = Some args"
proof -
  have l: "foldl (\<lambda>s a. sdscatrepr (s @ [32]) a) s args = s @ concat (map quoted args)" for s
    by (induction args arbitrary: s) (simp_all add: sdscatrepr_def)
  have "0 \<notin> set (concat (map quoted args))" using repr_char_nonzero by (auto simp: sdscatrepr_def)
  then have "takeWhile (\<lambda>b. b \<noteq> 0) (concat (map quoted args)) = concat (map quoted args)"
    by (auto simp: takeWhile_eq_all_conv)
  then show ?thesis using split_loop_quoted [of "[]" args] by (simp only: sdssplitargs_def l append_Nil)
qed

end
