(* ===== verification/Redis_Set.thy ===== *)
theory Redis_Set
  imports Redis_Iter Redis_Intset Redis_Sds
begin

text \<open>
  Sets (\<open>t_set.c\<close>): the two encodings of a set object, the operations on them, iteration, and the loops that
  compute unions, intersections and differences.  A set object is a byte block of integers or a hash
  table whose values are \<open>NULL\<close>; both are the models of \<open>Redis_Intset\<close> and \<open>Redis_Dict\<close>.  A lookup may do a
  rehashing step, so it returns the object it leaves behind.
\<close>

section \<open>Set objects\<close>

text \<open>What the operations read besides the object: the hash function, whether tables may be resized,
  \<open>server.set_max_intset_entries\<close>, and the contents of fresh memory and the addresses of tables.\<close>

record set_env =
  hash_fn :: "sds \<Rightarrow> u64"
  can_resize :: bool
  set_max_intset_entries :: nat
  heap_fill :: "nat \<Rightarrow> byte"
  tbl_addr :: "nat \<Rightarrow> u64"
  iter_junk :: u64

datatype set_obj = Set_intset intset | Set_ht "(sds, unit) dict"

definition isSdsRepresentableAsLongLong :: "sds \<Rightarrow> int option" where
  "isSdsRepresentableAsLongLong s = string2ll s"

definition setTypeCreate :: "sds \<Rightarrow> set_obj" where
  "setTypeCreate value =
     (if isSdsRepresentableAsLongLong value \<noteq> None then Set_intset intsetNew else Set_ht dictCreate)"

definition htNeedsResize :: "('k, 'v) dict \<Rightarrow> bool" where
  "htNeedsResize d \<longleftrightarrow> dictSlots d > 4 \<and> dictSize d * 100 div dictSlots d < 10"

definition setTypeSize :: "set_obj \<Rightarrow> nat" where
  "setTypeSize s = (case s of Set_ht d \<Rightarrow> dictSize d | Set_intset is \<Rightarrow> intsetLen is)"

text \<open>Iterators.  An iterator keeps the encoding that the set had when it was made.\<close>

datatype set_iter = Si_ht "sds dictIterator" | Si_intset nat

datatype set_elem = El_sds sds | El_ll int

definition setTypeInitIterator :: "set_env \<Rightarrow> set_obj \<Rightarrow> set_iter" where
  "setTypeInitIterator e s = (case s of Set_ht _ \<Rightarrow> Si_ht (dictGetIterator (iter_junk e)) | Set_intset _ \<Rightarrow> Si_intset 0)"

text \<open>The index into an intset is an \<open>int\<close> in the code; an intset that fits in memory with a 32-bit byte size keeps it small.\<close>

fun setTypeNext :: "set_env \<Rightarrow> set_obj \<Rightarrow> set_iter \<Rightarrow> (set_obj \<times> set_iter \<times> set_elem option) option" where
  "setTypeNext e (Set_ht d) (Si_ht it) = do {
     (d, it, de) \<leftarrow> dictNext (tbl_addr e) d it;
     Some (Set_ht d, Si_ht it, map_option El_sds de) }"
| "setTypeNext e (Set_intset is) (Si_intset ii) = do {
     r \<leftarrow> intsetGet is ii;
     Some (Set_intset is, Si_intset (ii + 1), map_option El_ll r) }"
| "setTypeNext _ _ _ = None"

fun setTypeReleaseIterator :: "set_env \<Rightarrow> set_obj \<Rightarrow> set_iter \<Rightarrow> set_obj option" where
  "setTypeReleaseIterator e (Set_ht d) (Si_ht it) = map_option Set_ht (dictReleaseIterator (tbl_addr e) d it)"
| "setTypeReleaseIterator e s _ = Some s"

definition elem_sds :: "set_elem \<Rightarrow> sds" where
  "elem_sds x = (case x of El_sds s \<Rightarrow> s | El_ll v \<Rightarrow> sdsfromlonglong v)"

definition setTypeNextObject :: "set_env \<Rightarrow> set_obj \<Rightarrow> set_iter \<Rightarrow> (set_obj \<times> set_iter \<times> sds option) option" where
  "setTypeNextObject e s si = do {
     (s, si, r) \<leftarrow> setTypeNext e s si;
     Some (s, si, map_option elem_sds r) }"

text \<open>The loop from \<open>setTypeInitIterator\<close> to \<open>setTypeReleaseIterator\<close> over an object that the body does not change.\<close>

partial_function (option) set_foreach ::
  "set_env \<Rightarrow> (set_elem \<Rightarrow> 's \<Rightarrow> 's option) \<Rightarrow> set_obj \<Rightarrow> set_iter \<Rightarrow> 's \<Rightarrow> (set_obj \<times> 's) option" where
  "set_foreach e body s si st = do {
     (s, si, r) \<leftarrow> setTypeNext e s si;
     case r of
       None \<Rightarrow> do { s \<leftarrow> setTypeReleaseIterator e s si; Some (s, st) }
     | Some x \<Rightarrow> do { st \<leftarrow> body x st; set_foreach e body s si st } }"

text \<open>The loop walks the object it is given; the bodies below work on other objects, since the code does not look an element
  up in the set that it iterates over.\<close>

definition set_each :: "set_env \<Rightarrow> (set_elem \<Rightarrow> 's \<Rightarrow> 's option) \<Rightarrow> set_obj \<Rightarrow> 's \<Rightarrow> (set_obj \<times> 's) option" where
  "set_each e body s st = set_foreach e body s (setTypeInitIterator e s) st"

text \<open>\<^const>\<open>None\<close> is a failed assertion.\<close>

definition convert_body :: "set_env \<Rightarrow> set_elem \<Rightarrow> (sds, unit) dict \<Rightarrow> (sds, unit) dict option" where
  "convert_body e x d = do {
     (d, ok) \<leftarrow> dictAdd (hash_fn e) (can_resize e) () d (elem_sds x) ();
     if ok then Some d else None }"

definition setTypeConvert :: "set_env \<Rightarrow> set_obj \<Rightarrow> (sds, unit) dict option" where
  "setTypeConvert e s =
     (case s of
        Set_ht _ \<Rightarrow> None
      | Set_intset is \<Rightarrow>
          map_option snd (set_each e (convert_body e) s (fst (dictExpand dictCreate (intsetLen is)))))"

definition setTypeAdd :: "set_env \<Rightarrow> set_obj \<Rightarrow> sds \<Rightarrow> (set_obj \<times> bool) option" where
  "setTypeAdd e subject value =
     (case subject of
        Set_ht d \<Rightarrow> do {
          (d, de, _) \<leftarrow> dictAddRaw (hash_fn e) (can_resize e) () d value;
          case de of None \<Rightarrow> Some (Set_ht d, False) | Some r \<Rightarrow> Some (Set_ht (dictSetVal d r ()), True) }
      | Set_intset is \<Rightarrow>
          (case isSdsRepresentableAsLongLong value of
             Some llval \<Rightarrow> do {
               (is, success) \<leftarrow> intsetAdd (heap_fill e) is llval;
               if \<not> success then Some (Set_intset is, False)
               else if intsetLen is > set_max_intset_entries e
               then do { d \<leftarrow> setTypeConvert e (Set_intset is); Some (Set_ht d, True) }
               else Some (Set_intset is, True) }
           | None \<Rightarrow> do {
               d \<leftarrow> setTypeConvert e (Set_intset is);
               (d, ok) \<leftarrow> dictAdd (hash_fn e) (can_resize e) () d value ();
               if ok then Some (Set_ht d, True) else None }))"

definition setTypeRemove :: "set_env \<Rightarrow> set_obj \<Rightarrow> sds \<Rightarrow> (set_obj \<times> bool) option" where
  "setTypeRemove e setobj value =
     (case setobj of
        Set_ht d \<Rightarrow> do {
          (d, ok) \<leftarrow> dictDelete (hash_fn e) d value;
          if ok then Some (Set_ht (if htNeedsResize d then fst (dictResize (can_resize e) d) else d), True)
          else Some (Set_ht d, False) }
      | Set_intset is \<Rightarrow>
          (case isSdsRepresentableAsLongLong value of
             Some llval \<Rightarrow> do {
               (is, success) \<leftarrow> intsetRemove (heap_fill e) is llval;
               Some (Set_intset is, success) }
           | None \<Rightarrow> Some (Set_intset is, False)))"

definition setTypeIsMember :: "set_env \<Rightarrow> set_obj \<Rightarrow> sds \<Rightarrow> (set_obj \<times> bool) option" where
  "setTypeIsMember e subject value =
     (case subject of
        Set_ht d \<Rightarrow> do { (d, de) \<leftarrow> dictFind (hash_fn e) d value; Some (Set_ht d, de \<noteq> None) }
      | Set_intset is \<Rightarrow>
          (case isSdsRepresentableAsLongLong value of
             Some llval \<Rightarrow> do { b \<leftarrow> intsetFind is llval; Some (Set_intset is, b) }
           | None \<Rightarrow> Some (Set_intset is, False)))"

section \<open>Abstraction and invariant\<close>

definition set_elems :: "set_obj \<Rightarrow> sds set" where
  "set_elems s = (case s of Set_ht d \<Rightarrow> dom (dict_map d) | Set_intset is \<Rightarrow> ll_repr ` set (intset_vals is))"

definition set_wf :: "set_env \<Rightarrow> set_obj \<Rightarrow> bool" where
  "set_wf e s = (case s of Set_ht d \<Rightarrow> dict_wf (hash_fn e) d | Set_intset is \<Rightarrow> intset_wf is)"

text \<open>The elements in the order in which an iterator returns them.\<close>

definition set_list :: "set_obj \<Rightarrow> set_elem list" where
  "set_list s = (case s of Set_ht d \<Rightarrow> map El_sds (map fst (dict_entries d)) | Set_intset is \<Rightarrow> map El_ll (intset_vals is))"

lemma intset_vals_int64: "intset_wf is \<Longrightarrow> v \<in> set (intset_vals is) \<Longrightarrow> int64 v"
proof -
  assume "intset_wf is" "v \<in> set (intset_vals is)"
  then obtain k where "k \<in> {2, 4, 8}" "int_fits k v" by (elim intset_wfE) auto
  then show "int64 v" by (auto simp: int_fits_def)
qed

lemma intsetGet_vals:
  assumes "intset_wf is"
  shows "intsetGet is i = Some (if i < length (intset_vals is) then Some (intset_vals is ! i) else None)"
proof -
  obtain k xs where "is = mk_intset k xs" "intset_vals is = xs" "k \<in> {2, 4, 8}" "\<forall>x \<in> set xs. int_fits k x"
    using assms by (rule intset_wfE)
  then show ?thesis using p_intsetGet_mk [of k xs i] by (simp add: intsetGet_def mk_intset_def)
qed

lemma elem_sds_ll [simp]: "int64 v \<Longrightarrow> elem_sds (El_ll v) = ll_repr v"
  by (simp add: elem_sds_def sdsfromlonglong_correct)

lemma elem_sds_sds [simp]: "elem_sds (El_sds s) = s"
  by (simp add: elem_sds_def)

lemma ll_repr_inj: "int64 v \<Longrightarrow> int64 w \<Longrightarrow> ll_repr v = ll_repr w \<longleftrightarrow> v = w"
  using string2ll_iff by (metis option.inject)

lemma set_list_elems:
  assumes "set_wf e s"
  shows "distinct (map elem_sds (set_list s))" "set (map elem_sds (set_list s)) = set_elems s"
    "length (set_list s) = setTypeSize s"
proof -
  have "distinct (map elem_sds (set_list s)) \<and> set (map elem_sds (set_list s)) = set_elems s \<and> length (set_list s) = setTypeSize s"
  proof (cases s)
    case (Set_ht d)
    have wf: "dict_wf (hash_fn e) d" using assms by (simp add: Set_ht set_wf_def)
    have m: "map elem_sds (set_list s) = map fst (dict_entries d)" "length (set_list s) = length (dict_entries d)"
      by (simp_all add: Set_ht set_list_def)
    show ?thesis unfolding m using keys_dom [OF wf] dict_size_entries [OF wf]
      by (simp add: Set_ht set_elems_def setTypeSize_def)
  next
    case (Set_intset "is")
    with assms have wf: "intset_wf is" by (simp add: set_wf_def)
    have m: "map elem_sds (set_list s) = map ll_repr (intset_vals is)"
      using intset_vals_int64 [OF wf] by (simp add: Set_intset set_list_def)
    have "inj_on ll_repr (set (intset_vals is))"
      using intset_vals_int64 [OF wf] ll_repr_inj by (auto simp: inj_on_def)
    then show ?thesis using intset_vals_distinct [OF wf]
      by (simp add: m distinct_map) (simp add: Set_intset set_elems_def setTypeSize_def intsetLen_def set_list_def)
  qed
  then show "distinct (map elem_sds (set_list s))" "set (map elem_sds (set_list s)) = set_elems s"
    "length (set_list s) = setTypeSize s" by blast+
qed

lemma set_size_card: "set_wf e s \<Longrightarrow> finite (set_elems s) \<and> setTypeSize s = card (set_elems s)"
  using set_list_elems [of e s] by (metis List.finite_set distinct_card length_map)

section \<open>Iteration\<close>

fun run_body :: "(set_elem \<Rightarrow> 's \<Rightarrow> 's option) \<Rightarrow> set_elem list \<Rightarrow> 's \<Rightarrow> 's option" where
  "run_body body [] st = Some st"
| "run_body body (x # xs) st = do { st \<leftarrow> body x st; run_body body xs st }"

definition si_left :: "set_obj \<Rightarrow> set_iter \<Rightarrow> set_elem list" where
  "si_left s si = (case (s, si) of
     (Set_ht d, Si_ht it) \<Rightarrow> map El_sds (remaining d it)
   | (Set_intset is, Si_intset i) \<Rightarrow> map El_ll (drop i (intset_vals is)) | _ \<Rightarrow> [])"

text \<open>The iterator belongs to the object, and its fingerprint, once taken, is that of the object.\<close>

definition si_ok :: "set_env \<Rightarrow> set_obj \<Rightarrow> set_iter \<Rightarrow> bool" where
  "si_ok e s si \<longleftrightarrow> (case (s, si) of
     (Set_ht d, Si_ht it) \<Rightarrow> it_ok d it \<and> \<not> safe it \<and> (started it \<longrightarrow> fingerprint it = dictFingerprint (tbl_addr e) d)
   | (Set_intset is, Si_intset i) \<Rightarrow> True | _ \<Rightarrow> False)"

lemma setTypeNext_spec:
  assumes wf: "set_wf e s" and ok: "si_ok e s si"
  shows "\<exists>si' r. setTypeNext e s si = Some (s, si', r) \<and> si_ok e s si' \<and>
    (case si_left s si of [] \<Rightarrow> r = None \<and> setTypeReleaseIterator e s si' = Some s
     | x # xs \<Rightarrow> r = Some x \<and> si_left s si' = xs)"
proof (cases s)
  case (Set_ht d)
  then obtain it where si: "si = Si_ht it" using ok by (cases si) (auto simp: si_ok_def)
  have d: "dict_wf (hash_fn e) d" "it_ok d it" "\<not> safe it" "started it \<longrightarrow> fingerprint it = dictFingerprint (tbl_addr e) d"
    using wf ok by (simp_all add: Set_ht si set_wf_def si_ok_def)
  have fc: "fst (first_call (tbl_addr e) d it) = d" "fingerprint (snd (first_call (tbl_addr e) d it)) = dictFingerprint (tbl_addr e) d"
    using d(3,4) by (auto simp: first_call_def)
  from dictNext_spec [OF d(1,2), of "tbl_addr e"] obtain it' r where
    n: "dictNext (tbl_addr e) d it = Some (d, it', r)" "next_ok d (snd (first_call (tbl_addr e) d it)) it' r"
    unfolding fc(1) by blast
  then show ?thesis using fc(2) d(3)
    by (cases "remaining d it") (auto simp: Set_ht si si_ok_def si_left_def next_ok_def dictReleaseIterator_def)
next
  case (Set_intset "is")
  then obtain i where si: "si = Si_intset i" using ok by (cases si) (auto simp: si_ok_def)
  have "intset_wf is" using wf by (simp add: Set_intset set_wf_def)
  then have g: "intsetGet is i = Some (if i < length (intset_vals is) then Some (intset_vals is ! i) else None)"
    by (rule intsetGet_vals)
  show ?thesis
  proof (cases "i < length (intset_vals is)")
    case True
    then have "drop i (intset_vals is) = intset_vals is ! i # drop (i + 1) (intset_vals is)" by (simp add: Cons_nth_drop_Suc)
    with True g show ?thesis by (simp add: Set_intset si si_ok_def si_left_def)
  next
    case False
    with g show ?thesis by (simp add: Set_intset si si_ok_def si_left_def)
  qed
qed

lemma set_foreach_run:
  assumes "set_wf e s" "si_ok e s si"
  shows "set_foreach e body s si st = map_option (Pair s) (run_body body (si_left s si) st)"
  using assms(2)
proof (induction "si_left s si" arbitrary: si st)
  case Nil
  then show ?case using setTypeNext_spec [OF assms(1) Nil(2)] Nil(1) [symmetric] by (subst set_foreach.simps) auto
next
  case (Cons x xs)
  from setTypeNext_spec [OF assms(1) Cons(3)] Cons(2) [symmetric] obtain si' where
    "setTypeNext e s si = Some (s, si', Some x)" "si_ok e s si'" "si_left s si' = xs" by auto
  with Cons(1) [of si'] Cons(2) [symmetric] show ?case
    by (subst set_foreach.simps) (auto simp: map_option_case split: option.splits bind_splits)
qed

lemma set_each_run:
  assumes "set_wf e s"
  shows "set_each e body s st = map_option (Pair s) (run_body body (set_list s) st)"
proof -
  have ok: "si_ok e s (setTypeInitIterator e s)"
    by (cases s) (auto simp: si_ok_def setTypeInitIterator_def dictGetIterator_def, simp add: it_ok_def)
  have "si_left s (setTypeInitIterator e s) = set_list s"
  proof (cases s)
    case (Set_ht d)
    then have "remaining d (dictGetIterator (iter_junk e)) = map fst (dict_entries d)"
      using assms remaining_new [of "hash_fn e" d] by (simp add: set_wf_def)
    then show ?thesis by (simp only: Set_ht si_left_def setTypeInitIterator_def set_list_def set_obj.case set_iter.case prod.case)
  qed (simp add: si_left_def setTypeInitIterator_def set_list_def)
  with set_foreach_run [OF assms ok] show ?thesis by (simp add: set_each_def)
qed


section \<open>The operations implement a set of strings\<close>

lemma representable_iff: "isSdsRepresentableAsLongLong s = Some v \<longleftrightarrow> int64 v \<and> s = ll_repr v"
  by (simp add: isSdsRepresentableAsLongLong_def string2ll_iff)

lemma not_representable: "isSdsRepresentableAsLongLong s = None \<Longrightarrow> int64 v \<Longrightarrow> s \<noteq> ll_repr v"
  using representable_iff by (metis option.distinct(1))

lemma ll_repr_mem: "intset_wf is \<Longrightarrow> int64 v \<Longrightarrow> ll_repr v \<in> ll_repr ` set (intset_vals is) \<longleftrightarrow> v \<in> set (intset_vals is)"
  using intset_vals_int64 ll_repr_inj by blast

lemma ll_repr_notin: "intset_wf is \<Longrightarrow> isSdsRepresentableAsLongLong s = None \<Longrightarrow> s \<notin> ll_repr ` set (intset_vals is)"
  using intset_vals_int64 not_representable by blast

lemma convert_run:
  assumes "dict_wf (hash_fn e) d" "distinct (map elem_sds xs)" "set (map elem_sds xs) \<inter> dom (dict_map d) = {}"
    "card (dom (dict_map d)) + length xs \<le> 2 ^ 62"
  shows "\<exists>d'. run_body (convert_body e) xs d = Some d' \<and> dict_wf (hash_fn e) d' \<and>
    dom (dict_map d') = set (map elem_sds xs) \<union> dom (dict_map d)"
  using assms
proof (induction xs arbitrary: d)
  case (Cons x xs)
  have sz: "finite (dom (dict_map d))" "dictSize d < 2 ^ 62" and fresh: "dict_map d (elem_sds x) = None"
    using Cons.prems dict_size_card [of "hash_fn e" d] by auto
  obtain d1 where d1: "dictAdd (hash_fn e) (can_resize e) () d (elem_sds x) () = Some (d1, True)" "dict_wf (hash_fn e) d1"
    "dict_map d1 = (dict_map d)(elem_sds x \<mapsto> ())"
    using dictAdd_spec [OF Cons.prems(1) sz(2), of "can_resize e" "()" "elem_sds x" "()"] fresh by auto
  have dom: "dom (dict_map d1) = insert (elem_sds x) (dom (dict_map d))" using d1(3) by simp
  then have "card (dom (dict_map d1)) + length xs \<le> 2 ^ 62"
    using Cons.prems(4) sz(1) by (simp add: card_insert_if)
  then obtain d' where "run_body (convert_body e) xs d1 = Some d'" "dict_wf (hash_fn e) d'"
    "dom (dict_map d') = set (map elem_sds xs) \<union> dom (dict_map d1)"
    using Cons.IH [OF d1(2)] Cons.prems(2,3) unfolding dom by auto
  moreover have "convert_body e x d = Some d1" using d1(1) by (simp add: convert_body_def)
  ultimately show ?case using dom by auto
qed simp

lemma setTypeConvert_spec:
  assumes wf: "intset_wf is"
  shows "\<exists>d. setTypeConvert e (Set_intset is) = Some d \<and> dict_wf (hash_fn e) d \<and> dom (dict_map d) = ll_repr ` set (intset_vals is)"
proof -
  let ?s = "Set_intset is" and ?d = "fst (dictExpand dictCreate (intsetLen is)) :: (sds, unit) dict"
  have s: "set_wf e ?s" using wf by (simp add: set_wf_def)
  obtain ok where "dictExpand dictCreate (intsetLen is) = (?d, ok)" by (metis prod.collapse)
  from dictExpand_spec(1) [OF dictCreate_wf(1) this, of "hash_fn e"]
  have d: "dict_wf (hash_fn e) ?d" "dict_map ?d = Map.empty" by (simp_all add: dict_map_def dict_entries_def dictCreate_def)
  have "len is * encoding is < 2 ^ 32" "0 < encoding is" using wf by (auto simp: intset_wf_def)
  then have "len is < 2 ^ 32" by (metis le_less_trans mult.right_neutral mult_le_mono2 Suc_leI One_nat_def)
  then have "length (set_list ?s) \<le> 2 ^ 62"
    using set_list_elems(3) [OF s] by (simp add: setTypeSize_def intsetLen_def)
  then obtain d' where "run_body (convert_body e) (set_list ?s) ?d = Some d'" "dict_wf (hash_fn e) d'"
    "dom (dict_map d') = set_elems ?s"
    using convert_run [OF d(1) set_list_elems(1) [OF s]] set_list_elems(2) [OF s] d(2) by auto
  then show ?thesis using set_each_run [OF s, of "convert_body e" ?d] by (auto simp: setTypeConvert_def set_elems_def)
qed

lemma setTypeAdd_ht: "setTypeAdd e (Set_ht d) v = map_option (\<lambda>(d, b). (Set_ht d, b)) (dictAdd (hash_fn e) (can_resize e) () d v ())"
  by (auto simp: setTypeAdd_def dictAdd_def split: bind_splits option.splits)

lemma setTypeAdd_spec:
  assumes wf: "set_wf e s" and cap: "setTypeSize s < 2 ^ 29 - 1"
  shows "\<exists>s'. setTypeAdd e s x = Some (s', x \<notin> set_elems s) \<and> set_wf e s' \<and> set_elems s' = insert x (set_elems s)"
proof (cases s)
  case (Set_ht d)
  then have "dict_wf (hash_fn e) d" "dictSize d < 2 ^ 62" using wf cap by (auto simp: set_wf_def setTypeSize_def)
  from dictAdd_spec [OF this, of "can_resize e" "()" x "()"] obtain d' where
    "dictAdd (hash_fn e) (can_resize e) () d x () = Some (d', dict_map d x = None)" "dict_wf (hash_fn e) d'"
    "dict_map d' = (if dict_map d x = None then (dict_map d)(x \<mapsto> ()) else dict_map d)" by blast
  then show ?thesis by (auto simp: Set_ht setTypeAdd_ht set_wf_def set_elems_def dom_def)
next
  case (Set_intset "is")
  then have i: "intset_wf is" "intsetLen is < 2 ^ 29 - 1" using wf cap by (auto simp: set_wf_def setTypeSize_def)
  show ?thesis
  proof (cases "isSdsRepresentableAsLongLong x")
    case (Some v)
    then have v: "int64 v" "x = ll_repr v" by (simp_all add: representable_iff)
    from intset_set.add_law [OF i(1) v(1) i(2), of "heap_fill e"] obtain is' where
      is': "intsetAdd (heap_fill e) is v = Some (is', v \<notin> set (intset_vals is))" "intset_wf is'"
      "set (intset_vals is') = insert v (set (intset_vals is))" by blast
    from setTypeConvert_spec [OF is'(2), of e] obtain d where
      "setTypeConvert e (Set_intset is') = Some d" "dict_wf (hash_fn e) d" "dom (dict_map d) = ll_repr ` set (intset_vals is')" by blast
    with is' Some v show ?thesis using ll_repr_mem [OF i(1) v(1)]
      by (auto simp: Set_intset setTypeAdd_def set_wf_def set_elems_def)
  next
    case None
    from setTypeConvert_spec [OF i(1), of e] obtain d where
      d: "setTypeConvert e (Set_intset is) = Some d" "dict_wf (hash_fn e) d" "dom (dict_map d) = ll_repr ` set (intset_vals is)" by blast
    have x: "dict_map d x = None" using d(3) ll_repr_notin [OF i(1) None] by (metis domIff)
    have "dictSize d < 2 ^ 62"
      using dict_size_card [OF d(2)] d(3) i(2) card_image_le [of "set (intset_vals is)" ll_repr] intset_set.size_elems [OF i(1)] by simp
    from dictAdd_spec [OF d(2) this, of "can_resize e" "()" x "()"] x obtain d' where
      "dictAdd (hash_fn e) (can_resize e) () d x () = Some (d', True)" "dict_wf (hash_fn e) d'" "dict_map d' = (dict_map d)(x \<mapsto> ())" by auto
    then show ?thesis using d x None by (auto simp: Set_intset setTypeAdd_def set_wf_def set_elems_def)
  qed
qed

lemma dictResize_keeps: "dict_wf hf d \<Longrightarrow> dict_wf hf (fst (dictResize can d)) \<and> dict_map (fst (dictResize can d)) = dict_map d"
proof -
  assume wf: "dict_wf hf d"
  have "dict_wf hf (fst (dictExpand d n)) \<and> dict_map (fst (dictExpand d n)) = dict_map d" for n
    using dictExpand_spec(1) [OF wf, of n] by (cases "dictExpand d n") (simp add: dict_map_def)
  then show ?thesis using wf by (simp add: dictResize_def Let_def)
qed

lemma setTypeRemove_spec:
  assumes wf: "set_wf e s"
  shows "\<exists>s'. setTypeRemove e s x = Some (s', x \<in> set_elems s) \<and> set_wf e s' \<and> set_elems s' = set_elems s - {x}"
proof (cases s)
  case (Set_ht d)
  then have "dict_wf (hash_fn e) d" using wf by (simp add: set_wf_def)
  from dict_kv.delete_law [OF this, of x] obtain d' where d': "dictDelete (hash_fn e) d x = Some (d', dict_map d x \<noteq> None)"
    "dict_wf (hash_fn e) d'" "dict_map d' = (dict_map d)(x := None)" by blast
  with dictResize_keeps [OF d'(2), of "can_resize e"] show ?thesis
    by (auto simp: Set_ht setTypeRemove_def set_wf_def set_elems_def dom_def)
next
  case (Set_intset "is")
  then have i: "intset_wf is" using wf by (simp add: set_wf_def)
  show ?thesis
  proof (cases "isSdsRepresentableAsLongLong x")
    case (Some v)
    then have v: "int64 v" "x = ll_repr v" by (simp_all add: representable_iff)
    from intset_set.remove_law [OF i v(1), of "heap_fill e"] obtain is' where
      "intsetRemove (heap_fill e) is v = Some (is', v \<in> set (intset_vals is))" "intset_wf is'"
      "set (intset_vals is') = set (intset_vals is) - {v}" by blast
    then show ?thesis using Some v ll_repr_mem [OF i v(1)] ll_repr_inj [OF _ v(1)] intset_vals_int64 [OF i]
      by (auto simp: Set_intset setTypeRemove_def set_wf_def set_elems_def)
  next
    case None
    then show ?thesis using i ll_repr_notin [OF i None] by (auto simp: Set_intset setTypeRemove_def set_wf_def set_elems_def)
  qed
qed

lemma setTypeIsMember_spec:
  assumes wf: "set_wf e s"
  shows "\<exists>s'. setTypeIsMember e s x = Some (s', x \<in> set_elems s) \<and> set_wf e s' \<and> set_elems s' = set_elems s"
proof (cases s)
  case (Set_ht d)
  then have "dict_wf (hash_fn e) d" using wf by (simp add: set_wf_def)
  from dictFind_spec [OF this, of x] obtain d' r where "dictFind (hash_fn e) d x = Some (d', r)" "dict_wf (hash_fn e) d'"
    "dict_map d' = dict_map d" "r \<noteq> None \<longleftrightarrow> dict_map d x \<noteq> None" by (auto split: option.splits)
  then show ?thesis by (auto simp: Set_ht setTypeIsMember_def set_wf_def set_elems_def)
next
  case (Set_intset "is")
  then have i: "intset_wf is" using wf by (simp add: set_wf_def)
  show ?thesis
  proof (cases "isSdsRepresentableAsLongLong x")
    case (Some v)
    then have "int64 v" "x = ll_repr v" by (simp_all add: representable_iff)
    then show ?thesis using Some i ll_repr_mem [OF i] intset_set.find_law [OF i, of v]
      by (auto simp: Set_intset setTypeIsMember_def set_wf_def set_elems_def)
  next
    case None
    then show ?thesis using i ll_repr_notin [OF i None] by (auto simp: Set_intset setTypeIsMember_def set_wf_def set_elems_def)
  qed
qed

interpretation set_type: member_set "set_wf e" set_elems setTypeSize "2 ^ 29 - 1" "\<lambda>_. True"
  "setTypeAdd e" "setTypeRemove e" "\<lambda>s x. map_option snd (setTypeIsMember e s x)"
proof (unfold_locales, goal_cases)
  case (1 s)
  then show ?case by (rule set_size_card)
next
  case (2 s x)
  then show ?case using setTypeAdd_spec by blast
next
  case (3 s x)
  then show ?case using setTypeRemove_spec by blast
next
  case (4 s x)
  then show ?case using setTypeIsMember_spec [of e s x] by auto
qed


section \<open>Union, difference and intersection\<close>

text \<open>
  The sets named by the arguments are objects in a store; an argument is a pointer, or \<^const>\<open>None\<close> for a key
  that does not exist, and the same pointer may occur twice.  The loops compare pointers, as the code
  does, before they touch an object that is being iterated.
\<close>

type_synonym set_store = "nat \<Rightarrow> set_obj"

definition add_body :: "set_env \<Rightarrow> set_elem \<Rightarrow> set_obj \<times> nat \<Rightarrow> (set_obj \<times> nat) option" where
  "add_body e x st = (case st of (dst, n) \<Rightarrow> do {
     (dst, b) \<leftarrow> setTypeAdd e dst (elem_sds x); Some (dst, if b then n + 1 else n) })"

definition remove_body :: "set_env \<Rightarrow> set_elem \<Rightarrow> set_obj \<times> nat \<Rightarrow> (set_obj \<times> nat) option" where
  "remove_body e x st = (case st of (dst, n) \<Rightarrow> do {
     (dst, b) \<leftarrow> setTypeRemove e dst (elem_sds x); Some (dst, if b then n - 1 else n) })"

fun union_loop :: "set_env \<Rightarrow> nat option list \<Rightarrow> set_store \<Rightarrow> set_obj \<times> nat \<Rightarrow> (set_store \<times> set_obj \<times> nat) option" where
  "union_loop e [] h st = Some (h, st)"
| "union_loop e (None # ps) h st = union_loop e ps h st"
| "union_loop e (Some p # ps) h st = do {
     (s, st) \<leftarrow> set_each e (add_body e) (h p) st;
     union_loop e ps (h(p := s)) st }"

text \<open>Algorithm 1: the inner loop over the other sets, and the loop over the first.\<close>

fun in_others :: "set_env \<Rightarrow> nat \<Rightarrow> nat option list \<Rightarrow> sds \<Rightarrow> set_store \<Rightarrow> (set_store \<times> bool) option" where
  "in_others e p0 [] x h = Some (h, False)"
| "in_others e p0 (None # ps) x h = in_others e p0 ps x h"
| "in_others e p0 (Some p # ps) x h =
     (if p = p0 then Some (h, True)
      else do {
        (s, b) \<leftarrow> setTypeIsMember e (h p) x;
        let h = h(p := s) in
        if b then Some (h, True) else in_others e p0 ps x h })"

definition diff1_body :: "set_env \<Rightarrow> nat \<Rightarrow> nat option list \<Rightarrow> set_elem \<Rightarrow> set_store \<times> set_obj \<times> nat \<Rightarrow>
  (set_store \<times> set_obj \<times> nat) option" where
  "diff1_body e p0 ps x st = (case st of (h, dst, n) \<Rightarrow> do {
     (h, found) \<leftarrow> in_others e p0 ps (elem_sds x) h;
     if found then Some (h, dst, n)
     else do { (dst, _) \<leftarrow> setTypeAdd e dst (elem_sds x); Some (h, dst, n + 1) } })"

definition diff1 :: "set_env \<Rightarrow> nat \<Rightarrow> nat option list \<Rightarrow> set_store \<Rightarrow> set_obj \<times> nat \<Rightarrow> (set_store \<times> set_obj \<times> nat) option" where
  "diff1 e p0 ps h st = do {
     (s, h, dst, n) \<leftarrow> set_each e (diff1_body e p0 ps) (h p0) (h, st);
     Some (h(p0 := s), dst, n) }"

text \<open>Algorithm 2.\<close>

fun diff2_loop :: "set_env \<Rightarrow> bool \<Rightarrow> nat option list \<Rightarrow> set_store \<Rightarrow> set_obj \<times> nat \<Rightarrow> (set_store \<times> set_obj \<times> nat) option" where
  "diff2_loop e first [] h st = Some (h, st)"
| "diff2_loop e first (None # ps) h st = diff2_loop e False ps h st"
| "diff2_loop e first (Some p # ps) h st = do {
     (s, dst, n) \<leftarrow> set_each e (if first then add_body e else remove_body e) (h p) st;
     if n = 0 then Some (h(p := s), dst, n) else diff2_loop e False ps (h(p := s)) (dst, n) }"

definition size_at :: "set_store \<Rightarrow> nat option \<Rightarrow> nat" where
  "size_at h p = (case p of None \<Rightarrow> 0 | Some p \<Rightarrow> setTypeSize (h p))"

definition diff_algo :: "set_store \<Rightarrow> nat \<Rightarrow> nat option list \<Rightarrow> nat" where
  "diff_algo h p0 sets =
     (let existing = filter (\<lambda>p. p \<noteq> None) sets;
          algo_one_work = length existing * setTypeSize (h p0);
          algo_two_work = sum_list (map (size_at h) existing)
      in if algo_one_work div 2 \<le> algo_two_work then 1 else 2)"

datatype set_op = SET_OP_UNION | SET_OP_DIFF

text \<open>The loops of \<open>sunionDiffGenericCommand\<close>; \<open>qsort\<close> is a sort by the comparison it is given.\<close>

definition sunionDiff :: "set_env \<Rightarrow> set_op \<Rightarrow> nat option list \<Rightarrow> set_store \<Rightarrow> (set_store \<times> set_obj \<times> nat) option" where
  "sunionDiff e op sets h =
     (let dst = Set_intset intsetNew in
      case op of
        SET_OP_UNION \<Rightarrow> union_loop e sets h (dst, 0)
      | SET_OP_DIFF \<Rightarrow>
          (case sets of
             Some p0 # ps \<Rightarrow>
               if diff_algo h p0 sets = 1
               then diff1 e p0 (if length sets > 1 then sort_key (\<lambda>p. - int (size_at h p)) ps else ps) h (dst, 0)
               else diff2_loop e True sets h (dst, 0)
           | _ \<Rightarrow> Some (h, dst, 0)))"

text \<open>The loops of \<open>sinterGenericCommand\<close>: the elements go to the reply or, with a target key, into a new set.\<close>

fun in_all :: "set_env \<Rightarrow> nat \<Rightarrow> nat list \<Rightarrow> set_elem \<Rightarrow> set_store \<Rightarrow> (set_store \<times> bool) option" where
  "in_all e p0 [] x h = Some (h, True)"
| "in_all e p0 (p # ps) x h =
     (if p = p0 then in_all e p0 ps x h
      else do {
        (h, b) \<leftarrow>
          (case (x, h p) of
             (El_ll v, Set_intset is) \<Rightarrow> map_option (Pair h) (intsetFind is v)
           | _ \<Rightarrow> do { (s, b) \<leftarrow> setTypeIsMember e (h p) (elem_sds x); Some (h(p := s), b) });
        if b then in_all e p0 ps x h else Some (h, False) })"

definition inter_body :: "set_env \<Rightarrow> bool \<Rightarrow> nat \<Rightarrow> nat list \<Rightarrow> set_elem \<Rightarrow> set_store \<times> set_obj \<times> sds list \<Rightarrow>
  (set_store \<times> set_obj \<times> sds list) option" where
  "inter_body e store p0 ps x st = (case st of (h, dst, out) \<Rightarrow> do {
     (h, b) \<leftarrow> in_all e p0 ps x h;
     if \<not> b then Some (h, dst, out)
     else if \<not> store then Some (h, dst, out @ [elem_sds x])
     else do { (dst, _) \<leftarrow> setTypeAdd e dst (elem_sds x); Some (h, dst, out) } })"

definition sinter :: "set_env \<Rightarrow> bool \<Rightarrow> nat list \<Rightarrow> set_store \<Rightarrow> (set_store \<times> set_obj \<times> sds list) option" where
  "sinter e store sets h =
     (case sort_key (\<lambda>p. setTypeSize (h p)) sets of
        [] \<Rightarrow> None
      | p0 # ps \<Rightarrow> do {
          (s, h, dst, out) \<leftarrow> set_each e (inter_body e store p0 ps) (h p0) (h, Set_intset intsetNew, []);
          Some (h(p0 := s), dst, out) })"

section \<open>What the loops compute\<close>

text \<open>The objects of the store may do rehashing steps, but hold the same elements.\<close>

definition same_sets :: "set_env \<Rightarrow> set_store \<Rightarrow> set_store \<Rightarrow> bool" where
  "same_sets e h h' \<longleftrightarrow> (\<forall>p. set_wf e (h' p) \<and> set_elems (h' p) = set_elems (h p))"

lemma same_sets_refl: "(\<And>p. set_wf e (h p)) \<Longrightarrow> same_sets e h h"
  by (simp add: same_sets_def)

lemma same_sets_trans: "same_sets e h h' \<Longrightarrow> same_sets e h' h'' \<Longrightarrow> same_sets e h h''"
  by (simp add: same_sets_def)

lemma same_sets_upd: "same_sets e h h' \<Longrightarrow> set_wf e s \<Longrightarrow> set_elems s = set_elems (h p) \<Longrightarrow> same_sets e h (h'(p := s))"
  by (simp add: same_sets_def)

lemma same_sets_size: "same_sets e h h' \<Longrightarrow> set_wf e (h p) \<Longrightarrow> setTypeSize (h' p) = setTypeSize (h p)"
  using set_size_card by (metis same_sets_def)

definition elems_at :: "set_store \<Rightarrow> nat option \<Rightarrow> sds set" where
  "elems_at h p = (case p of None \<Rightarrow> {} | Some p \<Rightarrow> set_elems (h p))"

lemma elems_at_simps [simp]: "elems_at h None = {}" "elems_at h (Some p) = set_elems (h p)"
    "size_at h None = 0" "size_at h (Some p) = setTypeSize (h p)"
  by (simp_all add: elems_at_def size_at_def)

lemma same_sets_at: "same_sets e h h' \<Longrightarrow> elems_at h' p = elems_at h p"
  by (cases p) (simp_all add: same_sets_def)

lemma empty_set_obj [simp]: "set_wf e (Set_intset intsetNew)" "set_elems (Set_intset intsetNew) = {}" "setTypeSize (Set_intset intsetNew) = 0"
  by (simp_all add: set_wf_def set_elems_def setTypeSize_def intsetNew_def intset_wf_def intset_vals_def intsetLen_def)


lemma run_add_body:
  assumes "set_wf e dst" "setTypeSize dst + length xs \<le> 2 ^ 29 - 1" "n = card (set_elems dst)"
  shows "\<exists>dst'. run_body (add_body e) xs (dst, n) = Some (dst', card (set_elems dst')) \<and> set_wf e dst' \<and>
    set_elems dst' = set_elems dst \<union> elem_sds ` set xs"
  using assms
proof (induction xs arbitrary: dst n)
  case (Cons x xs)
  have cap: "setTypeSize dst < 2 ^ 29 - 1" using Cons.prems(2) by simp
  obtain d1 where d1: "setTypeAdd e dst (elem_sds x) = Some (d1, elem_sds x \<notin> set_elems dst)" "set_wf e d1"
    "set_elems d1 = insert (elem_sds x) (set_elems dst)"
    using setTypeAdd_spec [OF Cons.prems(1) cap] by blast
  have fin: "finite (set_elems dst)" using set_size_card [OF Cons.prems(1)] by blast
  have sz: "setTypeSize d1 + length xs \<le> 2 ^ 29 - 1"
    using set_type.size_add [OF Cons.prems(1) _ cap d1(1)] Cons.prems(2) by (simp split: if_splits)
  have n: "(if elem_sds x \<notin> set_elems dst then n + 1 else n) = card (set_elems d1)"
    using Cons.prems(3) d1(3) fin by (simp add: card_insert_if)
  from Cons.IH [OF d1(2) sz n] show ?case using d1 by (auto simp: add_body_def [of e x])
qed simp

lemma run_remove_body:
  assumes "set_wf e dst" "n = card (set_elems dst)"
  shows "\<exists>dst'. run_body (remove_body e) xs (dst, n) = Some (dst', card (set_elems dst')) \<and> set_wf e dst' \<and>
    set_elems dst' = set_elems dst - elem_sds ` set xs"
  using assms
proof (induction xs arbitrary: dst n)
  case (Cons x xs)
  obtain d1 where d1: "setTypeRemove e dst (elem_sds x) = Some (d1, elem_sds x \<in> set_elems dst)" "set_wf e d1"
    "set_elems d1 = set_elems dst - {elem_sds x}"
    using setTypeRemove_spec [OF Cons.prems(1)] by blast
  have n: "(if elem_sds x \<in> set_elems dst then n - 1 else n) = card (set_elems d1)"
    using Cons.prems d1(3) set_size_card [OF Cons.prems(1)] by (simp add: card_Diff_singleton_if)
  from Cons.IH [OF d1(2) n] show ?case using d1 by (auto simp: remove_body_def [of e x])
qed simp

lemma set_each_add:
  assumes "set_wf e s" "set_wf e dst" "setTypeSize dst + setTypeSize s \<le> 2 ^ 29 - 1" "n = card (set_elems dst)"
  shows "\<exists>dst'. set_each e (add_body e) s (dst, n) = Some (s, dst', card (set_elems dst')) \<and> set_wf e dst' \<and>
    set_elems dst' = set_elems dst \<union> set_elems s"
  using run_add_body [OF assms(2) _ assms(4), of "set_list s"] set_list_elems [OF assms(1)] assms(3)
  by (auto simp: set_each_run [OF assms(1)])

lemma set_each_remove:
  assumes "set_wf e s" "set_wf e dst" "n = card (set_elems dst)"
  shows "\<exists>dst'. set_each e (remove_body e) s (dst, n) = Some (s, dst', card (set_elems dst')) \<and> set_wf e dst' \<and>
    set_elems dst' = set_elems dst - set_elems s"
  using run_remove_body [OF assms(2,3), of "set_list s"] set_list_elems [OF assms(1)]
  by (auto simp: set_each_run [OF assms(1)])

lemma union_loop_spec:
  assumes "\<And>p. set_wf e (h p)" "set_wf e dst" "setTypeSize dst + sum_list (map (size_at h) ps) \<le> 2 ^ 29 - 1"
  shows "\<exists>dst'. union_loop e ps h (dst, card (set_elems dst)) = Some (h, dst', card (set_elems dst')) \<and> set_wf e dst' \<and>
    set_elems dst' = set_elems dst \<union> (\<Union>p \<in> set ps. elems_at h p)"
  using assms(2,3)
proof (induction ps arbitrary: dst)
  case (Cons q ps)
  show ?case
  proof (cases q)
    case None
    with Cons show ?thesis by simp
  next
    case (Some p)
    from set_each_add [OF assms(1) Cons.prems(1), of p] Cons.prems(2) obtain d1 where
      d1: "set_each e (add_body e) (h p) (dst, card (set_elems dst)) = Some (h p, d1, card (set_elems d1))" "set_wf e d1"
        "set_elems d1 = set_elems dst \<union> set_elems (h p)" by (auto simp: Some)
    have "card (set_elems d1) \<le> card (set_elems dst) + card (set_elems (h p))" unfolding d1(3) by (rule card_Un_le)
    then have "setTypeSize d1 + sum_list (map (size_at h) ps) \<le> 2 ^ 29 - 1"
      using Cons.prems set_size_card [OF d1(2)] set_size_card [OF assms(1), of p] set_size_card [OF Cons.prems(1)] by (simp add: Some)
    from Cons.IH [OF d1(2) this] d1 show ?thesis by (auto simp: Some)
  qed
qed simp

lemma diff2_loop_spec:
  assumes "\<And>p. set_wf e (h p)" "set_wf e dst"
  shows "\<exists>dst'. diff2_loop e False ps h (dst, card (set_elems dst)) = Some (h, dst', card (set_elems dst')) \<and> set_wf e dst' \<and>
    set_elems dst' = set_elems dst - (\<Union>p \<in> set ps. elems_at h p)"
  using assms(2)
proof (induction ps arbitrary: dst)
  case (Cons q ps)
  show ?case
  proof (cases q)
    case None
    with Cons show ?thesis by simp
  next
    case (Some p)
    from set_each_remove [OF assms(1) Cons.prems, of _ p] obtain d1 where
      d1: "set_each e (remove_body e) (h p) (dst, card (set_elems dst)) = Some (h p, d1, card (set_elems d1))" "set_wf e d1"
        "set_elems d1 = set_elems dst - set_elems (h p)" by auto
    have "card (set_elems d1) = 0 \<longleftrightarrow> set_elems d1 = {}" using set_size_card [OF d1(2)] by auto
    with Cons.IH [OF d1(2)] d1 show ?thesis by (auto simp: Some)
  qed
qed simp

text \<open>Algorithm 1.\<close>

lemma in_others_spec:
  assumes "\<And>p. set_wf e (h p)" "x \<in> set_elems (h p0)"
  shows "\<exists>h'. in_others e p0 ps x h = Some (h', x \<in> (\<Union>p \<in> set ps. elems_at h p)) \<and> same_sets e h h'"
  using assms
proof (induction ps arbitrary: h)
  case (Cons q ps)
  show ?case
  proof (cases q)
    case None
    with Cons show ?thesis by simp
  next
    case (Some p)
    show ?thesis
    proof (cases "p = p0")
      case True
      with Cons.prems show ?thesis by (simp add: Some same_sets_refl)
    next
      case False
      obtain s where s: "setTypeIsMember e (h p) x = Some (s, x \<in> set_elems (h p))" "set_wf e s" "set_elems s = set_elems (h p)"
        using setTypeIsMember_spec [OF Cons.prems(1)] by blast
      have eq: "same_sets e h (h(p := s))" using s Cons.prems(1) by (simp add: same_sets_def)
      have "\<And>p'. set_wf e ((h(p := s)) p')" "x \<in> set_elems ((h(p := s)) p0)" using s Cons.prems by auto
      from Cons.IH [where h = "h(p := s)", OF this] obtain h' where h': "in_others e p0 ps x (h(p := s)) = Some (h', x \<in> (\<Union>q \<in> set ps. elems_at (h(p := s)) q))"
        "same_sets e (h(p := s)) h'" by blast
      from same_sets_trans [OF eq h'(2)] h'(1) s False eq show ?thesis
        by (auto simp: Some Let_def same_sets_at [OF eq])
    qed
  qed
qed (simp add: same_sets_refl)

lemma run_diff1_body:
  assumes "same_sets e h0 h" "set_wf e dst" "setTypeSize dst + length xs \<le> 2 ^ 29 - 1" "distinct (map elem_sds xs)"
    "elem_sds ` set xs \<subseteq> set_elems (h0 p0)" "elem_sds ` set xs \<inter> set_elems dst = {}"
  shows "\<exists>h' dst'. run_body (diff1_body e p0 ps) xs (h, dst, card (set_elems dst)) = Some (h', dst', card (set_elems dst')) \<and>
    same_sets e h0 h' \<and> set_wf e dst' \<and> set_elems dst' = set_elems dst \<union> (elem_sds ` set xs - (\<Union>p \<in> set ps. elems_at h0 p))"
  using assms
proof (induction xs arbitrary: h dst)
  case (Cons x xs)
  let ?x = "elem_sds x" and ?U = "\<Union>p \<in> set ps. elems_at h0 p"
  have h: "\<And>p. set_wf e (h p)" "?x \<in> set_elems (h p0)" using Cons.prems(1,5) by (auto simp: same_sets_def)
  obtain h1 where h1: "in_others e p0 ps ?x h = Some (h1, ?x \<in> ?U)" "same_sets e h0 h1"
    using in_others_spec [where h = h, OF h, of ps] same_sets_trans [OF Cons.prems(1)] by (auto simp: same_sets_at [OF Cons.prems(1)])
  show ?case
  proof (cases "?x \<in> ?U")
    case True
    with h1 Cons.IH [OF h1(2) Cons.prems(2)] Cons.prems show ?thesis by (auto simp: diff1_body_def [of e p0 ps x])
  next
    case False
    have cap: "setTypeSize dst < 2 ^ 29 - 1" and nx: "?x \<notin> set_elems dst" using Cons.prems by auto
    obtain d1 where d1: "setTypeAdd e dst ?x = Some (d1, True)" "set_wf e d1" "set_elems d1 = insert ?x (set_elems dst)"
      using setTypeAdd_spec [OF Cons.prems(2) cap, of ?x] nx by auto
    have c: "card (set_elems d1) = card (set_elems dst) + 1" "setTypeSize d1 + length xs \<le> 2 ^ 29 - 1"
      using d1 nx set_size_card [OF Cons.prems(2)] set_size_card [OF d1(2)] Cons.prems(3) by auto
    from Cons.IH [OF h1(2) d1(2) c(2)] Cons.prems(4-6) d1(3) obtain h' d' where
      "run_body (diff1_body e p0 ps) xs (h1, d1, card (set_elems d1)) = Some (h', d', card (set_elems d'))"
      "same_sets e h0 h'" "set_wf e d'" "set_elems d' = set_elems d1 \<union> (elem_sds ` set xs - ?U)" by auto
    with False h1 d1 c(1) show ?thesis by (auto simp: diff1_body_def [of e p0 ps x])
  qed
qed simp

lemma diff1_spec:
  assumes wf: "\<And>p. set_wf e (h p)" and cap: "setTypeSize (h p0) \<le> 2 ^ 29 - 1"
  shows "\<exists>h' dst. diff1 e p0 ps h (Set_intset intsetNew, 0) = Some (h', dst, card (set_elems dst)) \<and> same_sets e h h' \<and> set_wf e dst \<and>
    set_elems dst = set_elems (h p0) - (\<Union>p \<in> set ps. elems_at h p)"
proof -
  note l = set_list_elems [OF wf, of p0]
  obtain h' dst where "run_body (diff1_body e p0 ps) (set_list (h p0)) (h, Set_intset intsetNew, 0) = Some (h', dst, card (set_elems dst))"
    "same_sets e h h'" "set_wf e dst" "set_elems dst = set_elems (h p0) - (\<Union>p \<in> set ps. elems_at h p)"
    using run_diff1_body [OF same_sets_refl [where h = h, OF wf] empty_set_obj(1), of "set_list (h p0)" p0 ps] l cap by auto
  then show ?thesis using same_sets_upd [of e h h' "h p0" p0] wf by (auto simp: diff1_def set_each_run [OF wf])
qed


lemma diff2_spec:
  assumes wf: "\<And>p. set_wf e (h p)" and cap: "setTypeSize (h p0) \<le> 2 ^ 29 - 1"
  shows "\<exists>dst. diff2_loop e True (Some p0 # ps) h (Set_intset intsetNew, 0) = Some (h, dst, card (set_elems dst)) \<and> set_wf e dst \<and>
    set_elems dst = set_elems (h p0) - (\<Union>p \<in> set ps. elems_at h p)"
proof -
  obtain d1 where d1: "set_each e (add_body e) (h p0) (Set_intset intsetNew, 0) = Some (h p0, d1, card (set_elems d1))" "set_wf e d1"
    "set_elems d1 = set_elems (h p0)"
    using set_each_add [OF wf empty_set_obj(1), of p0 0] cap by auto
  have "card (set_elems d1) = 0 \<longleftrightarrow> set_elems d1 = {}" using set_size_card [OF d1(2)] by auto
  with diff2_loop_spec [where h = h, OF wf d1(2), of ps] d1 show ?thesis by auto
qed

text \<open>Intersection.\<close>

definition elem_ok :: "set_elem \<Rightarrow> bool" where
  "elem_ok x = (case x of El_ll v \<Rightarrow> int64 v | El_sds _ \<Rightarrow> True)"

lemma set_list_ok: "set_wf e s \<Longrightarrow> x \<in> set (set_list s) \<Longrightarrow> elem_ok x"
  using intset_vals_int64 by (auto simp: set_list_def set_wf_def elem_ok_def split: set_obj.splits)

lemma in_all_spec:
  assumes "\<And>p. set_wf e (h p)" "elem_sds x \<in> set_elems (h p0)" "elem_ok x"
  shows "\<exists>h'. in_all e p0 ps x h = Some (h', \<forall>p \<in> set ps. elem_sds x \<in> set_elems (h p)) \<and> same_sets e h h'"
  using assms(1,2)
proof (induction ps arbitrary: h)
  case (Cons p ps)
  show ?case
  proof (cases "p = p0")
    case True
    with Cons show ?thesis by simp
  next
    case False
    let ?t = "case (x, h p) of (El_ll v, Set_intset is) \<Rightarrow> map_option (Pair h) (intsetFind is v)
      | _ \<Rightarrow> do { (s, b) \<leftarrow> setTypeIsMember e (h p) (elem_sds x); Some (h(p := s), b) }"
    obtain h1 where h1: "?t = Some (h1, elem_sds x \<in> set_elems (h p))" "same_sets e h h1"
    proof (cases "\<exists>v is. x = El_ll v \<and> h p = Set_intset is")
      case True
      then obtain v "is" where v: "x = El_ll v" "h p = Set_intset is" by blast
      then have i: "intset_wf is" "int64 v" using Cons.prems(1) [of p] assms(3) by (simp_all add: set_wf_def elem_ok_def)
      then have "?t = Some (h, elem_sds x \<in> set_elems (h p))"
        using intset_set.find_law [OF i] ll_repr_mem [OF i] by (simp add: v set_elems_def)
      then show ?thesis using that same_sets_refl [where h = h, OF Cons.prems(1)] by blast
    next
      case False
      obtain s where s: "setTypeIsMember e (h p) (elem_sds x) = Some (s, elem_sds x \<in> set_elems (h p))" "set_wf e s"
          "set_elems s = set_elems (h p)"
        using setTypeIsMember_spec [OF Cons.prems(1)] by blast
      then have "?t = Some (h(p := s), elem_sds x \<in> set_elems (h p))"
        using False by (auto split: set_elem.splits set_obj.splits)
      moreover have "same_sets e h (h(p := s))" using s Cons.prems(1) by (simp add: same_sets_def)
      ultimately show ?thesis using that by blast
    qed
    have "\<And>p. set_wf e (h1 p)" "elem_sds x \<in> set_elems (h1 p0)" using h1(2) Cons.prems(2) by (simp_all add: same_sets_def)
    from Cons.IH [where h = h1, OF this] obtain h' where
      h': "in_all e p0 ps x h1 = Some (h', \<forall>p \<in> set ps. elem_sds x \<in> set_elems (h p))" "same_sets e h h'"
      using h1(2) same_sets_trans [OF h1(2)] by (auto simp: same_sets_def)
    have "in_all e p0 (p # ps) x h = do { (h, b) \<leftarrow> ?t; if b then in_all e p0 ps x h else Some (h, False) }"
      using False by simp
    then show ?thesis unfolding h1(1) using h' h1(2) by (cases "elem_sds x \<in> set_elems (h p)") auto
  qed
qed (simp add: same_sets_refl)

definition in_each :: "set_store \<Rightarrow> nat list \<Rightarrow> sds \<Rightarrow> bool" where
  "in_each h ps x \<longleftrightarrow> (\<forall>p \<in> set ps. x \<in> set_elems (h p))"

text \<open>What one element contributes, and the whole iteration.\<close>

lemma run_inter_body:
  assumes "same_sets e h0 h" "set_wf e dst" "setTypeSize dst + length xs \<le> 2 ^ 29 - 1"
    "elem_sds ` set xs \<subseteq> set_elems (h0 p0)" "\<forall>x \<in> set xs. elem_ok x"
  shows "\<exists>h' dst'. run_body (inter_body e store p0 ps) xs (h, dst, out) =
      Some (h', dst', out @ (if store then [] else filter (in_each h0 ps) (map elem_sds xs))) \<and>
    same_sets e h0 h' \<and> set_wf e dst' \<and>
    set_elems dst' = set_elems dst \<union> (if store then {x \<in> elem_sds ` set xs. in_each h0 ps x} else {})"
  using assms
proof (induction xs arbitrary: h dst out)
  case (Cons x xs)
  let ?x = "elem_sds x" and ?all = "in_each h0 ps"
  have h: "\<And>p. set_wf e (h p)" "?x \<in> set_elems (h p0)" "elem_ok x" using Cons.prems(1,4,5) by (auto simp: same_sets_def)
  obtain h1 where h1: "in_all e p0 ps x h = Some (h1, ?all ?x)" "same_sets e h0 h1"
    using in_all_spec [where h = h, OF h, of ps] same_sets_trans [OF Cons.prems(1)] Cons.prems(1) by (auto simp: same_sets_def in_each_def)
  show ?case
  proof (cases "?all ?x \<and> store")
    case True
    have cap: "setTypeSize dst < 2 ^ 29 - 1" using Cons.prems(3) by simp
    obtain d1 b where d1: "setTypeAdd e dst ?x = Some (d1, b)" "set_wf e d1" "set_elems d1 = insert ?x (set_elems dst)"
      using setTypeAdd_spec [OF Cons.prems(2) cap] by blast
    have "setTypeSize d1 + length xs \<le> 2 ^ 29 - 1"
      using set_type.size_add [OF Cons.prems(2) _ cap d1(1)] Cons.prems(3) by (simp split: if_splits)
    from Cons.IH [OF h1(2) d1(2) this, of out] Cons.prems(4,5) True obtain h' d' where
      r: "run_body (inter_body e store p0 ps) xs (h1, d1, out) = Some (h', d', out)" "same_sets e h0 h'" "set_wf e d'"
      "set_elems d' = set_elems d1 \<union> {x \<in> elem_sds ` set xs. ?all x}" by auto
    have "inter_body e store p0 ps x (h, dst, out) = Some (h1, d1, out)" using h1 d1 True by (simp add: inter_body_def)
    moreover have "set_elems d' = set_elems dst \<union> {y \<in> elem_sds ` set (x # xs). ?all y}" using r(4) d1(3) True by auto
    ultimately show ?thesis using r(1-3) True by simp
  next
    case False
    let ?out = "if ?all ?x then out @ [?x] else out"
    have "inter_body e store p0 ps x (h, dst, out) = Some (h1, dst, ?out)" using h1 False by (auto simp: inter_body_def)
    moreover have "{y \<in> elem_sds ` set (x # xs). ?all y} = {x \<in> elem_sds ` set xs. ?all x}" if store using False that by auto
    ultimately show ?thesis using Cons.IH [OF h1(2) Cons.prems(2), of ?out] Cons.prems(3-5) False
      by (cases "?all ?x"; cases store) simp_all
  qed
qed simp

section \<open>Properties\<close>

text \<open>C15.  Whatever its encoding, and also when an insertion changes the encoding, a set object behaves as a finite set of
  strings: insertion, removal and the test for membership are memory safe, fail no assertion and answer
  exactly, an integer in any of its encodings being the string that prints it.  The set has fewer than
  \<open>2 ^ 29 - 1\<close> elements, so that an intset of them has a 32-bit byte size.\<close>

theorem setType_refines_set:
  assumes "set_wf e s" "setTypeSize s < 2 ^ 29 - 1"
  shows "(\<exists>s'. setTypeAdd e s x = Some (s', x \<notin> set_elems s) \<and> set_wf e s' \<and> set_elems s' = insert x (set_elems s)) \<and>
    (\<exists>s'. setTypeRemove e s x = Some (s', x \<in> set_elems s) \<and> set_wf e s' \<and> set_elems s' = set_elems s - {x}) \<and>
    (\<exists>s'. setTypeIsMember e s x = Some (s', x \<in> set_elems s) \<and> set_wf e s' \<and> set_elems s' = set_elems s)"
  using setTypeAdd_spec [OF assms] setTypeRemove_spec [OF assms(1)] setTypeIsMember_spec [OF assms(1)] by blast

text \<open>C16.  The loops of SUNION and SDIFF compute the union of the sets and the difference of the first set and the others, with
  the right cardinality, for keys that do not exist and for keys named twice as well; the two algorithms
  for the difference, between which the code chooses by the sizes, compute the same set.\<close>

theorem sunionDiff_correct:
  assumes wf: "\<And>p. set_wf e (h p)" and cap: "sum_list (map (size_at h) sets) \<le> 2 ^ 29 - 1"
  shows "(\<exists>h' dst. sunionDiff e SET_OP_UNION sets h = Some (h', dst, card (set_elems dst)) \<and> same_sets e h h' \<and> set_wf e dst \<and>
      set_elems dst = (\<Union>p \<in> set sets. elems_at h p)) \<and>
    (sets = q # ps \<longrightarrow> (\<exists>h' dst. sunionDiff e SET_OP_DIFF sets h = Some (h', dst, card (set_elems dst)) \<and> same_sets e h h' \<and>
      set_wf e dst \<and> set_elems dst = elems_at h q - (\<Union>p \<in> set ps. elems_at h p))) \<and>
    (sets = Some p0 # ps \<longrightarrow> (\<exists>h1 d1 d2 n. diff1 e p0 ps h (Set_intset intsetNew, 0) = Some (h1, d1, n) \<and>
      diff2_loop e True sets h (Set_intset intsetNew, 0) = Some (h, d2, n) \<and> set_elems d1 = set_elems d2))"
proof (intro conjI impI)
  show "\<exists>h' dst. sunionDiff e SET_OP_UNION sets h = Some (h', dst, card (set_elems dst)) \<and> same_sets e h h' \<and> set_wf e dst \<and>
      set_elems dst = (\<Union>p \<in> set sets. elems_at h p)"
    using union_loop_spec [where h = h, OF wf empty_set_obj(1), of sets] cap same_sets_refl [where h = h, OF wf]
    by (auto simp: sunionDiff_def)
next
  assume sets: "sets = q # ps"
  show "\<exists>h' dst. sunionDiff e SET_OP_DIFF sets h = Some (h', dst, card (set_elems dst)) \<and> same_sets e h h' \<and>
      set_wf e dst \<and> set_elems dst = elems_at h q - (\<Union>p \<in> set ps. elems_at h p)"
  proof (cases q)
    case None
    then show ?thesis using same_sets_refl [where h = h, OF wf] by (auto simp: sunionDiff_def sets)
  next
    case (Some p)
    have cap': "setTypeSize (h p) \<le> 2 ^ 29 - 1" using cap by (simp add: sets Some)
    let ?ps = "if length sets > 1 then sort_key (\<lambda>p. - int (size_at h p)) ps else ps"
    have "set ?ps = set ps" by simp
    moreover have "sunionDiff e SET_OP_DIFF sets h =
        (if diff_algo h p sets = 1 then diff1 e p ?ps h (Set_intset intsetNew, 0)
         else diff2_loop e True (Some p # ps) h (Set_intset intsetNew, 0))" by (simp add: sunionDiff_def sets Some)
    ultimately show ?thesis
      using diff1_spec [where h = h, OF wf cap', of ?ps] diff2_spec [where h = h, OF wf cap', of ps] same_sets_refl [where h = h, OF wf]
      by (cases "diff_algo h p sets = 1") (auto simp: Some)
  qed
next
  assume sets: "sets = Some p0 # ps"
  have cap': "setTypeSize (h p0) \<le> 2 ^ 29 - 1" using cap by (simp add: sets)
  from diff1_spec [where h = h, OF wf cap', of ps] diff2_spec [where h = h, OF wf cap', of ps]
  show "\<exists>h1 d1 d2 n. diff1 e p0 ps h (Set_intset intsetNew, 0) = Some (h1, d1, n) \<and>
      diff2_loop e True sets h (Set_intset intsetNew, 0) = Some (h, d2, n) \<and> set_elems d1 = set_elems d2"
    unfolding sets by metis
qed

text \<open>C35.  The loops of SINTER and SINTERSTORE find exactly the elements common to all the sets, each once, in whatever encodings
  the sets are and however often a key is named.\<close>

theorem sinter_correct:
  assumes wf: "\<And>p. set_wf e (h p)" and cap: "\<forall>p \<in> set sets. setTypeSize (h p) \<le> 2 ^ 29 - 1" and ne: "sets \<noteq> []"
  shows "\<exists>h' dst out. sinter e store sets h = Some (h', dst, out) \<and> same_sets e h h' \<and> set_wf e dst \<and> distinct out \<and>
    (if store then set_elems dst else set out) = (\<Inter>p \<in> set sets. set_elems (h p))"
proof -
  obtain p0 ps where s: "sort_key (\<lambda>p. setTypeSize (h p)) sets = p0 # ps"
    using ne by (metis length_0_conv length_sort neq_Nil_conv)
  then have set: "set sets = insert p0 (set ps)" by (metis list.simps(15) set_sort)
  note l = set_list_elems [OF wf, of p0] and r = same_sets_refl [where h = h, OF wf]
  obtain h' dst out where "run_body (inter_body e store p0 ps) (set_list (h p0)) (h, Set_intset intsetNew, []) = Some (h', dst, out)"
    "same_sets e h h'" "set_wf e dst" "out = (if store then [] else filter (in_each h ps) (map elem_sds (set_list (h p0))))"
    "set_elems dst = (if store then {x \<in> set_elems (h p0). in_each h ps x} else {})"
    using run_inter_body [OF r empty_set_obj(1), of "set_list (h p0)" p0 store ps "[]"] l cap set set_list_ok [OF wf, of _ p0] by auto
  then show ?thesis using l same_sets_upd [of e h h' "h p0" p0] wf set
    by (auto simp: sinter_def s set_each_run [OF wf] in_each_def)
qed


text \<open>A store with the integers 1 and 2, and elsewhere the set of the strings 2 and x.\<close>

definition env_example :: set_env where
  "env_example = \<lparr>hash_fn = (\<lambda>_. 0), can_resize = True, set_max_intset_entries = 512, heap_fill = (\<lambda>_. 0),
     tbl_addr = (\<lambda>_. 0), iter_junk = 0\<rparr>"

definition ht_example :: "(sds, unit) dict" where
  "ht_example = \<lparr>ht0 = \<lparr>tbl = [[([50], ()), ([120], ())], [], [], []], hsize = 4, sizemask = 3, used = 2\<rparr>,
     ht1 = dictReset, rehashidx = -1, iterators = 0\<rparr>"

definition store_example :: set_store where
  "store_example p = (if p = 0 then Set_intset intset_12 else Set_ht ht_example)"

lemma set_example:
  "set_wf env_example (store_example p)" "set_elems (store_example 0) = {[49], [50]}" "set_elems (store_example 1) = {[50], [120]}"
  "setTypeSize (store_example p) = 2"
proof -
  have "\<exists>m. (4::nat) = 2 ^ m" by (rule exI [of _ 2]) simp
  then have "ht_wf (\<lambda>_. 0) (ht0 ht_example)"
    by (simp add: ht_wf_def ht_example_def hash_idx_def ht_entries_def All_less_Suc)
  then have "dict_wf (\<lambda>_. 0) ht_example"
    by (auto simp: dict_wf_def) (auto simp: ht_example_def dict_entries_def ht_entries_def)
  then show "set_wf env_example (store_example p)"
    using intset_12_wf by (simp add: store_example_def set_wf_def env_example_def)
  show "set_elems (store_example 0) = {[49], [50]}"
    by (simp add: store_example_def set_elems_def intset_12_vals ll_repr_def dec_small)
  show "set_elems (store_example 1) = {[50], [120]}"
    by (auto simp: store_example_def set_elems_def dict_map_def dict_entries_def ht_example_def ht_entries_def split: if_splits)
  show "setTypeSize (store_example p) = 2"
    by (simp add: store_example_def setTypeSize_def dictSize_def ht_example_def intsetLen_def intset_12_def)
qed

theorem setType_refines_set_witness:
  "\<exists>s'. setTypeAdd env_example (store_example 0) [120] = Some (s', True) \<and> set_elems s' = {[120], [49], [50]}"
proof -
  have "[120 :: byte] \<notin> set_elems (store_example 0)" by (simp add: set_example(2))
  then show ?thesis
    using setType_refines_set [OF set_example(1), of 0 "[120]"] by (auto simp: set_example(2,4))
qed

theorem sunionDiff_correct_witness:
  "\<exists>h' dst. sunionDiff env_example SET_OP_DIFF [Some 0, None, Some 1] store_example = Some (h', dst, card (set_elems dst)) \<and>
    set_elems dst = {[49]}"
proof -
  have "set_elems (store_example 0) - (\<Union>p \<in> set [None, Some 1]. elems_at store_example p) = {[49]}"
    by (auto simp: set_example(2,3) simp del: One_nat_def)
  then show ?thesis
    using sunionDiff_correct [where h = store_example, OF set_example(1), of "[Some 0, None, Some 1]" "Some 0" "[None, Some 1]" 0]
    by (auto simp: set_example(4))
qed

theorem sinter_correct_witness:
  "\<exists>h' dst out. sinter env_example False [1, 0, 1] store_example = Some (h', dst, out) \<and> set out = {[50]}"
proof -
  have "(\<Inter>p \<in> set [1, 0, 1]. set_elems (store_example p)) = {[50]}" by (auto simp: set_example(2,3) simp del: One_nat_def)
  then show ?thesis
    using sinter_correct [where h = store_example and sets = "[1, 0, 1]" and store = False, OF set_example(1)] by (auto simp: set_example(4))
qed

end
