(* ===== verification/Redis_Db.thy ===== *)
theory Redis_Db
  imports Redis_Server
begin

text \<open>
  The keyspace: \<open>db.c\<close>, the expire commands of \<open>expire.c\<close> and the marking of watching clients
  (\<open>touchWatchedKey\<close> and \<open>touchWatchedKeysOnFlush\<close> of \<open>multi.c\<close>, which \<open>signalModifiedKey\<close> and
  \<open>signalFlushedDb\<close> call).  Not in cluster mode (no slot index), no clients blocked on keys (so
  \<open>signalKeyAsReady\<close> finds nobody), and a writable replica's list of keys with an expire is left
  out.  Synchronous and lazy deletion differ only in the thread that frees the value.
\<close>

section \<open>Watching clients\<close>

definition dirty_cas :: "nat \<Rightarrow> server \<Rightarrow> server" where
  "dirty_cas c s = upd_client c (\<lambda>cl. cl\<lparr>flags := insert CLIENT_DIRTY_CAS (flags cl)\<rparr>) s"

definition touchWatchedKey :: "nat \<Rightarrow> sds \<Rightarrow> server \<Rightarrow> server" where
  "touchWatchedKey i key s =
     (case db_watched (dbs s i) key of None \<Rightarrow> s | Some cs \<Rightarrow> fold dirty_cas cs s)"

text \<open>\<open>dbid\<close> is \<^const>\<open>None\<close> for \<open>-1\<close>.\<close>

definition flush_touch :: "nat option \<Rightarrow> nat \<Rightarrow> nat \<times> sds \<Rightarrow> server \<Rightarrow> server" where
  "flush_touch dbid c wk s =
     (case wk of (i, key) \<Rightarrow>
        if (dbid = None \<or> dbid = Some i) \<and> db_dict (dbs s i) key \<noteq> None then dirty_cas c s else s)"

definition touchWatchedKeysOnFlush :: "nat option \<Rightarrow> server \<Rightarrow> server" where
  "touchWatchedKeysOnFlush dbid s =
     fold (\<lambda>c s. fold (flush_touch dbid c) (watched_keys (clients s c)) s) (client_list s) s"

definition signalModifiedKey :: "nat \<Rightarrow> sds \<Rightarrow> server \<Rightarrow> server" where
  "signalModifiedKey i key s = touchWatchedKey i key s"

definition signalFlushedDb :: "nat option \<Rightarrow> server \<Rightarrow> server" where
  "signalFlushedDb dbid s = touchWatchedKeysOnFlush dbid s"

section \<open>Expires\<close>

definition set_expire :: "nat \<Rightarrow> sds \<Rightarrow> int option \<Rightarrow> server \<Rightarrow> server" where
  "set_expire i key e s = upd_db i (\<lambda>d. d\<lparr>db_expires := (db_expires d)(key := e)\<rparr>) s"

definition set_value :: "nat \<Rightarrow> sds \<Rightarrow> robj option \<Rightarrow> server \<Rightarrow> server" where
  "set_value i key v s = upd_db i (\<lambda>d. d\<lparr>db_dict := (db_dict d)(key := v)\<rparr>) s"

abbreviation lookupKey :: "nat \<Rightarrow> sds \<Rightarrow> server \<Rightarrow> robj option" where
  "lookupKey i key s \<equiv> db_dict (dbs s i) key"

definition removeExpire :: "nat \<Rightarrow> sds \<Rightarrow> server \<Rightarrow> (server \<times> bool) option" where
  "removeExpire i key s =
     (if lookupKey i key s \<noteq> None
      then Some (set_expire i key None s, db_expires (dbs s i) key \<noteq> None) else None)"

definition setExpire :: "nat \<Rightarrow> sds \<Rightarrow> int \<Rightarrow> server \<Rightarrow> server option" where
  "setExpire i key when s =
     (if lookupKey i key s \<noteq> None then Some (set_expire i key (Some when) s) else None)"

definition getExpire :: "nat \<Rightarrow> sds \<Rightarrow> server \<Rightarrow> int option" where
  "getExpire i key s =
     (case db_expires (dbs s i) key of None \<Rightarrow> Some (-1)
      | Some when \<Rightarrow> if lookupKey i key s \<noteq> None then Some when else None)"

definition propagateExpire :: "nat \<Rightarrow> sds \<Rightarrow> bool \<Rightarrow> server \<Rightarrow> server" where
  "propagateExpire i key lazy s =
     propagate i [if lazy then str_bytes ''UNLINK'' else str_bytes ''DEL'', key] True True s"

definition keyIsExpired :: "nat \<Rightarrow> sds \<Rightarrow> server \<Rightarrow> bool option" where
  "keyIsExpired i key s = do {
     when \<leftarrow> getExpire i key s;
     if when < 0 then Some False
     else if loading s then Some False
     else Some ((if lua_caller s then lua_time_start s else now s) > when) }"

definition dbSyncDelete :: "nat \<Rightarrow> sds \<Rightarrow> server \<Rightarrow> server \<times> bool" where
  "dbSyncDelete i key s =
     (let s' = set_expire i key None s in (set_value i key None s', lookupKey i key s' \<noteq> None))"

definition dbAsyncDelete :: "nat \<Rightarrow> sds \<Rightarrow> server \<Rightarrow> server \<times> bool" where
  "dbAsyncDelete i key s =
     (let s' = set_expire i key None s in
      case lookupKey i key s' of None \<Rightarrow> (s', False) | Some _ \<Rightarrow> (set_value i key None s', True))"

definition expireIfNeeded :: "nat \<Rightarrow> sds \<Rightarrow> server \<Rightarrow> (server \<times> bool) option" where
  "expireIfNeeded i key s = do {
     expired \<leftarrow> keyIsExpired i key s;
     if \<not> expired then Some (s, False)
     else if masterhost s then Some (s, True)
     else
       let s = s\<lparr>stat_expiredkeys := stat_expiredkeys s + 1\<rparr>;
           s = propagateExpire i key (lazyfree_lazy_expire s) s;
           s = notifyKeyspaceEvent ''expired'' key i s
       in Some (if lazyfree_lazy_expire s then dbAsyncDelete i key s else dbSyncDelete i key s) }"

section \<open>Looking up and changing keys\<close>

definition miss :: "server \<Rightarrow> server" where
  "miss s = s\<lparr>stat_keyspace_misses := stat_keyspace_misses s + 1\<rparr>"

definition hit :: "server \<Rightarrow> server" where
  "hit s = s\<lparr>stat_keyspace_hits := stat_keyspace_hits s + 1\<rparr>"

definition lookupKeyRead :: "nat \<Rightarrow> sds \<Rightarrow> server \<Rightarrow> (server \<times> robj option) option" where
  "lookupKeyRead i key s = do {
     (s, expired) \<leftarrow> expireIfNeeded i key s;
     if expired \<and> \<not> masterhost s then Some (miss s, None)
     else if expired \<and>
       (case current_client s of None \<Rightarrow> False
        | Some c \<Rightarrow> current_client s \<noteq> master s \<and> CMD_READONLY \<in> cflags (cmd (clients s c)))
     then Some (miss s, None)
     else case lookupKey i key s of None \<Rightarrow> Some (miss s, None) | Some v \<Rightarrow> Some (hit s, Some v) }"

definition lookupKeyWrite :: "nat \<Rightarrow> sds \<Rightarrow> server \<Rightarrow> (server \<times> robj option) option" where
  "lookupKeyWrite i key s = do {
     (s, _) \<leftarrow> expireIfNeeded i key s;
     Some (s, lookupKey i key s) }"

definition dbAdd :: "nat \<Rightarrow> sds \<Rightarrow> robj \<Rightarrow> server \<Rightarrow> server option" where
  "dbAdd i key val s = (if lookupKey i key s = None then Some (set_value i key (Some val) s) else None)"

definition dbOverwrite :: "nat \<Rightarrow> sds \<Rightarrow> robj \<Rightarrow> server \<Rightarrow> server option" where
  "dbOverwrite i key val s = (if lookupKey i key s \<noteq> None then Some (set_value i key (Some val) s) else None)"

definition setKey :: "nat \<Rightarrow> sds \<Rightarrow> robj \<Rightarrow> server \<Rightarrow> server option" where
  "setKey i key val s = do {
     (s, ob) \<leftarrow> lookupKeyWrite i key s;
     s \<leftarrow> (if ob = None then dbAdd i key val s else dbOverwrite i key val s);
     (s, _) \<leftarrow> removeExpire i key s;
     Some (signalModifiedKey i key s) }"

text \<open>The object at \<open>key\<close> as a private byte string.\<close>

definition dbUnshareStringValue :: "nat \<Rightarrow> sds \<Rightarrow> robj \<Rightarrow> server \<Rightarrow> (server \<times> sds) option" where
  "dbUnshareStringValue i key ob s = do {
     decoded \<leftarrow> getDecodedObject ob;
     case ob of
       Str_sds v \<Rightarrow> Some (s, v)
     | _ \<Rightarrow> do { s \<leftarrow> dbOverwrite i key (Str_sds decoded) s; Some (s, decoded) } }"

definition empty_one :: "nat \<Rightarrow> server \<Rightarrow> server" where
  "empty_one i s = upd_db i (\<lambda>d. d\<lparr>db_dict := Map.empty, db_expires := Map.empty\<rparr>) s"

definition emptyDb :: "int \<Rightarrow> server \<Rightarrow> server \<times> int" where
  "emptyDb n s =
     (if n < -1 \<or> n \<ge> int (dbnum s) then (s, -1)
      else
        let js = (if n = -1 then [0..<dbnum s] else [nat n]) in
        fold (\<lambda>j (s, removed). (empty_one j s, removed + int (card (dom (db_dict (dbs s j)))))) js (s, 0))"

definition selectDb :: "nat \<Rightarrow> int \<Rightarrow> server \<Rightarrow> server option" where
  "selectDb c n s =
     (if n < 0 \<or> n \<ge> int (dbnum s) then None else Some (upd_client c (\<lambda>cl. cl\<lparr>db := nat n\<rparr>) s))"

section \<open>Keyspace commands\<close>

abbreviation cdb :: "nat \<Rightarrow> server \<Rightarrow> nat" where
  "cdb c s \<equiv> db (clients s c)"

text \<open>\<^const>\<open>None\<close> for \<open>C_ERR\<close>; the flag \<open>EMPTYDB_ASYNC\<close> only selects the freeing thread.\<close>

definition getFlushCommandFlags :: "nat \<Rightarrow> server \<Rightarrow> server + bool" where
  "getFlushCommandFlags c s =
     (let a = argv (clients s c) in
      if length a > 1 then
        if length a > 2 \<or> \<not> strcaseeq (a ! 1) ''async'' then Inl (addReply c (R_error E_syntax) s) else Inr True
      else Inr False)"

definition flushdbCommand :: "nat \<Rightarrow> server \<Rightarrow> server option" where
  "flushdbCommand c s =
     (case getFlushCommandFlags c s of
        Inl s \<Rightarrow> Some s
      | Inr _ \<Rightarrow>
          let s = signalFlushedDb (Some (cdb c s)) s;
              (s, removed) = emptyDb (int (cdb c s)) s
          in Some (addReply c R_ok (incr_dirty removed s)))"

text \<open>Killing a saving child and the synchronous save are outside the model; both leave the data alone.\<close>

definition flushallCommand :: "nat \<Rightarrow> server \<Rightarrow> server option" where
  "flushallCommand c s =
     (case getFlushCommandFlags c s of
        Inl s \<Rightarrow> Some s
      | Inr _ \<Rightarrow>
          let s = signalFlushedDb None s;
              (s, removed) = emptyDb (-1) s
          in Some (incr_dirty 1 (addReply c R_ok (incr_dirty removed s))))"

fun del_loop :: "nat \<Rightarrow> bool \<Rightarrow> sds list \<Rightarrow> server \<Rightarrow> nat \<Rightarrow> (server \<times> nat) option" where
  "del_loop c lazy [] s numdel = Some (s, numdel)"
| "del_loop c lazy (key # keys) s numdel = do {
     (s, _) \<leftarrow> expireIfNeeded (cdb c s) key s;
     case (if lazy then dbAsyncDelete (cdb c s) key s else dbSyncDelete (cdb c s) key s) of
       (s, True) \<Rightarrow>
         del_loop c lazy keys
           (incr_dirty 1 (notifyKeyspaceEvent ''del'' key (cdb c s) (signalModifiedKey (cdb c s) key s)))
           (numdel + 1)
     | (s, False) \<Rightarrow> del_loop c lazy keys s numdel }"

definition delGenericCommand :: "nat \<Rightarrow> bool \<Rightarrow> server \<Rightarrow> server option" where
  "delGenericCommand c lazy s = do {
     (s, numdel) \<leftarrow> del_loop c lazy (tl (argv (clients s c))) s 0;
     Some (addReply c (R_longlong (int numdel)) s) }"

fun exists_loop :: "nat \<Rightarrow> sds list \<Rightarrow> server \<Rightarrow> nat \<Rightarrow> (server \<times> nat) option" where
  "exists_loop c [] s count = Some (s, count)"
| "exists_loop c (key # keys) s count = do {
     (s, ob) \<leftarrow> lookupKeyRead (cdb c s) key s;
     exists_loop c keys s (if ob \<noteq> None then count + 1 else count) }"

definition existsCommand :: "nat \<Rightarrow> server \<Rightarrow> server option" where
  "existsCommand c s = do {
     (s, count) \<leftarrow> exists_loop c (tl (argv (clients s c))) s 0;
     Some (addReply c (R_longlong (int count)) s) }"

text \<open>The loop of \<open>touchCommand\<close> is the same.\<close>

definition touchCommand :: "nat \<Rightarrow> server \<Rightarrow> server option" where
  "touchCommand c s = do {
     (s, touched) \<leftarrow> exists_loop c (tl (argv (clients s c))) s 0;
     Some (addReply c (R_longlong (int touched)) s) }"

text \<open>The \<open>long\<close> argument is passed to a parameter of type \<open>int\<close>.\<close>

definition selectCommand :: "nat \<Rightarrow> server \<Rightarrow> server option" where
  "selectCommand c s = do {
     a \<leftarrow> arg c 1 s;
     r \<leftarrow> getLongOrReply c (Some (Str_sds a)) ''invalid DB index'' s;
     case r of
       Inl s \<Rightarrow> Some s
     | Inr n \<Rightarrow>
         (case selectDb c (to_signed 4 (n mod 2 ^ 32)) s of
            None \<Rightarrow> Some (addReplyError c ''DB index is out of range'' s)
          | Some s \<Rightarrow> Some (addReply c R_ok s)) }"

definition dbsizeCommand :: "nat \<Rightarrow> server \<Rightarrow> server option" where
  "dbsizeCommand c s = Some (addReply c (R_longlong (int (card (dom (db_dict (dbs s (cdb c s))))))) s)"

definition type_name :: "robj \<Rightarrow> string" where
  "type_name ob =
     (case ob of Coll OBJ_LIST _ \<Rightarrow> ''list'' | Coll OBJ_SET _ \<Rightarrow> ''set'' | Coll OBJ_ZSET _ \<Rightarrow> ''zset''
      | Coll OBJ_HASH _ \<Rightarrow> ''hash'' | Coll OBJ_STREAM _ \<Rightarrow> ''stream''
      | _ \<Rightarrow> ''string'')"

definition typeCommand :: "nat \<Rightarrow> server \<Rightarrow> server option" where
  "typeCommand c s = do {
     key \<leftarrow> arg c 1 s;
     (s, ob) \<leftarrow> lookupKeyRead (cdb c s) key s;
     Some (addReply c (R_status (case ob of None \<Rightarrow> ''none'' | Some v \<Rightarrow> type_name v)) s) }"

definition renameGenericCommand :: "nat \<Rightarrow> bool \<Rightarrow> server \<Rightarrow> server option" where
  "renameGenericCommand c nx s = do {
     k1 \<leftarrow> arg c 1 s;
     k2 \<leftarrow> arg c 2 s;
     let i = cdb c s in do {
     (s, ob) \<leftarrow> lookupKeyWrite i k1 s;
     case ob of
       None \<Rightarrow> Some (addReply c (R_error E_nokey) s)
     | Some v \<Rightarrow>
         if k1 = k2 then Some (addReply c (if nx then R_longlong 0 else R_ok) s)
         else do {
           expire \<leftarrow> getExpire i k1 s;
           (s, old) \<leftarrow> lookupKeyWrite i k2 s;
           if old \<noteq> None \<and> nx then Some (addReply c (R_longlong 0) s)
           else do {
             s \<leftarrow> dbAdd i k2 v (if old \<noteq> None then fst (dbSyncDelete i k2 s) else s);
             s \<leftarrow> (if expire \<noteq> -1 then setExpire i k2 expire s else Some s);
             let s = fst (dbSyncDelete i k1 s);
                 s = signalModifiedKey i k2 (signalModifiedKey i k1 s);
                 s = notifyKeyspaceEvent ''rename_to'' k2 i (notifyKeyspaceEvent ''rename_from'' k1 i s)
             in Some (addReply c (if nx then R_longlong 1 else R_ok) (incr_dirty 1 s)) } } } }"

definition moveCommand :: "nat \<Rightarrow> server \<Rightarrow> server option" where
  "moveCommand c s = do {
     key \<leftarrow> arg c 1 s;
     a2 \<leftarrow> arg c 2 s;
     let src = cdb c s in
     case string2ll a2 of
       None \<Rightarrow> Some (addReply c (R_error E_outofrange) s)
     | Some dbid \<Rightarrow>
         if dbid < - (2 ^ 31) \<or> dbid > 2 ^ 31 - 1 \<or> selectDb c dbid s = None
         then Some (addReply c (R_error E_outofrange) s)
         else
           let dst = nat dbid in
           if src = dst then Some (addReply c (R_error E_sameobject) s)
           else do {
             (s, ob) \<leftarrow> lookupKeyWrite src key s;
             case ob of
               None \<Rightarrow> Some (addReply c (R_longlong 0) s)
             | Some v \<Rightarrow> do {
                 expire \<leftarrow> getExpire src key s;
                 (s, old) \<leftarrow> lookupKeyWrite dst key s;
                 if old \<noteq> None then Some (addReply c (R_longlong 0) s)
                 else do {
                   s \<leftarrow> dbAdd dst key v s;
                   s \<leftarrow> (if expire \<noteq> -1 then setExpire dst key expire s else Some s);
                   Some (addReply c (R_longlong 1) (incr_dirty 1 (fst (dbSyncDelete src key s)))) } } } }"

text \<open>\<open>watched_keys\<close> stays with the database, as the source says.\<close>

definition dbSwapDatabases :: "int \<Rightarrow> int \<Rightarrow> server \<Rightarrow> server option" where
  "dbSwapDatabases id1 id2 s =
     (if id1 < 0 \<or> id1 \<ge> int (dbnum s) \<or> id2 < 0 \<or> id2 \<ge> int (dbnum s) then None
      else if id1 = id2 then Some s
      else
        let aux = dbs s (nat id1); other = dbs s (nat id2) in
        Some (upd_db (nat id2) (\<lambda>d. d\<lparr>db_dict := db_dict aux, db_expires := db_expires aux\<rparr>)
               (upd_db (nat id1) (\<lambda>d. d\<lparr>db_dict := db_dict other, db_expires := db_expires other\<rparr>) s)))"

definition swapdbCommand :: "nat \<Rightarrow> server \<Rightarrow> server option" where
  "swapdbCommand c s = do {
     a1 \<leftarrow> arg c 1 s;
     a2 \<leftarrow> arg c 2 s;
     r1 \<leftarrow> getLongOrReply c (Some (Str_sds a1)) ''invalid first DB index'' s;
     case r1 of Inl s \<Rightarrow> Some s
     | Inr id1 \<Rightarrow> do {
         r2 \<leftarrow> getLongOrReply c (Some (Str_sds a2)) ''invalid second DB index'' s;
         case r2 of Inl s \<Rightarrow> Some s
         | Inr id2 \<Rightarrow>
             (case dbSwapDatabases (to_signed 4 (id1 mod 2 ^ 32)) (to_signed 4 (id2 mod 2 ^ 32)) s of
                None \<Rightarrow> Some (addReplyError c ''DB index is out of range'' s)
              | Some s \<Rightarrow> Some (addReply c R_ok (incr_dirty 1 s))) } }"

section \<open>Expire commands\<close>

definition rewriteClientCommandVector :: "nat \<Rightarrow> sds list \<Rightarrow> server \<Rightarrow> server option" where
  "rewriteClientCommandVector c av s = do {
     cm \<leftarrow> lookupCommand (hd av);
     Some (upd_client c (\<lambda>cl. cl\<lparr>argv := av, cmd := cm\<rparr>) s) }"

definition expireGenericCommand :: "nat \<Rightarrow> int \<Rightarrow> bool \<Rightarrow> server \<Rightarrow> server option" where
  "expireGenericCommand c basetime seconds s = do {
     key \<leftarrow> arg c 1 s;
     param \<leftarrow> arg c 2 s;
     r \<leftarrow> getLongLongOrReply c (Some (Str_sds param)) s;
     case r of Inl s \<Rightarrow> Some s
     | Inr v \<Rightarrow>
         let when = ll_wrap ((if seconds then ll_wrap (v * 1000) else v) + basetime); i = cdb c s in do {
         (s, ob) \<leftarrow> lookupKeyWrite i key s;
         if ob = None then Some (addReply c (R_longlong 0) s)
         else if when \<le> now s \<and> \<not> loading s \<and> \<not> masterhost s then
           case (if lazyfree_lazy_expire s then dbAsyncDelete i key s else dbSyncDelete i key s) of
             (s, False) \<Rightarrow> None
           | (s, True) \<Rightarrow> do {
               s \<leftarrow> rewriteClientCommandVector c
                     [if lazyfree_lazy_expire s then str_bytes ''UNLINK'' else str_bytes ''DEL'', key] (incr_dirty 1 s);
               Some (addReply c (R_longlong 1)
                 (notifyKeyspaceEvent ''del'' key i (signalModifiedKey i key s))) }
         else do {
           s \<leftarrow> setExpire i key when s;
           let s = signalModifiedKey i key (addReply c (R_longlong 1) s) in
           Some (incr_dirty 1 (notifyKeyspaceEvent ''expire'' key i s)) } } }"

definition ttlGenericCommand :: "nat \<Rightarrow> bool \<Rightarrow> server \<Rightarrow> server option" where
  "ttlGenericCommand c output_ms s = do {
     key \<leftarrow> arg c 1 s;
     let i = cdb c s in do {
     (s, ob) \<leftarrow> lookupKeyRead i key s;
     if ob = None then Some (addReply c (R_longlong (-2)) s)
     else do {
       expire \<leftarrow> getExpire i key s;
       let ttl = (if expire \<noteq> -1 then max 0 (ll_wrap (expire - now s)) else -1) in
       if ttl = -1 then Some (addReply c (R_longlong (-1)) s)
       else Some (addReply c (R_longlong (if output_ms then ttl else ll_wrap (ttl + 500) div 1000)) s) } } }"

definition persistCommand :: "nat \<Rightarrow> server \<Rightarrow> server option" where
  "persistCommand c s = do {
     key \<leftarrow> arg c 1 s;
     let i = cdb c s in do {
     (s, ob) \<leftarrow> lookupKeyWrite i key s;
     if ob \<noteq> None then do {
       (s, removed) \<leftarrow> removeExpire i key s;
       if removed then Some (incr_dirty 1 (addReply c (R_longlong 1) s))
       else Some (addReply c (R_longlong 0) s) }
     else Some (addReply c (R_longlong 0) s) } }"

text \<open>The background expiry of one entry of \<open>expires\<close>.\<close>

definition activeExpireCycleTryExpire :: "nat \<Rightarrow> sds \<Rightarrow> int \<Rightarrow> int \<Rightarrow> server \<Rightarrow> server \<times> bool" where
  "activeExpireCycleTryExpire i key t now_ms s =
     (if now_ms > t then
        let s = propagateExpire i key (lazyfree_lazy_expire s) s;
            s = fst (if lazyfree_lazy_expire s then dbAsyncDelete i key s else dbSyncDelete i key s);
            s = notifyKeyspaceEvent ''expired'' key i s
        in (s\<lparr>stat_expiredkeys := stat_expiredkeys s + 1\<rparr>, True)
      else (s, False))"

section \<open>Invariant and tracking of changes\<close>

definition db_inv :: "server \<Rightarrow> bool" where
  "db_inv s \<longleftrightarrow> (\<forall>i. dom (db_expires (dbs s i)) \<subseteq> dom (db_dict (dbs s i)) \<and> finite (dom (db_dict (dbs s i))))"

definition expired_at :: "nat \<Rightarrow> sds \<Rightarrow> server \<Rightarrow> bool" where
  "expired_at i key s \<longleftrightarrow>
     (case db_expires (dbs s i) key of None \<Rightarrow> False
      | Some w \<Rightarrow> 0 \<le> w \<and> \<not> loading s \<and> w < (if lua_caller s then lua_time_start s else now s))"

definition watchers :: "nat \<Rightarrow> sds \<Rightarrow> server \<Rightarrow> nat set" where
  "watchers i key s = (case db_watched (dbs s i) key of None \<Rightarrow> {} | Some cs \<Rightarrow> set cs)"

abbreviation key_view :: "nat \<Rightarrow> sds \<Rightarrow> server \<Rightarrow> robj option \<times> int option" where
  "key_view i key s \<equiv> (lookupKey i key s, db_expires (dbs s i) key)"

definition tracked :: "nat \<Rightarrow> sds \<Rightarrow> server \<Rightarrow> server \<Rightarrow> bool" where
  "tracked i key s s' \<longleftrightarrow>
     key_view i key s' = key_view i key s \<or> expired_at i key s \<and> lookupKey i key s' = None \<or>
     (\<forall>c \<in> watchers i key s. CLIENT_DIRTY_CAS \<in> flags (clients s' c))"

definition same_frame :: "server \<Rightarrow> server \<Rightarrow> bool" where
  "same_frame s s' \<longleftrightarrow>
     (\<forall>i. db_watched (dbs s' i) = db_watched (dbs s i)) \<and>
     (\<forall>c. watched_keys (clients s' c) = watched_keys (clients s c) \<and>
          mstate (clients s' c) = mstate (clients s c) \<and>
          flags (clients s c) \<subseteq> flags (clients s' c) \<and>
          flags (clients s' c) \<subseteq> insert CLIENT_DIRTY_CAS (flags (clients s c))) \<and>
     dbnum s' = dbnum s \<and> client_list s' = client_list s \<and> now s' = now s \<and> loading s' = loading s \<and>
     lua_caller s' = lua_caller s \<and> lua_time_start s' = lua_time_start s \<and> masterhost s' = masterhost s"

definition step_ok :: "(nat \<times> sds) set \<Rightarrow> server \<Rightarrow> server \<Rightarrow> bool" where
  "step_ok S s s' \<longleftrightarrow> same_frame s s' \<and> db_inv s' \<and> (\<forall>i key. (i, key) \<notin> S \<longrightarrow> tracked i key s s')"

lemma step_ok_refl: "db_inv s \<Longrightarrow> step_ok S s s"
  by (auto simp: step_ok_def same_frame_def tracked_def)

lemma same_frame_trans: "same_frame s s1 \<Longrightarrow> same_frame s1 s2 \<Longrightarrow> same_frame s s2"
  unfolding same_frame_def by (metis insert_absorb2 insert_mono subset_trans)

lemma step_ok_inv: "step_ok S s s' \<Longrightarrow> db_inv s'"
  by (simp add: step_ok_def)

lemma frame_expired:
  assumes "same_frame s s1" "db_expires (dbs s1 i) key = db_expires (dbs s i) key"
  shows "expired_at i key s1 = expired_at i key s"
  using assms by (auto simp: same_frame_def expired_at_def split: option.splits)

lemma frame_watchers: "same_frame s s1 \<Longrightarrow> watchers i key s1 = watchers i key s"
  by (simp add: same_frame_def watchers_def)

lemma tracked_trans:
  assumes f: "same_frame s s1" "same_frame s1 s2" and inv: "db_inv s1"
    and t: "tracked i key s s1" "tracked i key s1 s2"
  shows "tracked i key s s2"
proof -
  have keep: "\<forall>c. CLIENT_DIRTY_CAS \<in> flags (clients s1 c) \<longrightarrow> CLIENT_DIRTY_CAS \<in> flags (clients s2 c)"
    using f(2) by (auto simp: same_frame_def)
  consider (same) "key_view i key s1 = key_view i key s"
    | (exp) "expired_at i key s" "lookupKey i key s1 = None"
    | (dirty) "\<forall>c \<in> watchers i key s. CLIENT_DIRTY_CAS \<in> flags (clients s1 c)"
    using t(1) unfolding tracked_def by metis
  then show ?thesis
  proof cases
    case same
    then have "expired_at i key s1 = expired_at i key s" using frame_expired [OF f(1)] by simp
    then show ?thesis using t(2) same frame_watchers [OF f(1)] by (auto simp: tracked_def)
  next
    case exp
    then have "db_expires (dbs s1 i) key = None" using inv by (auto simp: db_inv_def)
    then have "\<not> expired_at i key s1" by (simp add: expired_at_def)
    with exp t(2) frame_watchers [OF f(1)] show ?thesis by (auto simp: tracked_def)
  next
    case dirty
    with keep show ?thesis by (auto simp: tracked_def)
  qed
qed

lemma step_ok_trans:
  assumes "step_ok S s s1" "step_ok S s1 s2"
  shows "step_ok S s s2"
  using assms same_frame_trans [of s s1 s2] tracked_trans [of s s1 s2] by (auto simp: step_ok_def)

lemma step_okI:
  assumes "step_ok S s s1" "same_frame s1 s2" "db_inv s1 \<Longrightarrow> db_inv s2"
    "\<And>i key. (i, key) \<notin> S \<Longrightarrow> tracked i key s1 s2"
  shows "step_ok S s s2"
  using step_ok_trans [OF assms(1), of s2] assms by (simp add: step_ok_def)

lemmas upd_defs = upd_client_def upd_db_def addReply_def notifyKeyspaceEvent_def incr_dirty_def
  set_expire_def set_value_def miss_def hit_def

lemma step_reply: "step_ok S s s1 \<Longrightarrow> step_ok S s (addReply c r s1)"
  by (erule step_okI) (auto simp: upd_defs same_frame_def db_inv_def tracked_def)

lemma step_notify: "step_ok S s s1 \<Longrightarrow> step_ok S s (notifyKeyspaceEvent e key i s1)"
  by (erule step_okI) (auto simp: upd_defs same_frame_def db_inv_def tracked_def)

lemma step_dirty: "step_ok S s s1 \<Longrightarrow> step_ok S s (incr_dirty n s1)"
  by (erule step_okI) (auto simp: upd_defs same_frame_def db_inv_def tracked_def)

lemma step_hit_miss:
  "step_ok S s s1 \<Longrightarrow> step_ok S s (hit s1)" "step_ok S s s1 \<Longrightarrow> step_ok S s (miss s1)"
  by (erule step_okI; auto simp: upd_defs same_frame_def db_inv_def tracked_def)+

lemma step_propagate: "step_ok S s s1 \<Longrightarrow> step_ok S s (propagate i av a r s1)"
  by (erule step_okI) (auto simp: propagate_def Let_def same_frame_def db_inv_def tracked_def)

lemma step_client:
  "step_ok S s s1 \<Longrightarrow> (\<And>cl. watched_keys (f cl) = watched_keys cl) \<Longrightarrow> (\<And>cl. mstate (f cl) = mstate cl) \<Longrightarrow>
    (\<And>cl. flags (f cl) = flags cl) \<Longrightarrow> step_ok S s (upd_client c f s1)"
  by (erule step_okI) (auto simp: upd_defs same_frame_def db_inv_def tracked_def)

lemma rewrite_del:
  "rewriteClientCommandVector c [[68, 69, 76], key] s =
     Some (upd_client c (\<lambda>cl. cl\<lparr>argv := [[68, 69, 76], key], cmd := command_of (P_del, -2, ''w'')\<rparr>) s)"
  "rewriteClientCommandVector c [[85, 78, 76, 73, 78, 75], key] s =
     Some (upd_client c (\<lambda>cl. cl\<lparr>argv := [[85, 78, 76, 73, 78, 75], key],
       cmd := command_of (P_unlink, -2, ''wF'')\<rparr>) s)"
  by (simp_all add: rewriteClientCommandVector_def lookupCommand_def redisCommandTable_def strcaseeq_def to_lower_def)

lemma step_rewrite: "step_ok S s s1 \<Longrightarrow> rewriteClientCommandVector c av s1 = Some s2 \<Longrightarrow> step_ok S s s2"
  by (auto simp: rewriteClientCommandVector_def bind_eq_Some_conv intro: step_client)

lemma step_select: "step_ok S s s1 \<Longrightarrow> selectDb c n s1 = Some s2 \<Longrightarrow> step_ok S s s2"
  by (auto simp: selectDb_def intro: step_client split: if_splits)

lemma step_set_value: "step_ok S s s1 \<Longrightarrow> (i, key) \<in> S \<Longrightarrow> step_ok S s (set_value i key (Some v) s1)"
  by (erule step_okI) (auto simp: upd_defs same_frame_def db_inv_def tracked_def)

lemma step_set_expire:
  "step_ok S s s1 \<Longrightarrow> (i, key) \<in> S \<Longrightarrow> lookupKey i key s1 \<noteq> None \<or> e = None \<Longrightarrow> step_ok S s (set_expire i key e s1)"
  by (erule step_okI) (auto simp: upd_defs same_frame_def db_inv_def tracked_def)

lemma step_del:
  "step_ok S s s1 \<Longrightarrow> (i, key) \<in> S \<Longrightarrow> step_ok S s (set_value i key None (set_expire i key None s1))"
  by (erule step_okI) (auto simp: upd_defs same_frame_def db_inv_def tracked_def)

lemma dbSyncDelete_eq:
  "dbSyncDelete i key s = (set_value i key None (set_expire i key None s), lookupKey i key s \<noteq> None)"
  by (simp add: dbSyncDelete_def upd_defs)

lemma dbAsyncDelete_eq: "dbAsyncDelete i key s = dbSyncDelete i key s"
proof -
  have "lookupKey i key s = None \<Longrightarrow> set_value i key None (set_expire i key None s) = set_expire i key None s"
    by (auto simp: upd_defs simp: fun_upd_idem)
  then show ?thesis
    by (auto simp: dbAsyncDelete_def dbSyncDelete_def Let_def split: option.splits) (auto simp: upd_defs)
qed


text \<open>Marking clients.\<close>

definition mark :: "nat set \<Rightarrow> server \<Rightarrow> server" where
  "mark C s = s\<lparr>clients := (\<lambda>c. if c \<in> C then (clients s c)\<lparr>flags := insert CLIENT_DIRTY_CAS (flags (clients s c))\<rparr>
     else clients s c)\<rparr>"

lemma fold_dirty_cas: "fold dirty_cas cs s = mark (set cs) s"
proof (induction cs arbitrary: s)
  case (Cons x cs)
  have "mark (set cs) (dirty_cas x s) = mark (set (x # cs)) s"
    by (auto simp: mark_def dirty_cas_def upd_client_def fun_eq_iff insert_absorb)
  then show ?case using Cons by simp
qed (simp add: mark_def)

lemma touch_mark: "touchWatchedKey i key s = mark (watchers i key s) s"
  by (simp add: touchWatchedKey_def fold_dirty_cas watchers_def mark_def split: option.splits)

lemma touch_sel [simp]:
  "dbs (touchWatchedKey i key s) = dbs s" "dbnum (touchWatchedKey i key s) = dbnum s"
  "client_list (touchWatchedKey i key s) = client_list s" "now (touchWatchedKey i key s) = now s"
  "loading (touchWatchedKey i key s) = loading s" "lua_caller (touchWatchedKey i key s) = lua_caller s"
  "lua_time_start (touchWatchedKey i key s) = lua_time_start s"
  "masterhost (touchWatchedKey i key s) = masterhost s"
  "lazyfree_lazy_expire (touchWatchedKey i key s) = lazyfree_lazy_expire s"
  by (simp_all add: touch_mark mark_def)

lemma touch_clients:
  "clients (touchWatchedKey i key s) c =
     (clients s c)\<lparr>flags := (if c \<in> watchers i key s then insert CLIENT_DIRTY_CAS (flags (clients s c))
                            else flags (clients s c))\<rparr>"
  by (simp add: touch_mark mark_def)

lemma step_signal:
  assumes "step_ok (insert (i, key) S) s s1"
  shows "step_ok S s (signalModifiedKey i key s1)"
proof -
  let ?s = "touchWatchedKey i key s1"
  have f: "same_frame s1 ?s" by (auto simp: same_frame_def touch_clients)
  have inv: "db_inv s1" "db_inv ?s" using assms by (auto simp: step_ok_def db_inv_def)
  have "tracked j k s ?s" if "(j, k) \<notin> S" for j k
  proof (cases "(j, k) = (i, key)")
    case True
    then show ?thesis using assms frame_watchers [of s s1 i key]
      by (auto simp: tracked_def touch_clients step_ok_def)
  next
    case False
    then have "tracked j k s s1" using assms that by (auto simp: step_ok_def)
    moreover have "tracked j k s1 ?s" by (simp add: tracked_def)
    ultimately show ?thesis using tracked_trans [OF _ f inv(1)] assms by (auto simp: step_ok_def)
  qed
  then show ?thesis
    using same_frame_trans [OF _ f, of s] assms inv by (auto simp: step_ok_def signalModifiedKey_def)
qed

text \<open>Expiry on access.\<close>

definition expire_step :: "nat \<Rightarrow> sds \<Rightarrow> server \<Rightarrow> server" where
  "expire_step i key s =
     (if expired_at i key s \<and> \<not> masterhost s then
        fst (dbSyncDelete i key (notifyKeyspaceEvent ''expired'' key i
          (propagateExpire i key (lazyfree_lazy_expire s) (s\<lparr>stat_expiredkeys := stat_expiredkeys s + 1\<rparr>))))
      else s)"

lemma getExpire_inv: "db_inv s \<Longrightarrow> getExpire i key s = Some (case db_expires (dbs s i) key of None \<Rightarrow> -1 | Some w \<Rightarrow> w)"
  by (fastforce simp: getExpire_def db_inv_def split: option.splits)

lemma keyIsExpired_inv: "db_inv s \<Longrightarrow> keyIsExpired i key s = Some (expired_at i key s)"
  by (auto simp: keyIsExpired_def getExpire_inv expired_at_def split: option.splits)

lemma propagate_sel [simp]:
  "dbs (propagate i av a r s) = dbs s" "lazyfree_lazy_expire (propagate i av a r s) = lazyfree_lazy_expire s"
  "clients (propagate i av a r s) = clients s" "masterhost (propagate i av a r s) = masterhost s"
  by (simp_all add: propagate_def Let_def)

lemma expired_lookup: "db_inv s \<Longrightarrow> expired_at i key s \<Longrightarrow> lookupKey i key s \<noteq> None"
  by (fastforce simp: db_inv_def expired_at_def split: option.splits)

lemma expireIfNeeded_inv:
  "db_inv s \<Longrightarrow> expireIfNeeded i key s = Some (expire_step i key s, expired_at i key s)"
  using expired_lookup [of s i key]
  by (auto simp: expireIfNeeded_def keyIsExpired_inv expire_step_def Let_def dbAsyncDelete_eq
      dbSyncDelete_eq propagateExpire_def notifyKeyspaceEvent_def)

lemma step_expire: "step_ok S s s1 \<Longrightarrow> step_ok S s (expire_step i key s1)"
proof (cases "expired_at i key s1 \<and> \<not> masterhost s1")
  case True
  assume ok: "step_ok S s s1"
  let ?p = "propagateExpire i key (lazyfree_lazy_expire s1) (s1\<lparr>stat_expiredkeys := stat_expiredkeys s1 + 1\<rparr>)"
  have e: "expire_step i key s1 = set_value i key None (set_expire i key None (notifyKeyspaceEvent ''expired'' key i ?p))"
    using True by (simp add: expire_step_def dbSyncDelete_eq)
  have "step_ok {(i, key)} s1 (expire_step i key s1)"
    unfolding e propagateExpire_def
    by (intro step_del step_notify step_propagate step_okI [OF step_ok_refl [OF step_ok_inv [OF ok]]])
      (auto simp: same_frame_def db_inv_def tracked_def)
  moreover have "tracked i key s1 (expire_step i key s1)"
    using True by (simp add: tracked_def e upd_defs)
  ultimately have "step_ok S s1 (expire_step i key s1)" by (auto simp: step_ok_def)
  then show ?thesis by (rule step_ok_trans [OF ok])
qed (auto simp: expire_step_def)

lemma lookupKeyWrite_inv:
  "db_inv s \<Longrightarrow> lookupKeyWrite i key s = Some (expire_step i key s, lookupKey i key (expire_step i key s))"
  by (simp add: lookupKeyWrite_def expireIfNeeded_inv)

lemma lookupKeyRead_inv:
  assumes "db_inv s"
  shows "\<exists>s' ob. lookupKeyRead i key s = Some (s', ob) \<and> step_ok {} s s' \<and> argv (clients s' c) = argv (clients s c) \<and>
    (ob = None \<or> ob = lookupKey i key s')"
proof -
  have "step_ok {} s (expire_step i key s)" by (rule step_expire [OF step_ok_refl [OF assms]])
  then have "step_ok {} s (hit (expire_step i key s))" "step_ok {} s (miss (expire_step i key s))"
    by (rule step_hit_miss)+
  moreover have "argv (clients (expire_step i key s) c) = argv (clients s c)"
    by (simp add: expire_step_def dbSyncDelete_eq upd_defs propagateExpire_def)
  ultimately show ?thesis
    by (auto simp: lookupKeyRead_def expireIfNeeded_inv [OF assms] split: option.splits) (auto simp: upd_defs)
qed


text \<open>What the updates leave alone.\<close>

lemma upd_sel [simp]:
  "dbs (addReply c r s) = dbs s" "dbs (notifyKeyspaceEvent e k i s) = dbs s" "dbs (incr_dirty n s) = dbs s"
  "dbs (hit s) = dbs s" "dbs (miss s) = dbs s"
  "clients (notifyKeyspaceEvent e k i s) = clients s" "clients (incr_dirty n s) = clients s"
  "clients (hit s) = clients s" "clients (miss s) = clients s" "clients (set_value i k v s) = clients s"
  "clients (set_expire i k x s) = clients s"
  "now (addReply c r s) = now s" "now (notifyKeyspaceEvent e k i s) = now s" "now (incr_dirty n s) = now s"
  "now (set_value i k v s) = now s" "now (set_expire i k x s) = now s"
  "masterhost (incr_dirty n s) = masterhost s"
  "lazyfree_lazy_expire (incr_dirty n s) = lazyfree_lazy_expire s"
  "lazyfree_lazy_expire (set_value i k v s) = lazyfree_lazy_expire s"
  "lazyfree_lazy_expire (set_expire i k x s) = lazyfree_lazy_expire s"
  by (simp_all add: upd_defs)

lemma value_sel [simp]:
  "lookupKey j k (set_value i key v s) = (if j = i \<and> k = key then v else lookupKey j k s)"
  "db_expires (dbs (set_value i key v s) j) = db_expires (dbs s j)"
  "db_watched (dbs (set_value i key v s) j) = db_watched (dbs s j)"
  "db_dict (dbs (set_expire i key e s) j) = db_dict (dbs s j)"
  "db_expires (dbs (set_expire i key e s) j) k = (if j = i \<and> k = key then e else db_expires (dbs s j) k)"
  "db_watched (dbs (set_expire i key e s) j) = db_watched (dbs s j)"
  by (simp_all add: upd_defs)

lemma step_ok_mono: "step_ok S s s' \<Longrightarrow> S \<subseteq> T \<Longrightarrow> step_ok T s s'"
  by (auto simp: step_ok_def)

lemma expire_step_sel [simp]:
  "clients (expire_step i key s) = clients s" "masterhost (expire_step i key s) = masterhost s"
  "now (expire_step i key s) = now s" "loading (expire_step i key s) = loading s"
  by (simp_all add: expire_step_def dbSyncDelete_eq propagateExpire_def)
     (simp_all add: upd_defs propagate_def Let_def)

lemma db_inv_expire_step [simp]: "db_inv s \<Longrightarrow> db_inv (expire_step i key s)"
  using step_ok_inv [OF step_expire [OF step_ok_refl]] by blast

lemma step_if: "(b \<Longrightarrow> step_ok S s x) \<Longrightarrow> (\<not> b \<Longrightarrow> step_ok S s y) \<Longrightarrow> step_ok S s (if b then x else y)"
  by simp

lemmas step_intros = step_reply step_notify step_dirty step_hit_miss step_propagate step_expire
  step_signal step_set_value step_set_expire step_del step_if step_ok_refl

lemma setKey_inv:
  "db_inv s \<Longrightarrow> setKey i key v s =
     Some (signalModifiedKey i key (set_expire i key None (set_value i key (Some v) (expire_step i key s))))"
  by (simp add: setKey_def lookupKeyWrite_inv dbAdd_def dbOverwrite_def removeExpire_def upd_defs)

lemma step_setKey:
  "step_ok S s s1 \<Longrightarrow> db_inv s1 \<Longrightarrow> setKey i key v s1 = Some s2 \<Longrightarrow> step_ok S s s2"
  by (auto simp: setKey_inv intro!: step_intros elim: step_ok_mono)

lemma signal_sel [simp]:
  "dbs (signalModifiedKey i key s) = dbs s" "now (signalModifiedKey i key s) = now s"
  by (simp_all add: signalModifiedKey_def)

definition cmd_ok :: "(server \<Rightarrow> server option) \<Rightarrow> server \<Rightarrow> bool" where
  "cmd_ok f s \<longleftrightarrow> (\<exists>s'. f s = Some s' \<and> step_ok {} s s')"

lemma del_loop_ok:
  assumes "step_ok {} s s1"
  shows "\<exists>s' n'. del_loop c lazy keys s1 n = Some (s', n') \<and> step_ok {} s s'"
  using assms
proof (induction keys arbitrary: s1 n)
  case (Cons key keys)
  let ?s = "expire_step (cdb c s1) key s1"
  have inv: "db_inv s1" using Cons.prems by (rule step_ok_inv)
  have e: "step_ok {} s ?s" using Cons.prems by (rule step_expire)
  let ?d = "set_value (cdb c ?s) key None (set_expire (cdb c ?s) key None ?s)"
  show ?case
  proof (cases "lookupKey (cdb c ?s) key ?s")
    case None
    have "dbSyncDelete (cdb c ?s) key ?s = (?s, False)"
    proof -
      have "db_expires (dbs ?s (cdb c ?s)) key = None"
        using None db_inv_expire_step [OF inv, of "cdb c s1" key] by (auto simp: db_inv_def)
      with None show ?thesis by (auto simp: dbSyncDelete_eq upd_defs fun_upd_idem)
    qed
    with Cons.IH [OF e] show ?thesis by (cases lazy) (simp_all add: expireIfNeeded_inv [OF inv] dbAsyncDelete_eq)
  next
    case (Some v)
    have "step_ok {} s (incr_dirty 1 (notifyKeyspaceEvent ''del'' key (cdb c ?d) (signalModifiedKey (cdb c ?d) key ?d)))"
      by (intro step_reply step_notify step_dirty step_signal step_del step_ok_mono [OF e]) simp_all
    from Cons.IH [OF this] Some show ?thesis
      by (cases lazy) (simp_all add: expireIfNeeded_inv [OF inv] dbAsyncDelete_eq dbSyncDelete_eq)
  qed
qed simp

lemma del_ok: "db_inv s \<Longrightarrow> cmd_ok (delGenericCommand c lazy) s"
  using del_loop_ok [OF step_ok_refl, of s c lazy "tl (argv (clients s c))" 0]
  by (auto simp: cmd_ok_def delGenericCommand_def intro: step_intros)

lemma exists_loop_ok:
  assumes "step_ok {} s s1"
  shows "\<exists>s' n'. exists_loop c keys s1 n = Some (s', n') \<and> step_ok {} s s'"
  using assms
proof (induction keys arbitrary: s1 n)
  case (Cons key keys)
  obtain s2 ob where "lookupKeyRead (cdb c s1) key s1 = Some (s2, ob)" "step_ok {} s1 s2"
    using lookupKeyRead_inv [OF step_ok_inv [OF Cons.prems]] by blast
  then show ?case using Cons.IH [OF step_ok_trans [OF Cons.prems]] by simp
qed simp

lemma exists_ok: "db_inv s \<Longrightarrow> cmd_ok (existsCommand c) s" "db_inv s \<Longrightarrow> cmd_ok (touchCommand c) s"
  using exists_loop_ok [OF step_ok_refl, of s c "tl (argv (clients s c))" 0]
  by (auto simp: cmd_ok_def existsCommand_def touchCommand_def intro: step_intros)

lemma getLong_cases:
  "getLongOrReply c (Some (Str_sds a)) msg s =
     Some (case string2ll a of None \<Rightarrow> Inl (addReplyError c msg s)
           | Some v \<Rightarrow> if v < - (2 ^ 63) \<or> v > 2 ^ 63 - 1 then Inl (addReplyError c msg s) else Inr v)"
  by (simp add: getLongOrReply_def getLongLongFromObject_def)

lemma getLongLong_cases:
  "getLongLongOrReply c (Some (Str_sds a)) s =
     Some (case string2ll a of None \<Rightarrow> Inl (addReplyError c ''value is not an integer or out of range'' s)
           | Some v \<Rightarrow> Inr v)"
  by (simp add: getLongLongOrReply_def getLongLongFromObject_def)

lemma select_ok: "db_inv s \<Longrightarrow> 1 < length (argv (clients s c)) \<Longrightarrow> cmd_ok (selectCommand c) s"
  by (auto simp: cmd_ok_def selectCommand_def arg_def getLong_cases split: option.splits
      intro!: step_intros intro: step_select [OF step_ok_refl])

lemma type_ok:
  assumes "db_inv s" "1 < length (argv (clients s c))"
  shows "cmd_ok (typeCommand c) s"
proof -
  obtain s' ob where "lookupKeyRead (cdb c s) (argv (clients s c) ! 1) s = Some (s', ob)" "step_ok {} s s'"
    using lookupKeyRead_inv [OF assms(1)] by blast
  then show ?thesis using assms(2) by (auto simp: cmd_ok_def typeCommand_def arg_def intro!: step_intros)
qed

lemma dbsize_ok: "db_inv s \<Longrightarrow> cmd_ok (dbsizeCommand c) s"
  by (auto simp: cmd_ok_def dbsizeCommand_def intro!: step_intros)

lemma rename_ok:
  assumes inv: "db_inv s" and len: "2 < length (argv (clients s c))"
  shows "cmd_ok (renameGenericCommand c nx) s"
proof -
  define i where "i = cdb c s"
  define k1 where "k1 = argv (clients s c) ! 1"
  define k2 where "k2 = argv (clients s c) ! 2"
  let ?s1 = "expire_step i k1 s"
  let ?s2 = "expire_step i k2 ?s1"
  have args: "arg c (Suc 0) s = Some k1" "arg c 2 s = Some k2"
    using len by (simp_all add: arg_def k1_def k2_def)
  note run = renameGenericCommand_def args lookupKeyWrite_inv inv getExpire_inv dbAdd_def setExpire_def
    dbSyncDelete_eq i_def [symmetric]
  show ?thesis
  proof (cases "lookupKey i k1 ?s1")
    case None
    then show ?thesis by (auto simp: cmd_ok_def run inv intro!: step_intros)
  next
    case (Some v)
    show ?thesis
      using Some by (auto simp: cmd_ok_def run inv Let_def intro!: step_intros split: if_splits)
  qed
qed


lemma ttl_ok:
  assumes inv: "db_inv s" and len: "1 < length (argv (clients s c))"
  shows "cmd_ok (ttlGenericCommand c ms) s"
proof -
  obtain s' ob where "lookupKeyRead (cdb c s) (argv (clients s c) ! 1) s = Some (s', ob)" "step_ok {} s s'"
    using lookupKeyRead_inv [OF inv] by blast
  then show ?thesis using len step_ok_inv [of "{}" s s']
    by (auto simp: cmd_ok_def ttlGenericCommand_def arg_def Let_def getExpire_inv intro!: step_intros)
qed

lemma expire_ok:
  assumes inv: "db_inv s" and len: "2 < length (argv (clients s c))"
  shows "cmd_ok (expireGenericCommand c base seconds) s"
proof (cases "string2ll (argv (clients s c) ! 2)")
  case None
  then show ?thesis using inv len
    by (auto simp: cmd_ok_def expireGenericCommand_def arg_def getLongLong_cases intro!: step_intros)
next
  case (Some v)
  let ?s = "expire_step (cdb c s) (argv (clients s c) ! Suc 0) s"
  show ?thesis
  proof (cases "lookupKey (cdb c s) (argv (clients s c) ! Suc 0) ?s")
    case None
    with Some inv len show ?thesis
      by (auto simp: cmd_ok_def expireGenericCommand_def arg_def getLongLong_cases Let_def lookupKeyWrite_inv
          intro!: step_intros)
  next
    case v2: (Some ob)
    with Some inv len show ?thesis
      by (auto simp: cmd_ok_def expireGenericCommand_def arg_def getLongLong_cases Let_def lookupKeyWrite_inv
          dbAsyncDelete_eq dbSyncDelete_eq setExpire_def rewrite_del intro!: step_intros step_client)
  qed
qed

lemma persist_ok:
  assumes inv: "db_inv s" and len: "1 < length (argv (clients s c))"
  shows "\<exists>s'. persistCommand c s = Some s' \<and> step_ok {(cdb c s, argv (clients s c) ! 1)} s s'"
  using assms
  by (auto simp: persistCommand_def arg_def lookupKeyWrite_inv removeExpire_def Let_def intro!: step_intros)

lemma move_ok:
  assumes inv: "db_inv s" and len: "2 < length (argv (clients s c))"
  shows "\<exists>s'. moveCommand c s = Some s' \<and> step_ok UNIV s s'"
proof (cases "string2ll (argv (clients s c) ! 2)")
  case None
  with inv len show ?thesis by (auto simp: moveCommand_def arg_def Let_def intro!: step_intros)
next
  case (Some n)
  with inv len show ?thesis
    by (auto simp: moveCommand_def arg_def Let_def lookupKeyWrite_inv getExpire_inv dbAdd_def setExpire_def
        dbSyncDelete_eq intro!: step_intros split: option.splits)
qed

lemma swap_ok:
  assumes "db_inv s" "dbSwapDatabases a b s = Some s'"
  shows "step_ok UNIV s s'"
proof -
  have "same_frame s s'"
    using assms(2) by (auto simp: dbSwapDatabases_def Let_def same_frame_def upd_db_def split: if_splits)
  moreover have "\<exists>i. db_dict (dbs s' j) = db_dict (dbs s i) \<and> db_expires (dbs s' j) = db_expires (dbs s i)" for j
    using assms(2) by (auto simp: dbSwapDatabases_def Let_def upd_db_def split: if_splits)
  then have "db_inv s'" using assms(1) unfolding db_inv_def by metis
  ultimately show ?thesis by (simp add: step_ok_def)
qed

lemma swapdb_ok:
  assumes inv: "db_inv s" and len: "2 < length (argv (clients s c))"
  shows "\<exists>s'. swapdbCommand c s = Some s' \<and> step_ok UNIV s s'"
  using assms swap_ok [OF inv]
  by (auto simp: swapdbCommand_def arg_def getLong_cases split: option.splits intro!: step_intros)


text \<open>The two directions of the watch relation agree.\<close>

definition watch_inv :: "server \<Rightarrow> bool" where
  "watch_inv s \<longleftrightarrow>
     (\<forall>c i key. c \<in> watchers i key s \<longleftrightarrow> (i, key) \<in> set (watched_keys (clients s c))) \<and>
     (\<forall>c. watched_keys (clients s c) \<noteq> [] \<longrightarrow> c \<in> set (client_list s)) \<and>
     (\<forall>c. distinct (watched_keys (clients s c))) \<and>
     (\<forall>i key cs. db_watched (dbs s i) key = Some cs \<longrightarrow> distinct cs \<and> cs \<noteq> [])"

lemma watch_inv_frame: "same_frame s s' \<Longrightarrow> watch_inv s \<Longrightarrow> watch_inv s'"
  by (simp add: watch_inv_def same_frame_def watchers_def)

lemma mark_mark: "mark C (mark D s) = mark (C \<union> D) s"
  by (auto simp: mark_def fun_eq_iff insert_absorb)

lemma mark_sel [simp]: "dbs (mark C s) = dbs s" "watched_keys (clients (mark C s) c) = watched_keys (clients s c)"
  by (simp_all add: mark_def)

definition flush_hits :: "nat option \<Rightarrow> (nat \<times> sds) list \<Rightarrow> server \<Rightarrow> bool" where
  "flush_hits dbid wks s \<longleftrightarrow>
     (\<exists>(i, key) \<in> set wks. (dbid = None \<or> dbid = Some i) \<and> lookupKey i key s \<noteq> None)"

lemma flush_inner: "fold (flush_touch dbid c) wks s = mark (if flush_hits dbid wks s then {c} else {}) s"
proof (induction wks arbitrary: s)
  case (Cons w wks)
  have d: "dirty_cas c s = mark {c} s" by (auto simp: dirty_cas_def upd_client_def mark_def fun_eq_iff)
  have h: "flush_hits dbid wks (mark {c} s) = flush_hits dbid wks s" by (simp add: flush_hits_def)
  have "flush_touch dbid c w s = (if flush_hits dbid [w] s then mark {c} s else s)"
    by (cases w) (simp add: flush_touch_def flush_hits_def d)
  moreover have "flush_hits dbid (w # wks) s = (flush_hits dbid [w] s \<or> flush_hits dbid wks s)"
    by (simp add: flush_hits_def)
  ultimately show ?case by (simp add: Cons mark_mark h)
qed (simp add: flush_hits_def mark_def)

lemma flush_outer:
  "fold (\<lambda>c s. fold (flush_touch dbid c) (watched_keys (clients s c)) s) cs s =
   mark {c \<in> set cs. flush_hits dbid (watched_keys (clients s c)) s} s"
proof (induction cs arbitrary: s)
  case (Cons x cs)
  have h: "flush_hits dbid w (mark C s) = flush_hits dbid w s" for w C by (simp add: flush_hits_def)
  show ?case
    by (simp add: flush_inner [of dbid x] Cons mark_mark h) (auto intro!: arg_cong [of _ _ "\<lambda>C. mark C s"])
qed (simp add: mark_def)

lemma touch_flush:
  "touchWatchedKeysOnFlush dbid s =
     mark {c \<in> set (client_list s). flush_hits dbid (watched_keys (clients s c)) s} s"
  by (simp add: touchWatchedKeysOnFlush_def flush_outer)

lemma empty_fold:
  "fst (fold (\<lambda>j (s, n). (empty_one j s, n + int (card (dom (db_dict (dbs s j)))))) js (s, m)) =
     s\<lparr>dbs := (\<lambda>j. if j \<in> set js then (dbs s j)\<lparr>db_dict := Map.empty, db_expires := Map.empty\<rparr> else dbs s j)\<rparr>"
proof (induction js arbitrary: s m)
  case (Cons j js)
  show ?case by (simp add: Cons) (auto simp: empty_one_def upd_db_def fun_eq_iff)
qed simp

lemma emptied_ok:
  assumes inv: "db_inv s" "watch_inv s"
    and match: "\<And>i. i \<in> J \<Longrightarrow> dbid = None \<or> dbid = Some i"
  shows "step_ok {} s ((touchWatchedKeysOnFlush dbid s)\<lparr>dbs :=
    (\<lambda>j. if j \<in> J then (dbs s j)\<lparr>db_dict := Map.empty, db_expires := Map.empty\<rparr> else dbs s j)\<rparr>)" (is "step_ok {} s ?s")
proof -
  have "tracked i key s ?s" for i key
  proof (cases "i \<in> J \<and> lookupKey i key s \<noteq> None")
    case True
    have "CLIENT_DIRTY_CAS \<in> flags (clients ?s c)" if "c \<in> watchers i key s" for c
    proof -
      have w: "(i, key) \<in> set (watched_keys (clients s c))" using that inv(2) by (simp add: watch_inv_def)
      then have "watched_keys (clients s c) \<noteq> []" by auto
      then have "c \<in> set (client_list s)" using inv(2) by (simp add: watch_inv_def)
      moreover have "flush_hits dbid (watched_keys (clients s c)) s"
        using w True match [of i] by (auto simp: flush_hits_def)
      ultimately show ?thesis by (simp add: touch_flush mark_def)
    qed
    then show ?thesis by (simp add: tracked_def)
  next
    case False
    have "db_expires (dbs s i) key = None" if "lookupKey i key s = None"
      using inv(1) that by (auto simp: db_inv_def)
    then have "key_view i key ?s = key_view i key s" using False by auto
    then show ?thesis by (simp add: tracked_def)
  qed
  moreover have "same_frame s ?s" by (auto simp: same_frame_def touch_flush mark_def)
  moreover have "db_inv ?s" using inv(1) by (auto simp: db_inv_def)
  ultimately show ?thesis by (simp add: step_ok_def)
qed

lemma flush_sel [simp]: "dbs (touchWatchedKeysOnFlush d s) = dbs s" "dbnum (touchWatchedKeysOnFlush d s) = dbnum s"
  "cdb c (touchWatchedKeysOnFlush d s) = cdb c s"
  by (simp_all add: touch_flush mark_def)

lemma flushdb_ok:
  assumes "db_inv s" "watch_inv s"
  shows "cmd_ok (flushdbCommand c) s"
proof (cases "cdb c s < dbnum s")
  case True
  let ?t = "touchWatchedKeysOnFlush (Some (cdb c s)) s"
  have "step_ok {} s (fst (emptyDb (int (cdb c s)) ?t))"
    using emptied_ok [OF assms, of "{cdb c s}" "Some (cdb c s)"] True
    by (simp add: emptyDb_def empty_one_def upd_db_def fun_upd_def cong: if_cong)
  then show ?thesis using assms(1)
    by (auto simp: cmd_ok_def flushdbCommand_def getFlushCommandFlags_def signalFlushedDb_def Let_def split_beta
        intro!: step_intros)
next
  case False
  let ?t = "touchWatchedKeysOnFlush (Some (cdb c s)) s"
  have "step_ok {} s ?t"
    using emptied_ok [OF assms, of "{}" "Some (cdb c s)"] by (simp add: touch_flush mark_def)
  then show ?thesis using False assms(1)
    by (auto simp: cmd_ok_def flushdbCommand_def getFlushCommandFlags_def signalFlushedDb_def Let_def emptyDb_def
        intro!: step_intros)
qed

lemma flushall_ok:
  assumes "db_inv s" "watch_inv s"
  shows "cmd_ok (flushallCommand c) s"
proof -
  let ?t = "touchWatchedKeysOnFlush None s"
  have "step_ok {} s (fst (emptyDb (-1) ?t))"
    using emptied_ok [OF assms, of "{0..<dbnum s}" None] by (simp add: emptyDb_def empty_fold cong: if_cong)
  then show ?thesis using assms(1)
    by (auto simp: cmd_ok_def flushallCommand_def getFlushCommandFlags_def signalFlushedDb_def Let_def split_beta
        intro!: step_intros)
qed

end
