(* ===== verification/Redis_String.thy ===== *)
theory Redis_String
  imports Redis_Db
begin

text \<open>
  The string commands of \<open>t_string.c\<close>.  A command takes the client index and returns the new state;
  \<^const>\<open>None\<close> is a failed assertion, a missing argument or an allocation of \<open>2 ^ 63\<close> bytes or more.
  \<open>INCRBYFLOAT\<close> is not modelled (floating point).
\<close>

section \<open>Commands\<close>

text \<open>\<^const>\<open>Some\<close> is the state with the error reply.\<close>

definition checkStringLength :: "nat \<Rightarrow> int \<Rightarrow> server \<Rightarrow> server option" where
  "checkStringLength c sz s =
     (if sz > 512 * 1024 * 1024
      then Some (addReplyError c ''string exceeds maximum allowed size (512MB)'' s) else None)"

datatype set_flag = OBJ_SET_NX | OBJ_SET_XX | OBJ_SET_EX | OBJ_SET_PX

text \<open>The NX and XX test of \<open>setGenericCommand\<close>: the flag says that the command is not performed.\<close>

definition set_guard :: "nat \<Rightarrow> set_flag set \<Rightarrow> sds \<Rightarrow> server \<Rightarrow> (server \<times> bool) option" where
  "set_guard i fl key s = do {
     (s, blocked) \<leftarrow> (if OBJ_SET_NX \<in> fl then map_option (\<lambda>(s, ob). (s, ob \<noteq> None)) (lookupKeyWrite i key s)
                     else Some (s, False));
     if \<not> blocked \<and> OBJ_SET_XX \<in> fl then map_option (\<lambda>(s, ob). (s, ob = None)) (lookupKeyWrite i key s)
     else Some (s, blocked) }"

text \<open>The part of \<open>setGenericCommand\<close> that writes; \<open>ms\<close> is the time to live.\<close>

definition set_write :: "nat \<Rightarrow> nat \<Rightarrow> sds \<Rightarrow> robj \<Rightarrow> int option \<Rightarrow> reply \<Rightarrow> server \<Rightarrow> server option" where
  "set_write c i key val ms ok_reply s = do {
     s \<leftarrow> setKey i key val s;
     s \<leftarrow> (case ms of None \<Rightarrow> Some (incr_dirty 1 s)
           | Some m \<Rightarrow> setExpire i key (ll_wrap (now s + m)) (incr_dirty 1 s));
     let s = notifyKeyspaceEvent ''set'' key i s;
         s = (if ms \<noteq> None then notifyKeyspaceEvent ''expire'' key i s else s)
     in Some (addReply c ok_reply s) }"

definition set_tail :: "nat \<Rightarrow> set_flag set \<Rightarrow> sds \<Rightarrow> robj \<Rightarrow> int option \<Rightarrow> reply \<Rightarrow> reply \<Rightarrow> server \<Rightarrow> server option" where
  "set_tail c fl key val ms ok_reply abort_reply s =
     (let i = cdb c s in do {
      (s, blocked) \<leftarrow> set_guard i fl key s;
      if blocked then Some (addReply c abort_reply s) else set_write c i key val ms ok_reply s })"

definition setGenericCommand :: "nat \<Rightarrow> set_flag set \<Rightarrow> sds \<Rightarrow> robj \<Rightarrow> sds option \<Rightarrow> bool \<Rightarrow> reply \<Rightarrow> reply \<Rightarrow>
  server \<Rightarrow> server option" where
  "setGenericCommand c fl key val expire seconds ok_reply abort_reply s =
     (case expire of
        None \<Rightarrow> set_tail c fl key val None ok_reply abort_reply s
      | Some e \<Rightarrow> do {
          r \<leftarrow> getLongLongOrReply c (Some (Str_sds e)) s;
          case r of
            Inl s \<Rightarrow> Some s
          | Inr ms \<Rightarrow>
              if ms \<le> 0 then Some (addReplyError c ''invalid expire time'' s)
              else set_tail c fl key val (Some (if seconds then ll_wrap (ms * 1000) else ms))
                     ok_reply abort_reply s })"

text \<open>The test of the first three bytes of an option; the byte after the string is zero.\<close>

definition is_opt :: "char \<Rightarrow> char \<Rightarrow> sds \<Rightarrow> bool" where
  "is_opt x y a \<longleftrightarrow>
     (case a @ [0] of
        b0 # b1 # b2 # _ \<Rightarrow> to_lower b0 = of_char x \<and> to_lower b1 = of_char y \<and> b2 = 0
      | _ \<Rightarrow> False)"

fun parse_set :: "sds list \<Rightarrow> set_flag set \<Rightarrow> sds option \<Rightarrow> bool \<Rightarrow> (set_flag set \<times> sds option \<times> bool) option" where
  "parse_set [] fl expire seconds = Some (fl, expire, seconds)"
| "parse_set (a # rest) fl expire seconds =
     (if is_opt CHR ''n'' CHR ''x'' a \<and> OBJ_SET_XX \<notin> fl then parse_set rest (insert OBJ_SET_NX fl) expire seconds
      else if is_opt CHR ''x'' CHR ''x'' a \<and> OBJ_SET_NX \<notin> fl
      then parse_set rest (insert OBJ_SET_XX fl) expire seconds
      else if is_opt CHR ''e'' CHR ''x'' a \<and> OBJ_SET_PX \<notin> fl \<and> rest \<noteq> []
      then (case rest of [] \<Rightarrow> None | n # rest' \<Rightarrow> parse_set rest' (insert OBJ_SET_EX fl) (Some n) True)
      else if is_opt CHR ''p'' CHR ''x'' a \<and> OBJ_SET_EX \<notin> fl \<and> rest \<noteq> []
      then (case rest of [] \<Rightarrow> None | n # rest' \<Rightarrow> parse_set rest' (insert OBJ_SET_PX fl) (Some n) False)
      else None)"

definition setCommand :: "nat \<Rightarrow> server \<Rightarrow> server option" where
  "setCommand c s = do {
     key \<leftarrow> arg c 1 s;
     val \<leftarrow> arg c 2 s;
     case parse_set (drop 3 (argv (clients s c))) {} None True of
       None \<Rightarrow> Some (addReply c (R_error E_syntax) s)
     | Some (fl, expire, seconds) \<Rightarrow>
         setGenericCommand c fl key (tryObjectEncoding val) expire seconds R_ok R_nullbulk s }"

definition setnxCommand :: "nat \<Rightarrow> server \<Rightarrow> server option" where
  "setnxCommand c s = do {
     key \<leftarrow> arg c 1 s;
     val \<leftarrow> arg c 2 s;
     setGenericCommand c {OBJ_SET_NX} key (tryObjectEncoding val) None True (R_longlong 1) (R_longlong 0) s }"

definition setexCommand :: "nat \<Rightarrow> server \<Rightarrow> server option" where
  "setexCommand c s = do {
     key \<leftarrow> arg c 1 s;
     e \<leftarrow> arg c 2 s;
     val \<leftarrow> arg c 3 s;
     setGenericCommand c {} key (tryObjectEncoding val) (Some e) True R_ok R_nullbulk s }"

definition psetexCommand :: "nat \<Rightarrow> server \<Rightarrow> server option" where
  "psetexCommand c s = do {
     key \<leftarrow> arg c 1 s;
     e \<leftarrow> arg c 2 s;
     val \<leftarrow> arg c 3 s;
     setGenericCommand c {} key (tryObjectEncoding val) (Some e) False R_ok R_nullbulk s }"

text \<open>The flag is \<open>C_OK\<close>.\<close>

definition getGenericCommand :: "nat \<Rightarrow> server \<Rightarrow> (server \<times> bool) option" where
  "getGenericCommand c s = do {
     key \<leftarrow> arg c 1 s;
     (s, ob) \<leftarrow> lookupKeyRead (cdb c s) key s;
     case ob of
       None \<Rightarrow> Some (addReply c R_nullbulk s, True)
     | Some v \<Rightarrow>
         (case getDecodedObject v of
            None \<Rightarrow> Some (addReply c (R_error E_wrongtype) s, False)
          | Some b \<Rightarrow> Some (addReply c (R_bulk b) s, True)) }"

definition getCommand :: "nat \<Rightarrow> server \<Rightarrow> server option" where
  "getCommand c s = map_option fst (getGenericCommand c s)"

definition getsetCommand :: "nat \<Rightarrow> server \<Rightarrow> server option" where
  "getsetCommand c s = do {
     key \<leftarrow> arg c 1 s;
     val \<leftarrow> arg c 2 s;
     (s, ok) \<leftarrow> getGenericCommand c s;
     if \<not> ok then Some s
     else do {
       s \<leftarrow> setKey (cdb c s) key (tryObjectEncoding val) s;
       Some (incr_dirty 1 (notifyKeyspaceEvent ''set'' key (cdb c s) s)) } }"

text \<open>Also the zeroed string of \<open>setrangeCommand\<close> for an absent key (\<open>sdsnewlen\<close>); a request for \<open>2 ^ 63\<close> bytes or more
  is an impossible allocation.\<close>

definition sdsgrowzero :: "sds \<Rightarrow> nat \<Rightarrow> sds option" where
  "sdsgrowzero b n = (if n \<ge> 2 ^ 63 then None else Some (b @ replicate (n - length b) 0))"

definition setrangeCommand :: "nat \<Rightarrow> server \<Rightarrow> server option" where
  "setrangeCommand c s = do {
     key \<leftarrow> arg c 1 s;
     a2 \<leftarrow> arg c 2 s;
     value \<leftarrow> arg c 3 s;
     r \<leftarrow> getLongOrReply c (Some (Str_sds a2)) ''value is not an integer or out of range'' s;
     case r of Inl s \<Rightarrow> Some s
     | Inr offset \<Rightarrow>
       if offset < 0 then Some (addReplyError c ''offset is out of range'' s)
       else
         let i = cdb c s; total = offset + int (length value) in do {
         (s, ob) \<leftarrow> lookupKeyWrite i key s;
         r \<leftarrow> (case ob of
           None \<Rightarrow>
             if value = [] then Some (Inl (addReply c (R_longlong 0) s))
             else (case checkStringLength c (ll_wrap total) s of
                     Some s \<Rightarrow> Some (Inl s)
                   | None \<Rightarrow> do {
                       zeros \<leftarrow> sdsgrowzero [] (nat total);
                       s \<leftarrow> dbAdd i key (Str_sds zeros) s;
                       Some (Inr (s, zeros)) })
         | Some v \<Rightarrow>
             (case checkType_string c v s of
                Some s \<Rightarrow> Some (Inl s)
              | None \<Rightarrow> do {
                  olen \<leftarrow> stringObjectLen v;
                  if value = [] then Some (Inl (addReply c (R_longlong (int olen)) s))
                  else (case checkStringLength c (ll_wrap total) s of
                          Some s \<Rightarrow> Some (Inl s)
                        | None \<Rightarrow> map_option Inr (dbUnshareStringValue i key v s)) }));
         case r of Inl s \<Rightarrow> Some s
         | Inr (s, b) \<Rightarrow> do {
             grown \<leftarrow> sdsgrowzero b (nat total);
             new \<leftarrow> mem_write (nat offset) value grown;
             let s = set_value i key (Some (Str_sds new)) s;
                 s = incr_dirty 1 (notifyKeyspaceEvent ''setrange'' key i (signalModifiedKey i key s))
             in Some (addReply c (R_longlong (int (length new))) s) } } }"

text \<open>The slice that \<open>GETRANGE\<close> replies with, or \<^const>\<open>None\<close> for the empty reply.\<close>

definition getrange_slice :: "sds \<Rightarrow> int \<Rightarrow> int \<Rightarrow> sds option" where
  "getrange_slice str start end =
     (let len = int (length str) in
      if start < 0 \<and> end < 0 \<and> start > end then None
      else
        let start = (if start < 0 then ll_wrap (len + start) else start);
            end = (if end < 0 then ll_wrap (len + end) else end);
            start = (if start < 0 then 0 else start);
            end = (if end < 0 then 0 else end);
            end = (if end \<ge> len then ll_wrap (len - 1) else end)
        in if start > end \<or> len = 0 then None
           else Some (take (nat (end - start + 1)) (drop (nat start) str)))"

definition getrangeCommand :: "nat \<Rightarrow> server \<Rightarrow> server option" where
  "getrangeCommand c s = do {
     key \<leftarrow> arg c 1 s;
     a2 \<leftarrow> arg c 2 s;
     a3 \<leftarrow> arg c 3 s;
     r \<leftarrow> getLongLongOrReply c (Some (Str_sds a2)) s;
     case r of Inl s \<Rightarrow> Some s
     | Inr start \<Rightarrow> do {
       r \<leftarrow> getLongLongOrReply c (Some (Str_sds a3)) s;
       case r of Inl s \<Rightarrow> Some s
       | Inr end \<Rightarrow> do {
         (s, ob) \<leftarrow> lookupKeyRead (cdb c s) key s;
         case ob of
           None \<Rightarrow> Some (addReply c R_emptybulk s)
         | Some v \<Rightarrow>
             (case checkType_string c v s of
                Some s \<Rightarrow> Some s
              | None \<Rightarrow> do {
                  str \<leftarrow> getDecodedObject v;
                  Some (addReply c (case getrange_slice str start end of
                                      None \<Rightarrow> R_emptybulk | Some b \<Rightarrow> R_bulk b) s) }) } } }"

fun mget_loop :: "nat \<Rightarrow> sds list \<Rightarrow> server \<Rightarrow> server option" where
  "mget_loop c [] s = Some s"
| "mget_loop c (key # keys) s = do {
     (s, ob) \<leftarrow> lookupKeyRead (cdb c s) key s;
     mget_loop c keys
       (addReply c (case ob of None \<Rightarrow> R_nullbulk
                    | Some v \<Rightarrow> (case getDecodedObject v of None \<Rightarrow> R_nullbulk | Some b \<Rightarrow> R_bulk b)) s) }"

definition mgetCommand :: "nat \<Rightarrow> server \<Rightarrow> server option" where
  "mgetCommand c s =
     mget_loop c (tl (argv (clients s c))) (addReply c (R_multibulklen (length (argv (clients s c)) - 1)) s)"

text \<open>The key and value arguments from position 1 on, two at a time.\<close>

fun mset_pairs :: "sds list \<Rightarrow> (sds \<times> sds) list" where
  "mset_pairs (k # v # rest) = (k, v) # mset_pairs rest"
| "mset_pairs _ = []"

fun any_exists :: "nat \<Rightarrow> sds list \<Rightarrow> server \<Rightarrow> (server \<times> bool) option" where
  "any_exists i [] s = Some (s, False)"
| "any_exists i (key # keys) s = do {
     (s, ob) \<leftarrow> lookupKeyWrite i key s;
     if ob \<noteq> None then Some (s, True) else any_exists i keys s }"

fun mset_loop :: "nat \<Rightarrow> (sds \<times> sds) list \<Rightarrow> server \<Rightarrow> server option" where
  "mset_loop i [] s = Some s"
| "mset_loop i ((key, val) # kvs) s = do {
     s \<leftarrow> setKey i key (tryObjectEncoding val) s;
     mset_loop i kvs (notifyKeyspaceEvent ''set'' key i s) }"

definition msetGenericCommand :: "nat \<Rightarrow> bool \<Rightarrow> server \<Rightarrow> server option" where
  "msetGenericCommand c nx s =
     (let a = argv (clients s c); i = cdb c s; kvs = mset_pairs (tl a) in
      if length a mod 2 = 0 then Some (addReplyError c ''wrong number of arguments for MSET'' s)
      else do {
        (s, blocked) \<leftarrow> (if nx then any_exists i (map fst kvs) s else Some (s, False));
        if blocked then Some (addReply c (R_longlong 0) s)
        else do {
          s \<leftarrow> mset_loop i kvs s;
          Some (addReply c (if nx then R_longlong 1 else R_ok) (incr_dirty (int ((length a - 1) div 2)) s)) } })"

definition incrDecrCommand :: "nat \<Rightarrow> int \<Rightarrow> server \<Rightarrow> server option" where
  "incrDecrCommand c incr s = do {
     key \<leftarrow> arg c 1 s;
     let i = cdb c s in do {
     (s, ob) \<leftarrow> lookupKeyWrite i key s;
     case (case ob of None \<Rightarrow> None | Some v \<Rightarrow> checkType_string c v s) of
       Some s \<Rightarrow> Some s
     | None \<Rightarrow> do {
       r \<leftarrow> getLongLongOrReply c ob s;
       case r of Inl s \<Rightarrow> Some s
       | Inr oldvalue \<Rightarrow>
         if (incr < 0 \<and> oldvalue < 0 \<and> incr < - (2 ^ 63) - oldvalue) \<or>
            (incr > 0 \<and> oldvalue > 0 \<and> incr > 2 ^ 63 - 1 - oldvalue)
         then Some (addReplyError c ''increment or decrement would overflow'' s)
         else
           let value = ll_wrap (oldvalue + incr);
               new = createStringObjectFromLongLongForValue value
           in do {
             s \<leftarrow> (if ob \<noteq> None then dbOverwrite i key new s else dbAdd i key new s);
             let s = incr_dirty 1 (notifyKeyspaceEvent ''incrby'' key i (signalModifiedKey i key s))
             in Some (addReply c (R_longlong value) s) } } } }"

definition incrbyCommand :: "nat \<Rightarrow> server \<Rightarrow> server option" where
  "incrbyCommand c s = do {
     a \<leftarrow> arg c 2 s;
     r \<leftarrow> getLongLongOrReply c (Some (Str_sds a)) s;
     case r of Inl s \<Rightarrow> Some s | Inr incr \<Rightarrow> incrDecrCommand c incr s }"

definition decrbyCommand :: "nat \<Rightarrow> server \<Rightarrow> server option" where
  "decrbyCommand c s = do {
     a \<leftarrow> arg c 2 s;
     r \<leftarrow> getLongLongOrReply c (Some (Str_sds a)) s;
     case r of Inl s \<Rightarrow> Some s | Inr incr \<Rightarrow> incrDecrCommand c (ll_wrap (- incr)) s }"

definition appendCommand :: "nat \<Rightarrow> server \<Rightarrow> server option" where
  "appendCommand c s = do {
     key \<leftarrow> arg c 1 s;
     app \<leftarrow> arg c 2 s;
     let i = cdb c s in do {
     (s, ob) \<leftarrow> lookupKeyWrite i key s;
     r \<leftarrow> (case ob of
       None \<Rightarrow> do {
         s \<leftarrow> dbAdd i key (tryObjectEncoding app) s;
         totlen \<leftarrow> stringObjectLen (tryObjectEncoding app);
         Some (Inr (s, totlen)) }
     | Some v \<Rightarrow>
         (case checkType_string c v s of
            Some s \<Rightarrow> Some (Inl s)
          | None \<Rightarrow> do {
              olen \<leftarrow> stringObjectLen v;
              case checkStringLength c (int (olen + length app)) s of
                Some s \<Rightarrow> Some (Inl s)
              | None \<Rightarrow> do {
                  (s, b) \<leftarrow> dbUnshareStringValue i key v s;
                  Some (Inr (set_value i key (Some (Str_sds (b @ app))) s, length (b @ app))) } }));
     case r of Inl s \<Rightarrow> Some s
     | Inr (s, totlen) \<Rightarrow>
         let s = incr_dirty 1 (notifyKeyspaceEvent ''append'' key i (signalModifiedKey i key s))
         in Some (addReply c (R_longlong (int totlen)) s) } }"

definition strlenCommand :: "nat \<Rightarrow> server \<Rightarrow> server option" where
  "strlenCommand c s = do {
     key \<leftarrow> arg c 1 s;
     (s, ob) \<leftarrow> lookupKeyRead (cdb c s) key s;
     case ob of
       None \<Rightarrow> Some (addReply c (R_longlong 0) s)
     | Some v \<Rightarrow>
         (case checkType_string c v s of
            Some s \<Rightarrow> Some s
          | None \<Rightarrow> do { len \<leftarrow> stringObjectLen v; Some (addReply c (R_longlong (int len)) s) }) }"

section \<open>Safety and tracking\<close>

text \<open>An expire set right after the watching clients were marked.\<close>

lemma step_set_expire_marked:
  "step_ok S s s1 \<Longrightarrow> lookupKey i key s1 \<noteq> None \<Longrightarrow> \<forall>c \<in> watchers i key s1. CLIENT_DIRTY_CAS \<in> flags (clients s1 c) \<Longrightarrow>
    step_ok S s (set_expire i key e s1)"
  by (erule step_okI) (auto simp: upd_defs same_frame_def db_inv_def tracked_def)

lemma signal_marks:
  "\<forall>c \<in> watchers i key (incr_dirty n (signalModifiedKey i key s)).
     CLIENT_DIRTY_CAS \<in> flags (clients (incr_dirty n (signalModifiedKey i key s)) c)"
  by (simp add: signalModifiedKey_def touch_clients watchers_def)

lemma set_write_ok:
  assumes "step_ok {} s s1"
  shows "\<exists>s'. set_write c i key v ms r s1 = Some s' \<and> step_ok {} s s'"
proof -
  have inv: "db_inv s1" using assms by (rule step_ok_inv)
  let ?s2 = "signalModifiedKey i key (set_expire i key None (set_value i key (Some v) (expire_step i key s1)))"
  have s2: "setKey i key v s1 = Some ?s2" by (rule setKey_inv [OF inv])
  have "step_ok {} s (incr_dirty 1 ?s2)" by (rule step_dirty [OF step_setKey [OF assms inv s2]])
  moreover from this have "step_ok {} s (set_expire i key (Some w) (incr_dirty 1 ?s2))" for w
    by (rule step_set_expire_marked) (simp, rule signal_marks)
  ultimately show ?thesis
    by (cases ms) (auto simp: set_write_def s2 setExpire_def Let_def intro!: step_reply step_notify)
qed

lemma set_guard_ok:
  assumes inv: "db_inv s"
  shows "\<exists>s' b. set_guard i fl key s = Some (s', b) \<and> step_ok {} s s'"
  using inv by (auto simp: set_guard_def lookupKeyWrite_inv intro!: step_intros)

lemma set_tail_ok:
  assumes inv: "db_inv s"
  shows "cmd_ok (set_tail c fl key v ms r1 r2) s"
proof -
  obtain s' b where g: "set_guard (cdb c s) fl key s = Some (s', b)" "step_ok {} s s'"
    using set_guard_ok [OF inv] by blast
  with set_write_ok [OF g(2), of c "cdb c s" key v ms r1] show ?thesis
    by (auto simp: cmd_ok_def set_tail_def Let_def intro!: step_reply)
qed

lemma setGeneric_ok: "db_inv s \<Longrightarrow> cmd_ok (setGenericCommand c fl key v e sec r1 r2) s"
  using set_tail_ok [of s]
  by (auto simp: cmd_ok_def setGenericCommand_def getLongLong_cases split: option.splits intro!: step_intros)

lemma set_cmds_ok:
  assumes "db_inv s"
  shows "2 < length (argv (clients s c)) \<Longrightarrow> cmd_ok (setCommand c) s"
    and "2 < length (argv (clients s c)) \<Longrightarrow> cmd_ok (setnxCommand c) s"
    and "3 < length (argv (clients s c)) \<Longrightarrow> cmd_ok (setexCommand c) s"
    and "3 < length (argv (clients s c)) \<Longrightarrow> cmd_ok (psetexCommand c) s"
  using setGeneric_ok [OF assms] assms
  by (auto simp: cmd_ok_def setCommand_def setnxCommand_def setexCommand_def psetexCommand_def arg_def
      split: option.splits intro!: step_intros)

lemma getGeneric_ok:
  assumes "db_inv s" "1 < length (argv (clients s c))"
  shows "\<exists>s' ok. getGenericCommand c s = Some (s', ok) \<and> step_ok {} s s'"
proof -
  obtain s' ob where "lookupKeyRead (cdb c s) (argv (clients s c) ! 1) s = Some (s', ob)" "step_ok {} s s'"
    using lookupKeyRead_inv [OF assms(1)] by blast
  then show ?thesis using assms(2)
    by (auto simp: getGenericCommand_def arg_def split: option.splits intro!: step_intros)
qed

lemma get_ok: "db_inv s \<Longrightarrow> 1 < length (argv (clients s c)) \<Longrightarrow> cmd_ok (getCommand c) s"
  using getGeneric_ok [of s c] by (auto simp: cmd_ok_def getCommand_def)

lemma getset_ok:
  assumes "db_inv s" "2 < length (argv (clients s c))"
  shows "cmd_ok (getsetCommand c) s"
proof -
  obtain s' ok where "getGenericCommand c s = Some (s', ok)" "step_ok {} s s'"
    using getGeneric_ok [of s c] assms by auto
  moreover from this(2) have "db_inv s'" by (rule step_ok_inv)
  ultimately show ?thesis using assms(2) step_setKey [of "{}" s s']
    by (auto simp: cmd_ok_def getsetCommand_def arg_def setKey_inv intro!: step_dirty step_notify)
qed

lemma mget_loop_ok: "step_ok {} s s1 \<Longrightarrow> \<exists>s'. mget_loop c keys s1 = Some s' \<and> step_ok {} s s'"
proof (induction keys arbitrary: s1)
  case (Cons key keys)
  obtain s2 ob where "lookupKeyRead (cdb c s1) key s1 = Some (s2, ob)" "step_ok {} s1 s2"
    using lookupKeyRead_inv [OF step_ok_inv [OF Cons.prems]] by blast
  then show ?case using Cons.IH [OF step_reply [OF step_ok_trans [OF Cons.prems]]] by simp
qed simp

lemma mget_ok: "db_inv s \<Longrightarrow> cmd_ok (mgetCommand c) s"
  using mget_loop_ok [OF step_reply [OF step_ok_refl]] by (simp add: cmd_ok_def mgetCommand_def)

lemma any_exists_ok: "step_ok {} s s1 \<Longrightarrow> \<exists>s' b. any_exists i keys s1 = Some (s', b) \<and> step_ok {} s s'"
proof (induction keys arbitrary: s1)
  case Nil
  then show ?case by auto
next
  case (Cons key keys)
  then show ?case using Cons.IH [OF step_expire [OF Cons.prems]] step_expire [OF Cons.prems]
    by (auto simp: lookupKeyWrite_inv [OF step_ok_inv [OF Cons.prems]])
qed

lemma mset_loop_ok: "step_ok {} s s1 \<Longrightarrow> \<exists>s'. mset_loop i kvs s1 = Some s' \<and> step_ok {} s s'"
proof (induction kvs arbitrary: s1)
  case (Cons kv kvs)
  obtain k v where kv: "kv = (k, v)" by (cases kv)
  have inv: "db_inv s1" using Cons.prems by (rule step_ok_inv)
  obtain s2 where s2: "setKey i k (tryObjectEncoding v) s1 = Some s2" using setKey_inv [OF inv] by simp
  then have "step_ok {} s s2" by (rule step_setKey [OF Cons.prems inv])
  then show ?case using Cons.IH [OF step_notify, of s2] s2 by (simp add: kv)
qed simp

lemma mset_ok:
  assumes "db_inv s"
  shows "cmd_ok (msetGenericCommand c nx) s"
proof -
  let ?kvs = "mset_pairs (tl (argv (clients s c)))"
  obtain s1 b where s1: "any_exists (cdb c s) (map fst ?kvs) s = Some (s1, b)" "step_ok {} s s1"
    using any_exists_ok [OF step_ok_refl [OF assms]] by blast
  obtain s2 where s2: "mset_loop (cdb c s) ?kvs s1 = Some s2" "step_ok {} s s2"
    using mset_loop_ok [OF s1(2)] by blast
  obtain s3 where s3: "mset_loop (cdb c s) ?kvs s = Some s3" "step_ok {} s s3"
    using mset_loop_ok [OF step_ok_refl [OF assms]] by blast
  show ?thesis using s1 s2 s3 assms
    by (cases nx) (auto simp: cmd_ok_def msetGenericCommand_def Let_def intro!: step_intros)
qed

lemma getDecoded_string: "is_string v \<Longrightarrow> \<exists>b. getDecodedObject v = Some b"
  by (auto simp: is_string_def getDecodedObject_def split: robj.splits)

lemma stringObjectLen_string: "is_string v \<Longrightarrow> \<exists>n. stringObjectLen v = Some n"
  by (auto simp: is_string_def stringObjectLen_def split: robj.splits)

lemma incr_ok:
  assumes inv: "db_inv s" and len: "1 < length (argv (clients s c))"
  shows "cmd_ok (incrDecrCommand c n) s"
proof -
  let ?k = "argv (clients s c) ! Suc 0"
  let ?s = "expire_step (cdb c s) ?k s"
  show ?thesis
  proof (cases "lookupKey (cdb c s) ?k ?s")
    case None
    with inv len show ?thesis
      by (auto simp: cmd_ok_def incrDecrCommand_def arg_def Let_def lookupKeyWrite_inv getLongLongOrReply_def
          getLongLongFromObject_def dbAdd_def intro!: step_intros)
  next
    case (Some v)
    with inv len show ?thesis
      by (cases v) (auto simp: cmd_ok_def incrDecrCommand_def arg_def Let_def lookupKeyWrite_inv
          checkType_string_def is_string_def getLongLongOrReply_def getLongLongFromObject_def dbOverwrite_def
          intro!: step_intros split: option.splits)
  qed
qed

lemma incrby_ok:
  assumes "db_inv s" "2 < length (argv (clients s c))"
  shows "cmd_ok (incrbyCommand c) s" and "cmd_ok (decrbyCommand c) s"
  using assms incr_ok [of s c]
  by (auto simp: cmd_ok_def incrbyCommand_def decrbyCommand_def arg_def getLongLong_cases
      intro!: step_intros split: option.splits)

lemma unshare_inv:
  "is_string v \<Longrightarrow> lookupKey i key s = Some v \<Longrightarrow>
    \<exists>b s'. dbUnshareStringValue i key v s = Some (s', b) \<and> getDecodedObject v = Some b \<and>
      (s' = s \<or> s' = set_value i key (Some (Str_sds b)) s)"
  by (auto simp: dbUnshareStringValue_def getDecodedObject_def is_string_def dbOverwrite_def split: robj.splits)

lemma append_ok:
  assumes inv: "db_inv s" and len: "2 < length (argv (clients s c))"
  shows "cmd_ok (appendCommand c) s"
proof -
  define k where "k = argv (clients s c) ! Suc 0"
  define a where "a = argv (clients s c) ! 2"
  let ?s = "expire_step (cdb c s) k s"
  have args: "arg c (Suc 0) s = Some k" "arg c 2 s = Some a" using len by (simp_all add: arg_def k_def a_def)
  show ?thesis
  proof (cases "lookupKey (cdb c s) k ?s")
    case None
    have "is_string (tryObjectEncoding a)" by (simp add: tryObjectEncoding_def is_string_def split: option.splits)
    then obtain n where "stringObjectLen (tryObjectEncoding a) = Some n" using stringObjectLen_string by blast
    with None inv show ?thesis
      by (auto simp: cmd_ok_def appendCommand_def args Let_def lookupKeyWrite_inv dbAdd_def intro!: step_intros)
  next
    case (Some v)
    show ?thesis
    proof (cases "is_string v")
      case True
      obtain n where "stringObjectLen v = Some n" using stringObjectLen_string True by blast
      moreover obtain b s' where "dbUnshareStringValue (cdb c s) k v ?s = Some (s', b)"
        "s' = ?s \<or> s' = set_value (cdb c s) k (Some (Str_sds b)) ?s"
        using unshare_inv [OF True Some] by blast
      ultimately show ?thesis using Some True inv
        by (auto simp: cmd_ok_def appendCommand_def args Let_def lookupKeyWrite_inv checkType_string_def
            checkStringLength_def intro!: step_intros)
    next
      case False
      with Some inv show ?thesis
        by (auto simp: cmd_ok_def appendCommand_def args Let_def lookupKeyWrite_inv checkType_string_def intro!: step_intros)
    qed
  qed
qed

lemma strlen_ok:
  assumes "db_inv s" "1 < length (argv (clients s c))"
  shows "cmd_ok (strlenCommand c) s"
proof -
  obtain s' ob where r: "lookupKeyRead (cdb c s) (argv (clients s c) ! 1) s = Some (s', ob)" "step_ok {} s s'"
    using lookupKeyRead_inv [OF assms(1)] by blast
  have "is_string v \<Longrightarrow> \<exists>n. stringObjectLen v = Some n" for v by (rule stringObjectLen_string)
  then show ?thesis using assms(2) r
    by (cases ob) (fastforce simp: cmd_ok_def strlenCommand_def arg_def checkType_string_def intro!: step_intros)+
qed

lemma getrange_ok:
  assumes "db_inv s" "3 < length (argv (clients s c))"
  shows "cmd_ok (getrangeCommand c) s"
proof -
  obtain s' ob where r: "lookupKeyRead (cdb c s) (argv (clients s c) ! 1) s = Some (s', ob)" "step_ok {} s s'"
    using lookupKeyRead_inv [OF assms(1)] by blast
  have d: "is_string v \<Longrightarrow> \<exists>n. getDecodedObject v = Some n" for v by (rule getDecoded_string)
  show ?thesis
  proof (cases ob)
    case None
    with assms r show ?thesis
      by (auto simp: cmd_ok_def getrangeCommand_def arg_def getLongLong_cases split: option.splits intro!: step_intros)
  next
    case (Some v)
    with assms r d [of v] show ?thesis
      by (cases "is_string v"; cases "string2ll (argv (clients s c) ! 2)"; cases "string2ll (argv (clients s c) ! 3)")
        (auto simp: cmd_ok_def getrangeCommand_def arg_def getLongLong_cases checkType_string_def intro!: step_intros)
  qed
qed


text \<open>\<open>SETRANGE\<close> asks for less than \<open>2 ^ 63\<close> bytes.\<close>

definition setrange_fits :: "sds list \<Rightarrow> bool" where
  "setrange_fits av \<longleftrightarrow>
     (case string2ll (av ! 2) of None \<Rightarrow> True | Some offset \<Rightarrow> offset + int (length (av ! 3)) < 2 ^ 63)"

lemma mem_write_grown:
  assumes "sdsgrowzero b (off + length v) = Some g"
  shows "\<exists>new. mem_write off v g = Some new"
  using assms by (auto simp: sdsgrowzero_def mem_write_def split: if_splits)

lemma setrange_ok:
  assumes inv: "db_inv s" and len: "3 < length (argv (clients s c))" and fits: "setrange_fits (argv (clients s c))"
  shows "cmd_ok (setrangeCommand c) s"
proof -
  define k where "k = argv (clients s c) ! Suc 0"
  define a where "a = argv (clients s c) ! 2"
  define v where "v = argv (clients s c) ! 3"
  let ?s = "expire_step (cdb c s) k s"
  have args: "arg c (Suc 0) s = Some k" "arg c 2 s = Some a" "arg c 3 s = Some v"
    using len by (simp_all add: arg_def k_def a_def v_def)
  show ?thesis
  proof (cases "string2ll a")
    case None
    then show ?thesis using inv by (auto simp: cmd_ok_def setrangeCommand_def args getLong_cases intro!: step_intros)
  next
    case (Some off)
    show ?thesis
    proof (cases "off < 0 \<or> off > 2 ^ 63 - 1")
      case True
      with Some inv show ?thesis
        by (auto simp: cmd_ok_def setrangeCommand_def args getLong_cases intro!: step_intros)
    next
      case False
      then have off: "0 \<le> off" "\<not> off < - (2 ^ 63)" "\<not> off > 2 ^ 63 - 1" by auto
      have n: "nat (off + int (length v)) = nat off + length v" using off by auto
      have lt: "nat off + length v < 2 ^ 63"
        using fits Some off by (simp add: setrange_fits_def a_def v_def nat_less_iff)
      have grow: "\<exists>g. sdsgrowzero b (nat off + length v) = Some g \<and> (\<exists>new. mem_write (nat off) v g = Some new)" for b
        using lt mem_write_grown [of b "nat off" v] by (auto simp: sdsgrowzero_def)
      obtain zs where zs: "sdsgrowzero [] (nat off + length v) = Some zs" using grow by blast
      show ?thesis
      proof (cases "lookupKey (cdb c s) k ?s")
        case None
        obtain g new where g: "sdsgrowzero zs (nat off + length v) = Some g" "mem_write (nat off) v g = Some new"
          using grow by blast
        show ?thesis using None Some inv off zs g
          by (auto simp: cmd_ok_def setrangeCommand_def args getLong_cases Let_def lookupKeyWrite_inv n dbAdd_def
              checkStringLength_def intro!: step_intros)
      next
        case v2: (Some ob)
        show ?thesis
        proof (cases "is_string ob")
          case False
          with v2 Some inv off show ?thesis
            by (auto simp: cmd_ok_def setrangeCommand_def args getLong_cases Let_def lookupKeyWrite_inv
                checkType_string_def intro!: step_intros)
        next
          case True
          obtain m where m: "stringObjectLen ob = Some m" using stringObjectLen_string True by blast
          obtain b s' where u: "dbUnshareStringValue (cdb c s) k ob ?s = Some (s', b)"
            "s' = ?s \<or> s' = set_value (cdb c s) k (Some (Str_sds b)) ?s"
            using unshare_inv [OF True v2] by blast
          obtain g new where g: "sdsgrowzero b (nat off + length v) = Some g" "mem_write (nat off) v g = Some new"
            using grow by blast
          show ?thesis using v2 True Some inv off m u g
            by (auto simp: cmd_ok_def setrangeCommand_def args getLong_cases Let_def lookupKeyWrite_inv n
                checkType_string_def checkStringLength_def intro!: step_intros)
        qed
      qed
    qed
  qed
qed

end
