(* ===== verification/Redis_Multi.thy ===== *)
theory Redis_Multi
  imports Redis_String
begin

text \<open>
  Transactions (\<open>multi.c\<close>) and command dispatch (\<open>call\<close> and \<open>processCommand\<close> of \<open>server.c\<close>).  The
  command table holds the commands of \<open>Redis_Db\<close>, \<open>Redis_String\<close> and this theory.  The verdicts of
  code that is not modelled (cluster redirection, eviction, disk state, replica count) are fields
  of the server record; there are no \<open>MONITOR\<close> clients, modules or scripts.
\<close>

section \<open>WATCH\<close>

definition watchForKey :: "nat \<Rightarrow> sds \<Rightarrow> server \<Rightarrow> server" where
  "watchForKey c key s =
     (let i = cdb c s in
      if (i, key) \<in> set (watched_keys (clients s c)) then s
      else
        let cs = (case db_watched (dbs s i) key of None \<Rightarrow> [] | Some cs \<Rightarrow> cs);
            s = upd_db i (\<lambda>d. d\<lparr>db_watched := (db_watched d)(key \<mapsto> cs @ [c])\<rparr>) s
        in upd_client c (\<lambda>cl. cl\<lparr>watched_keys := watched_keys cl @ [(i, key)]\<rparr>) s)"

fun unwatch_loop :: "nat \<Rightarrow> (nat \<times> sds) list \<Rightarrow> server \<Rightarrow> server option" where
  "unwatch_loop c [] s = Some s"
| "unwatch_loop c ((i, key) # wks) s =
     (case db_watched (dbs s i) key of
        None \<Rightarrow> None
      | Some cs \<Rightarrow>
          if c \<notin> set cs then None
          else
            let cs' = remove1 c cs;
                s = upd_db i (\<lambda>d. d\<lparr>db_watched :=
                      (db_watched d)(key := if cs' = [] then None else Some cs')\<rparr>) s
            in unwatch_loop c wks
                 (upd_client c (\<lambda>cl. cl\<lparr>watched_keys := remove1 (i, key) (watched_keys cl)\<rparr>) s))"

definition unwatchAllKeys :: "nat \<Rightarrow> server \<Rightarrow> server option" where
  "unwatchAllKeys c s = unwatch_loop c (watched_keys (clients s c)) s"

definition watchCommand :: "nat \<Rightarrow> server \<Rightarrow> server option" where
  "watchCommand c s =
     (if CLIENT_MULTI \<in> flags (clients s c) then Some (addReplyError c ''WATCH inside MULTI is not allowed'' s)
      else Some (addReply c R_ok (fold (watchForKey c) (tl (argv (clients s c))) s)))"

definition unwatchCommand :: "nat \<Rightarrow> server \<Rightarrow> server option" where
  "unwatchCommand c s = do {
     s \<leftarrow> unwatchAllKeys c s;
     Some (addReply c R_ok (upd_client c (\<lambda>cl. cl\<lparr>flags := flags cl - {CLIENT_DIRTY_CAS}\<rparr>) s)) }"

section \<open>MULTI and DISCARD\<close>

definition initClientMultiState :: multiState where
  "initClientMultiState = \<lparr>commands = [], cmd_flags = {}\<rparr>"

definition queueMultiCommand :: "nat \<Rightarrow> server \<Rightarrow> server" where
  "queueMultiCommand c s =
     upd_client c (\<lambda>cl. cl\<lparr>mstate :=
       \<lparr>commands = commands (mstate cl) @ [\<lparr>mc_cmd = cmd cl, mc_argv = argv cl\<rparr>],
        cmd_flags = cmd_flags (mstate cl) \<union> cflags (cmd cl)\<rparr>\<rparr>) s"

definition discardTransaction :: "nat \<Rightarrow> server \<Rightarrow> server option" where
  "discardTransaction c s =
     unwatchAllKeys c (upd_client c (\<lambda>cl. cl\<lparr>mstate := initClientMultiState,
       flags := flags cl - {CLIENT_MULTI, CLIENT_DIRTY_CAS, CLIENT_DIRTY_EXEC}\<rparr>) s)"

definition flagTransaction :: "nat \<Rightarrow> server \<Rightarrow> server" where
  "flagTransaction c s =
     (if CLIENT_MULTI \<in> flags (clients s c)
      then upd_client c (\<lambda>cl. cl\<lparr>flags := insert CLIENT_DIRTY_EXEC (flags cl)\<rparr>) s else s)"

definition multiCommand :: "nat \<Rightarrow> server \<Rightarrow> server option" where
  "multiCommand c s =
     (if CLIENT_MULTI \<in> flags (clients s c) then Some (addReplyError c ''MULTI calls can not be nested'' s)
      else Some (addReply c R_ok (upd_client c (\<lambda>cl. cl\<lparr>flags := insert CLIENT_MULTI (flags cl)\<rparr>) s)))"

definition discardCommand :: "nat \<Rightarrow> server \<Rightarrow> server option" where
  "discardCommand c s =
     (if CLIENT_MULTI \<notin> flags (clients s c) then Some (addReplyError c ''DISCARD without MULTI'' s)
      else map_option (addReply c R_ok) (discardTransaction c s))"

section \<open>AUTH and PING\<close>

text \<open>Two C strings are compared in buffers of 512 bytes; longer ones are never equal.\<close>

definition time_independent_strcmp :: "byte list \<Rightarrow> byte list \<Rightarrow> bool" where
  "time_independent_strcmp a b =
     (let a = takeWhile (\<lambda>x. x \<noteq> 0) a; b = takeWhile (\<lambda>x. x \<noteq> 0) b in
      if length a > 512 \<or> length b > 512 then True
      else a @ replicate (512 - length a) 0 \<noteq> b @ replicate (512 - length b) 0 \<or> length a \<noteq> length b)"

definition authCommand :: "nat \<Rightarrow> server \<Rightarrow> server option" where
  "authCommand c s = do {
     a \<leftarrow> arg c 1 s;
     case requirepass s of
       None \<Rightarrow> Some (addReplyError c ''Client sent AUTH, but no password is set'' s)
     | Some pw \<Rightarrow>
         if \<not> time_independent_strcmp a pw
         then Some (addReply c R_ok (upd_client c (\<lambda>cl. cl\<lparr>authenticated := True\<rparr>) s))
         else Some (addReplyError c ''invalid password'' (upd_client c (\<lambda>cl. cl\<lparr>authenticated := False\<rparr>) s)) }"

definition pingCommand :: "nat \<Rightarrow> server \<Rightarrow> server option" where
  "pingCommand c s =
     (let a = argv (clients s c) in
      if length a > 2 then Some (addReplyError c ''wrong number of arguments'' s)
      else if CLIENT_PUBSUB \<in> flags (clients s c) then
        Some (addReply c (R_bulk (if length a = 1 then [] else a ! 1))
               (addReply c (R_bulk (str_bytes ''pong'')) (addReply c (R_multibulklen 2) s)))
      else Some (addReply c (if length a = 1 then R_pong else R_bulk (a ! 1)) s))"

section \<open>Executing commands\<close>

text \<open>\<open>c->cmd->proc(c)\<close> for every command but \<open>EXEC\<close>.\<close>

fun base_proc :: "proc \<Rightarrow> nat \<Rightarrow> server \<Rightarrow> server option" where
  "base_proc P_get c s = getCommand c s"
| "base_proc P_set c s = setCommand c s"
| "base_proc P_setnx c s = setnxCommand c s"
| "base_proc P_setex c s = setexCommand c s"
| "base_proc P_psetex c s = psetexCommand c s"
| "base_proc P_append c s = appendCommand c s"
| "base_proc P_strlen c s = strlenCommand c s"
| "base_proc P_del c s = delGenericCommand c False s"
| "base_proc P_unlink c s = delGenericCommand c True s"
| "base_proc P_exists c s = existsCommand c s"
| "base_proc P_setrange c s = setrangeCommand c s"
| "base_proc P_getrange c s = getrangeCommand c s"
| "base_proc P_incr c s = incrDecrCommand c 1 s"
| "base_proc P_decr c s = incrDecrCommand c (-1) s"
| "base_proc P_mget c s = mgetCommand c s"
| "base_proc P_incrby c s = incrbyCommand c s"
| "base_proc P_decrby c s = decrbyCommand c s"
| "base_proc P_getset c s = getsetCommand c s"
| "base_proc P_mset c s = msetGenericCommand c False s"
| "base_proc P_msetnx c s = msetGenericCommand c True s"
| "base_proc P_select c s = selectCommand c s"
| "base_proc P_swapdb c s = swapdbCommand c s"
| "base_proc P_move c s = moveCommand c s"
| "base_proc P_rename c s = renameGenericCommand c False s"
| "base_proc P_renamenx c s = renameGenericCommand c True s"
| "base_proc P_expire c s = expireGenericCommand c (now s) True s"
| "base_proc P_expireat c s = expireGenericCommand c 0 True s"
| "base_proc P_pexpire c s = expireGenericCommand c (now s) False s"
| "base_proc P_pexpireat c s = expireGenericCommand c 0 False s"
| "base_proc P_dbsize c s = dbsizeCommand c s"
| "base_proc P_auth c s = authCommand c s"
| "base_proc P_ping c s = pingCommand c s"
| "base_proc P_type c s = typeCommand c s"
| "base_proc P_ttl c s = ttlGenericCommand c False s"
| "base_proc P_pttl c s = ttlGenericCommand c True s"
| "base_proc P_persist c s = persistCommand c s"
| "base_proc P_touch c s = touchCommand c s"
| "base_proc P_flushdb c s = flushdbCommand c s"
| "base_proc P_flushall c s = flushallCommand c s"
| "base_proc P_multi c s = multiCommand c s"
| "base_proc P_discard c s = discardCommand c s"
| "base_proc P_watch c s = watchCommand c s"
| "base_proc P_unwatch c s = unwatchCommand c s"
| "base_proc P_exec c s = None"

abbreviation prop_flags :: "client_flag set" where
  "prop_flags \<equiv> {CLIENT_FORCE_AOF, CLIENT_FORCE_REPL, CLIENT_PREVENT_AOF_PROP, CLIENT_PREVENT_REPL_PROP}"

text \<open>\<open>call\<close>, over the function that runs the command; \<open>full\<close> is \<open>CMD_CALL_FULL\<close> against
  \<open>CMD_CALL_NONE\<close>.  Slow log, latency samples and statistics are left out.\<close>

definition call_with :: "(proc \<Rightarrow> nat \<Rightarrow> server \<Rightarrow> server option) \<Rightarrow> bool \<Rightarrow> nat \<Rightarrow> server \<Rightarrow> server option" where
  "call_with run full c s =
     (let old = flags (clients s c);
          s = upd_client c (\<lambda>cl. cl\<lparr>flags := flags cl - prop_flags\<rparr>) s;
          dirty0 = dirty s
      in do {
        s \<leftarrow> run (proc_of (cmd (clients s c))) c s;
        let fl = flags (clients s c);
            changed = dirty s - dirty0 > 0;
            to_aof = (changed \<or> CLIENT_FORCE_AOF \<in> fl) \<and> CLIENT_PREVENT_AOF_PROP \<notin> fl;
            to_repl = (changed \<or> CLIENT_FORCE_REPL \<in> fl) \<and> CLIENT_PREVENT_REPL_PROP \<notin> fl;
            s = (if full then propagate (cdb c s) (argv (clients s c)) to_aof to_repl s else s)
        in Some (upd_client c (\<lambda>cl. cl\<lparr>flags := flags cl - prop_flags \<union> (old \<inter> prop_flags)\<rparr>) s) })"

fun exec_loop :: "nat \<Rightarrow> nat list \<Rightarrow> bool \<Rightarrow> server \<Rightarrow> (server \<times> bool) option" where
  "exec_loop c [] must s = Some (s, must)"
| "exec_loop c (j # js) must s =
     (let mc = commands (mstate (clients s c)) ! j;
          s = upd_client c (\<lambda>cl. cl\<lparr>argv := mc_argv mc, cmd := mc_cmd mc\<rparr>) s;
          first = (\<not> must \<and> cflags (mc_cmd mc) \<inter> {CMD_READONLY, CMD_ADMIN} = {});
          s = (if first then propagate (cdb c s) [str_bytes ''MULTI''] True True s else s)
      in do {
        s \<leftarrow> call_with base_proc (\<not> loading s) c s;
        exec_loop c js (must \<or> first)
          (upd_client c (\<lambda>cl. cl\<lparr>mstate := (mstate cl)\<lparr>commands :=
             (commands (mstate cl))[j := \<lparr>mc_cmd = cmd cl, mc_argv = argv cl\<rparr>]\<rparr>\<rparr>) s) })"

definition execCommand :: "nat \<Rightarrow> server \<Rightarrow> server option" where
  "execCommand c s =
     (let cl = clients s c in
      if CLIENT_MULTI \<notin> flags cl then Some (addReplyError c ''EXEC without MULTI'' s)
      else if flags cl \<inter> {CLIENT_DIRTY_CAS, CLIENT_DIRTY_EXEC} \<noteq> {} then
        discardTransaction c
          (addReply c (if CLIENT_DIRTY_EXEC \<in> flags cl then R_error E_execabort else R_nullmultibulk) s)
      else if \<not> loading s \<and> masterhost s \<and> repl_slave_ro s \<and> CLIENT_MASTER \<notin> flags cl \<and>
              CMD_WRITE \<in> cmd_flags (mstate cl)
      then discardTransaction c (addReplyError c ''Transaction contains write commands'' s)
      else do {
        s \<leftarrow> unwatchAllKeys c s;
        (s, must) \<leftarrow> exec_loop c [0..<length (commands (mstate cl))] False
                      (addReply c (R_multibulklen (length (commands (mstate cl)))) s);
        s \<leftarrow> discardTransaction c (upd_client c (\<lambda>x. x\<lparr>argv := argv cl, cmd := cmd cl\<rparr>) s);
        Some (if must then incr_dirty 1 s else s) })"

definition run_proc :: "proc \<Rightarrow> nat \<Rightarrow> server \<Rightarrow> server option" where
  "run_proc p c s = (if p = P_exec then execCommand c s else base_proc p c s)"

abbreviation call_full :: "nat \<Rightarrow> server \<Rightarrow> server option" where
  "call_full c s \<equiv> call_with run_proc True c s"

section \<open>Processing a request\<close>

definition arity_error :: "redisCommand \<Rightarrow> nat \<Rightarrow> bool" where
  "arity_error cm argc \<longleftrightarrow> (arity cm > 0 \<and> arity cm \<noteq> int argc) \<or> int argc < - arity cm"

definition reject :: "nat \<Rightarrow> reply_err \<Rightarrow> server \<Rightarrow> server" where
  "reject c e s = addReply c (R_error e) (flagTransaction c s)"

text \<open>The checks between the lookup of the command and its execution, in order: the state with the
  error reply, or \<^const>\<open>None\<close> when the command is accepted.\<close>

definition refused :: "nat \<Rightarrow> redisCommand \<Rightarrow> server \<Rightarrow> server option option" where
  "refused c cm s =
     (let fl = flags (clients s c) in
      if arity_error cm (length (argv (clients s c)))
      then Some (Some (reject c (E_msg ''wrong number of arguments'') s))
      else if requirepass s \<noteq> None \<and> \<not> authenticated (clients s c) \<and> proc_of cm \<noteq> P_auth
      then Some (Some (reject c E_noauth s))
      else if cluster_redirect s c then
        Some (if proc_of cm = P_exec then map_option (addReply c (R_error E_redirect)) (discardTransaction c s)
              else Some (reject c E_redirect s))
      else if out_of_memory s \<and> (CMD_DENYOOM \<in> cflags cm \<or> CLIENT_MULTI \<in> fl \<and> proc_of cm \<noteq> P_exec)
      then Some (Some (reject c E_oom s))
      else if disk_error s \<noteq> DISK_ERROR_TYPE_NONE \<and> \<not> masterhost s \<and>
              (CMD_WRITE \<in> cflags cm \<or> proc_of cm = P_ping)
      then Some (Some (reject c (if disk_error s = DISK_ERROR_TYPE_RDB then E_bgsave else E_misconf) s))
      else if \<not> masterhost s \<and> \<not> enough_good_slaves s \<and> CMD_WRITE \<in> cflags cm
      then Some (Some (reject c E_noreplicas s))
      else if masterhost s \<and> repl_slave_ro s \<and> CLIENT_MASTER \<notin> fl \<and> CMD_WRITE \<in> cflags cm
      then Some (Some (addReply c (R_error E_roslave) s))
      else if CLIENT_PUBSUB \<in> fl \<and> proc_of cm \<noteq> P_ping
      then Some (Some (addReplyError c ''only (P)SUBSCRIBE / (P)UNSUBSCRIBE / PING / QUIT allowed in this context'' s))
      else if masterhost s \<and> \<not> master_up s \<and> \<not> repl_serve_stale_data s \<and> CMD_STALE \<notin> cflags cm
      then Some (Some (reject c E_masterdown s))
      else if loading s \<and> CMD_LOADING \<notin> cflags cm then Some (Some (addReply c (R_error E_loading) s))
      else if lua_timedout s \<and> proc_of cm \<noteq> P_auth then Some (Some (reject c E_slowscript s))
      else None)"

text \<open>The request is in \<open>argv\<close>; it has at least one argument.  The flag is \<open>C_OK\<close>.\<close>

definition processCommand :: "nat \<Rightarrow> server \<Rightarrow> (server \<times> bool) option" where
  "processCommand c s = do {
     name \<leftarrow> arg c 0 s;
     if strcaseeq name ''quit'' then
       Some (upd_client c (\<lambda>cl. cl\<lparr>flags := insert CLIENT_CLOSE_AFTER_REPLY (flags cl)\<rparr>) (addReply c R_ok s), False)
     else case lookupCommand name of
       None \<Rightarrow> Some (reject c (E_msg ''unknown command'') s, True)
     | Some cm \<Rightarrow>
         let s = upd_client c (\<lambda>cl. cl\<lparr>cmd := cm\<rparr>) s in
         (case refused c cm s of
            Some r \<Rightarrow> map_option (\<lambda>s. (s, True)) r
          | None \<Rightarrow>
              if CLIENT_MULTI \<in> flags (clients s c) \<and> proc_of cm \<notin> {P_exec, P_discard, P_multi, P_watch}
              then Some (addReply c R_queued (queueMultiCommand c s), True)
              else map_option (\<lambda>s. (s, True)) (call_full c s)) }"

text \<open>A request of client \<open>c\<close> with the arguments \<open>av\<close>.\<close>

definition request :: "nat \<Rightarrow> sds list \<Rightarrow> server \<Rightarrow> server option" where
  "request c av s =
     map_option fst (processCommand c (upd_client c (\<lambda>cl. cl\<lparr>argv := av\<rparr>) (s\<lparr>current_client := Some c\<rparr>)))"


section \<open>Running one keyspace command\<close>

definition tx_procs :: "proc set" where
  "tx_procs = {P_exec, P_multi, P_discard, P_watch, P_unwatch}"

text \<open>Commands that change keys without \<open>signalModifiedKey\<close>.\<close>

definition unsignalled :: "proc set" where
  "unsignalled = {P_move, P_persist, P_swapdb}"

definition in_table :: "redisCommand \<Rightarrow> bool" where
  "in_table cm \<longleftrightarrow> (\<exists>e \<in> set redisCommandTable. cm = command_of (snd e))"

text \<open>A command that passed the arity check, and does not ask \<open>SETRANGE\<close> for too much.\<close>

definition runnable :: "redisCommand \<Rightarrow> sds list \<Rightarrow> bool" where
  "runnable cm av \<longleftrightarrow> in_table cm \<and> \<not> arity_error cm (length av) \<and> (proc_of cm = P_setrange \<longrightarrow> setrange_fits av)"

fun min_argc :: "proc \<Rightarrow> nat" where
  "min_argc p =
     (if p \<in> {P_setex, P_psetex, P_setrange, P_getrange} then 4
      else if p \<in> {P_set, P_setnx, P_append, P_incrby, P_decrby, P_getset, P_swapdb, P_move, P_rename, P_renamenx,
                   P_expire, P_expireat, P_pexpire, P_pexpireat} then 3
      else if p \<in> {P_get, P_strlen, P_incr, P_decr, P_select, P_auth, P_type, P_ttl, P_pttl, P_persist} then 2
      else 0)"

lemma runnable_argc: "runnable cm av \<Longrightarrow> min_argc (proc_of cm) \<le> length av"
proof -
  have "\<forall>e \<in> set redisCommandTable. arity_error (command_of (snd e)) n \<or> min_argc (proc_of (command_of (snd e))) \<le> n" for n
    by (simp add: redisCommandTable_def command_of_def arity_error_def) linarith
  then show "runnable cm av \<Longrightarrow> min_argc (proc_of cm) \<le> length av"
    by (fastforce simp: runnable_def in_table_def simp del: min_argc.simps)
qed

lemma base_proc_ok:
  assumes inv: "db_inv s" "watch_inv s"
    and run: "runnable (cmd (clients s c)) (argv (clients s c))"
    and p: "proc_of (cmd (clients s c)) = p" "p \<notin> tx_procs"
  shows "\<exists>s'. base_proc p c s = Some s' \<and> (if p \<in> unsignalled then step_ok UNIV s s' else step_ok {} s s')"
proof -
  have n: "min_argc p \<le> length (argv (clients s c))" using runnable_argc [OF run] p(1) by simp
  have fits: "p = P_setrange \<Longrightarrow> setrange_fits (argv (clients s c))" using run p(1) by (simp add: runnable_def)
  have un: "\<exists>s'. persistCommand c s = Some s' \<and> step_ok UNIV s s'" if "1 < length (argv (clients s c))"
    using persist_ok [OF inv(1) that] step_ok_mono by (metis subset_UNIV)
  have au: "cmd_ok (authCommand c) s" if "1 < length (argv (clients s c))"
    using inv(1) that
    by (auto simp: cmd_ok_def authCommand_def arg_def split: option.splits intro!: step_reply step_client step_ok_refl)
  have pi: "cmd_ok (pingCommand c) s"
    using inv(1) by (auto simp: cmd_ok_def pingCommand_def Let_def intro!: step_intros)
  note oks = del_ok exists_ok select_ok type_ok dbsize_ok rename_ok ttl_ok expire_ok flushdb_ok flushall_ok
    set_cmds_ok get_ok getset_ok mget_ok mset_ok incr_ok incrby_ok append_ok strlen_ok getrange_ok setrange_ok
  show ?thesis
    using p(2) n fits inv oks [unfolded cmd_ok_def] move_ok swapdb_ok un au [unfolded cmd_ok_def] pi [unfolded cmd_ok_def]
    by (cases p) (simp_all add: tx_procs_def unsignalled_def)
qed


section \<open>The server invariant\<close>

definition queue_ok :: "multiState \<Rightarrow> bool" where
  "queue_ok m \<longleftrightarrow>
     (\<forall>mc \<in> set (commands m). runnable (mc_cmd mc) (mc_argv mc) \<and>
        proc_of (mc_cmd mc) \<notin> {P_exec, P_discard, P_multi, P_watch})"

text \<open>The queue of a client in \<open>C\<close> may be in the middle of being executed.\<close>

definition server_inv :: "nat set \<Rightarrow> server \<Rightarrow> bool" where
  "server_inv C s \<longleftrightarrow> db_inv s \<and> watch_inv s \<and> (\<forall>c. c \<notin> C \<longrightarrow> queue_ok (mstate (clients s c)))"

text \<open>What a step of client \<open>c0\<close> does to the other clients: their queues and watched keys stay, they
  may only be marked, and (when \<open>T\<close>) they are marked if a key they watch changes other than by expiring.\<close>

definition ext_ok :: "bool \<Rightarrow> nat \<Rightarrow> server \<Rightarrow> server \<Rightarrow> bool" where
  "ext_ok T c0 s s' \<longleftrightarrow>
     (\<forall>c. c \<noteq> c0 \<longrightarrow> watched_keys (clients s' c) = watched_keys (clients s c) \<and>
          mstate (clients s' c) = mstate (clients s c) \<and>
          flags (clients s c) \<subseteq> flags (clients s' c) \<and>
          flags (clients s' c) \<subseteq> insert CLIENT_DIRTY_CAS (flags (clients s c))) \<and>
     dbnum s' = dbnum s \<and> client_list s' = client_list s \<and> now s' = now s \<and> loading s' = loading s \<and>
     lua_caller s' = lua_caller s \<and> lua_time_start s' = lua_time_start s \<and> masterhost s' = masterhost s \<and>
     (T \<longrightarrow> (\<forall>c i key. c \<noteq> c0 \<and> (i, key) \<in> set (watched_keys (clients s c)) \<longrightarrow>
        key_view i key s' = key_view i key s \<or> expired_at i key s \<and> lookupKey i key s' = None \<or>
        CLIENT_DIRTY_CAS \<in> flags (clients s' c)))"

definition good :: "bool \<Rightarrow> nat set \<Rightarrow> nat \<Rightarrow> server \<Rightarrow> server \<Rightarrow> bool" where
  "good T C c0 s s' \<longleftrightarrow> server_inv C s' \<and> ext_ok T c0 s s'"

lemma ext_ok_trans:
  assumes e: "ext_ok T c0 s s1" "ext_ok T c0 s1 s2" and inv: "db_inv s1"
  shows "ext_ok T c0 s s2"
proof -
  have "key_view i key s2 = key_view i key s \<or> expired_at i key s \<and> lookupKey i key s2 = None \<or>
    CLIENT_DIRTY_CAS \<in> flags (clients s2 c)"
    if T: "T" and c: "c \<noteq> c0" and w: "(i, key) \<in> set (watched_keys (clients s c))" for c i key
  proof -
    have w1: "(i, key) \<in> set (watched_keys (clients s1 c))" using e(1) c w by (simp add: ext_ok_def)
    have keep: "CLIENT_DIRTY_CAS \<in> flags (clients s1 c) \<Longrightarrow> CLIENT_DIRTY_CAS \<in> flags (clients s2 c)"
      using e(2) c by (auto simp: ext_ok_def)
    have t2: "key_view i key s2 = key_view i key s1 \<or> expired_at i key s1 \<and> lookupKey i key s2 = None \<or>
      CLIENT_DIRTY_CAS \<in> flags (clients s2 c)" using e(2) T c w1 by (simp add: ext_ok_def)
    have "key_view i key s1 = key_view i key s \<or> expired_at i key s \<and> lookupKey i key s1 = None \<or>
      CLIENT_DIRTY_CAS \<in> flags (clients s1 c)" using e(1) T c w by (simp add: ext_ok_def)
    then consider (same) "key_view i key s1 = key_view i key s"
      | (exp) "expired_at i key s" "lookupKey i key s1 = None" | (dirty) "CLIENT_DIRTY_CAS \<in> flags (clients s1 c)"
      by metis
    then show ?thesis
    proof cases
      case same
      then have "expired_at i key s1 = expired_at i key s"
        using e(1) by (auto simp: ext_ok_def expired_at_def split: option.splits)
      then show ?thesis using t2 same by auto
    next
      case exp
      then have "db_expires (dbs s1 i) key = None" using inv by (auto simp: db_inv_def)
      then have "\<not> expired_at i key s1" by (simp add: expired_at_def)
      then show ?thesis using t2 exp by auto
    next
      case dirty
      then show ?thesis using keep by blast
    qed
  qed
  moreover have "watched_keys (clients s2 c) = watched_keys (clients s c) \<and> mstate (clients s2 c) = mstate (clients s c) \<and>
    flags (clients s c) \<subseteq> flags (clients s2 c) \<and> flags (clients s2 c) \<subseteq> insert CLIENT_DIRTY_CAS (flags (clients s c))"
    if "c \<noteq> c0" for c
  proof -
    have "watched_keys (clients s1 c) = watched_keys (clients s c)" "mstate (clients s1 c) = mstate (clients s c)"
      "flags (clients s c) \<subseteq> flags (clients s1 c)" "flags (clients s1 c) \<subseteq> insert CLIENT_DIRTY_CAS (flags (clients s c))"
      using e(1) that by (simp_all add: ext_ok_def)
    moreover have "watched_keys (clients s2 c) = watched_keys (clients s1 c)" "mstate (clients s2 c) = mstate (clients s1 c)"
      "flags (clients s1 c) \<subseteq> flags (clients s2 c)" "flags (clients s2 c) \<subseteq> insert CLIENT_DIRTY_CAS (flags (clients s1 c))"
      using e(2) that by (simp_all add: ext_ok_def)
    ultimately show ?thesis by auto
  qed
  ultimately show ?thesis using e by (simp add: ext_ok_def)
qed

lemma good_trans: "good T C c0 s s1 \<Longrightarrow> good T D c0 s1 s2 \<Longrightarrow> good T D c0 s s2"
  using ext_ok_trans [of T c0 s s1 s2] by (auto simp: good_def server_inv_def)

lemma good_refl: "server_inv C s \<Longrightarrow> good T C c0 s s"
  by (auto simp: good_def ext_ok_def)

lemma good_inv: "good T C c0 s s' \<Longrightarrow> server_inv C s'"
  by (simp add: good_def)

lemma good_weaken: "good True C c0 s s' \<Longrightarrow> good T C c0 s s'"
  by (auto simp: good_def ext_ok_def)

lemma step_ok_good:
  assumes "server_inv C s" "step_ok {} s s'"
  shows "good T C c0 s s'"
proof -
  have f: "same_frame s s'" using assms(2) by (simp add: step_ok_def)
  have "server_inv C s'" using assms watch_inv_frame [OF f] by (simp add: server_inv_def step_ok_def same_frame_def)
  moreover have "tracked i key s s'" for i key using assms(2) by (simp add: step_ok_def)
  then have "key_view i key s' = key_view i key s \<or> expired_at i key s \<and> lookupKey i key s' = None \<or>
      CLIENT_DIRTY_CAS \<in> flags (clients s' c)" if "(i, key) \<in> set (watched_keys (clients s c))" for c i key
    using assms(1) that unfolding tracked_def server_inv_def watch_inv_def by metis
  ultimately show ?thesis using f by (simp add: good_def ext_ok_def same_frame_def)
qed

lemma step_ok_good_un:
  assumes "server_inv C s" "step_ok UNIV s s'"
  shows "good False C c0 s s'"
proof -
  have f: "same_frame s s'" using assms(2) by (simp add: step_ok_def)
  have "server_inv C s'" using assms watch_inv_frame [OF f] by (simp add: server_inv_def step_ok_def same_frame_def)
  then show ?thesis using f by (simp add: good_def ext_ok_def same_frame_def)
qed

text \<open>Changes to the acting client's own record.\<close>

lemma good_client:
  assumes "server_inv C s" "watched_keys (f (clients s c0)) = watched_keys (clients s c0)"
    "c0 \<in> D \<or> queue_ok (mstate (f (clients s c0)))" "C \<subseteq> insert c0 D"
  shows "good T D c0 s (upd_client c0 f s)"
  using assms by (auto simp: good_def server_inv_def ext_ok_def db_inv_def watch_inv_def watchers_def upd_client_def)

lemma good_reply: "server_inv C s \<Longrightarrow> good T C c0 s (addReply c0 r s)"
  unfolding addReply_def by (rule good_client [where C = C and D = C]) (auto simp: server_inv_def)

lemma good_flags: "server_inv C s \<Longrightarrow> good T C c0 s (upd_client c0 (\<lambda>cl. cl\<lparr>flags := x cl\<rparr>) s)"
  by (rule good_client [where C = C and D = C]) (auto simp: server_inv_def)

lemma good_global:
  assumes "server_inv C s" "dbs s' = dbs s" "clients s' = clients s" "dbnum s' = dbnum s"
    "client_list s' = client_list s" "now s' = now s" "loading s' = loading s" "lua_caller s' = lua_caller s"
    "lua_time_start s' = lua_time_start s" "masterhost s' = masterhost s"
  shows "good T C c0 s s'"
  using assms by (auto simp: good_def server_inv_def ext_ok_def db_inv_def watch_inv_def watchers_def)

lemma good_propagate: "server_inv C s \<Longrightarrow> good T C c0 s (propagate i av a r s)"
  by (rule good_global) (simp_all add: propagate_def Let_def)

lemma good_dirty: "server_inv C s \<Longrightarrow> good T C c0 s (incr_dirty n s)"
  by (rule good_global) (simp_all add: incr_dirty_def)


section \<open>The transaction commands keep the invariant\<close>

definition same_data :: "server \<Rightarrow> server \<Rightarrow> bool" where
  "same_data s s' \<longleftrightarrow> (\<forall>i. db_dict (dbs s' i) = db_dict (dbs s i) \<and> db_expires (dbs s' i) = db_expires (dbs s i))"

definition unwatch_one :: "nat \<Rightarrow> nat \<Rightarrow> sds \<Rightarrow> nat list \<Rightarrow> server \<Rightarrow> server" where
  "unwatch_one c i key cs s =
     upd_client c (\<lambda>cl. cl\<lparr>watched_keys := remove1 (i, key) (watched_keys cl)\<rparr>)
       (upd_db i (\<lambda>d. d\<lparr>db_watched :=
          (db_watched d)(key := if remove1 c cs = [] then None else Some (remove1 c cs))\<rparr>) s)"

lemma unwatch_one_good:
  assumes inv: "server_inv C s" and w: "watched_keys (clients s c) = (i, key) # wks"
  obtains cs where "db_watched (dbs s i) key = Some cs" "c \<in> set cs" "good T C c s (unwatch_one c i key cs s)"
    "clients (unwatch_one c i key cs s) c = (clients s c)\<lparr>watched_keys := wks\<rparr>" "same_data s (unwatch_one c i key cs s)"
proof -
  have wi: "watch_inv s" using inv by (simp add: server_inv_def)
  have "c \<in> watchers i key s" using wi w by (simp add: watch_inv_def)
  then obtain cs where cs: "db_watched (dbs s i) key = Some cs" "c \<in> set cs"
    by (auto simp: watchers_def split: option.splits)
  have d: "distinct cs" using wi cs by (auto simp: watch_inv_def)
  have em: "remove1 c cs = [] \<Longrightarrow> set cs \<subseteq> {c}" using set_remove1_eq [OF d, of c] by auto
  let ?s = "unwatch_one c i key cs s"
  have ws: "watchers j k ?s = (if (j, k) = (i, key) then watchers j k s - {c} else watchers j k s)" for j k
    using cs d em by (auto simp: watchers_def unwatch_one_def upd_client_def upd_db_def split: option.splits)
  have ks: "watched_keys (clients ?s x) = (if x = c then wks else watched_keys (clients s x))" for x
    using w by (simp add: unwatch_one_def upd_client_def upd_db_def)
  have dw: "distinct (watched_keys (clients s x))" for x using wi by (simp add: watch_inv_def)
  then have nin: "(i, key) \<notin> set wks" "distinct wks" using w by (metis distinct.simps(2))+
  have iff: "x \<in> watchers j k s \<longleftrightarrow> (j, k) \<in> set (watched_keys (clients s x))" for x j k
    using wi by (simp add: watch_inv_def)
  have "watch_inv ?s"
    unfolding watch_inv_def
  proof (intro conjI allI impI)
    fix x j k
    show "x \<in> watchers j k ?s \<longleftrightarrow> (j, k) \<in> set (watched_keys (clients ?s x))"
      using nin w by (auto simp: ws ks iff)
  next
    fix x assume "watched_keys (clients ?s x) \<noteq> []"
    then have "watched_keys (clients s x) \<noteq> []" using w by (auto simp: ks split: if_splits)
    then show "x \<in> set (client_list ?s)" using wi by (simp add: watch_inv_def unwatch_one_def upd_client_def upd_db_def)
  next
    fix x show "distinct (watched_keys (clients ?s x))" using nin dw by (simp add: ks)
  next
    fix j k ds assume "db_watched (dbs ?s j) k = Some ds"
    then show "distinct ds" "ds \<noteq> []"
      using wi d by (auto simp: watch_inv_def unwatch_one_def upd_client_def upd_db_def split: if_splits)
  qed
  then have "good T C c s ?s"
    using inv by (auto simp: good_def server_inv_def ext_ok_def db_inv_def unwatch_one_def upd_client_def upd_db_def)
  then show thesis
    using that cs w by (auto simp: unwatch_one_def upd_client_def upd_db_def same_data_def)
qed

lemma unwatch_loop_good:
  assumes "server_inv C s" "watched_keys (clients s c) = wks"
  shows "\<exists>s'. unwatch_loop c wks s = Some s' \<and> good T C c s s' \<and> clients s' c = (clients s c)\<lparr>watched_keys := []\<rparr> \<and>
    same_data s s'"
  using assms
proof (induction wks arbitrary: s)
  case Nil
  then show ?case by (auto simp: good_refl same_data_def)
next
  case (Cons wk wks)
  obtain i key where wk: "wk = (i, key)" by (cases wk)
  obtain cs where cs: "db_watched (dbs s i) key = Some cs" "c \<in> set cs" "good T C c s (unwatch_one c i key cs s)"
    "clients (unwatch_one c i key cs s) c = (clients s c)\<lparr>watched_keys := wks\<rparr>" "same_data s (unwatch_one c i key cs s)"
    using unwatch_one_good [OF Cons.prems(1) Cons.prems(2) [unfolded wk]] by blast
  obtain s' where "unwatch_loop c wks (unwatch_one c i key cs s) = Some s'"
    "good T C c (unwatch_one c i key cs s) s'"
    "clients s' c = (clients (unwatch_one c i key cs s) c)\<lparr>watched_keys := []\<rparr>" "same_data (unwatch_one c i key cs s) s'"
    using Cons.IH [OF good_inv [OF cs(3)]] cs(4) by auto
  then show ?case
    using cs good_trans [OF cs(3)] by (auto simp: wk Let_def unwatch_one_def [symmetric] same_data_def)
qed

lemma unwatchAllKeys_good:
  assumes "server_inv C s"
  shows "\<exists>s'. unwatchAllKeys c s = Some s' \<and> good T C c s s' \<and> clients s' c = (clients s c)\<lparr>watched_keys := []\<rparr> \<and>
    same_data s s'"
  using unwatch_loop_good [OF assms refl] by (simp add: unwatchAllKeys_def)

lemma queue_ok_init: "queue_ok initClientMultiState"
  by (simp add: queue_ok_def initClientMultiState_def)

lemma discardTransaction_good:
  assumes "server_inv C s" "C \<subseteq> {c}"
  shows "\<exists>s'. discardTransaction c s = Some s' \<and> good T {} c s s' \<and> same_data s s' \<and>
    flags (clients s' c) = flags (clients s c) - {CLIENT_MULTI, CLIENT_DIRTY_CAS, CLIENT_DIRTY_EXEC} \<and>
    reply (clients s' c) = reply (clients s c)"
proof -
  let ?s = "upd_client c (\<lambda>cl. cl\<lparr>mstate := initClientMultiState,
       flags := flags cl - {CLIENT_MULTI, CLIENT_DIRTY_CAS, CLIENT_DIRTY_EXEC}\<rparr>) s"
  have g: "good T {} c s ?s" using assms by (intro good_client) (auto simp: queue_ok_init)
  obtain s' where "unwatchAllKeys c ?s = Some s'" "good T {} c ?s s'"
    "clients s' c = (clients ?s c)\<lparr>watched_keys := []\<rparr>" "same_data ?s s'"
    using unwatchAllKeys_good [OF good_inv [OF g]] by blast
  then show ?thesis using good_trans [OF g, of "{}" s']
    by (auto simp: discardTransaction_def upd_client_def same_data_def)
qed

lemma watchForKey_good:
  assumes inv: "server_inv C s" and cl: "c \<in> set (client_list s)"
  shows "good T C c s (watchForKey c key s)"
proof (cases "(cdb c s, key) \<in> set (watched_keys (clients s c))")
  case True
  then show ?thesis using inv by (simp add: watchForKey_def Let_def good_refl)
next
  case False
  let ?s = "watchForKey c key s"
  let ?i = "cdb c s"
  let ?cs = "case db_watched (dbs s ?i) key of None \<Rightarrow> [] | Some cs \<Rightarrow> cs"
  have wi: "watch_inv s" using inv by (simp add: server_inv_def)
  have iff: "x \<in> watchers j k s \<longleftrightarrow> (j, k) \<in> set (watched_keys (clients s x))" for x j k
    using wi by (simp add: watch_inv_def)
  have st: "?s = upd_client c (\<lambda>cl. cl\<lparr>watched_keys := watched_keys cl @ [(?i, key)]\<rparr>)
      (upd_db ?i (\<lambda>d. d\<lparr>db_watched := (db_watched d)(key \<mapsto> ?cs @ [c])\<rparr>) s)"
    using False by (simp add: watchForKey_def Let_def)
  have cs: "set ?cs = watchers ?i key s" "distinct ?cs"
    using wi by (auto simp: watchers_def watch_inv_def split: option.splits)
  have ws: "watchers j k ?s = (if (j, k) = (?i, key) then insert c (watchers j k s) else watchers j k s)" for j k
    using cs(1) unfolding st by (auto simp: watchers_def upd_client_def upd_db_def split: option.splits)
  have ks: "watched_keys (clients ?s x) = (if x = c then watched_keys (clients s x) @ [(?i, key)] else watched_keys (clients s x))" for x
    unfolding st by (simp add: upd_client_def upd_db_def)
  have "watch_inv ?s"
    unfolding watch_inv_def
  proof (intro conjI allI impI)
    fix x j k
    show "x \<in> watchers j k ?s \<longleftrightarrow> (j, k) \<in> set (watched_keys (clients ?s x))" by (auto simp: ws ks iff)
  next
    fix x assume "watched_keys (clients ?s x) \<noteq> []"
    then have "x = c \<or> watched_keys (clients s x) \<noteq> []" by (auto simp: ks split: if_splits)
    then show "x \<in> set (client_list ?s)" using wi cl by (auto simp: watch_inv_def st upd_client_def upd_db_def)
  next
    fix x show "distinct (watched_keys (clients ?s x))" using wi False by (simp add: ks watch_inv_def)
  next
    fix j k ds assume ds: "db_watched (dbs ?s j) k = Some ds"
    show "distinct ds" "ds \<noteq> []"
      using ds wi cs False iff [of c ?i key]
      by (auto simp: watch_inv_def st upd_client_def upd_db_def split: if_splits)
  qed
  then show ?thesis
    using inv unfolding st
    by (auto simp: good_def server_inv_def ext_ok_def db_inv_def upd_client_def upd_db_def)
qed

lemma watch_fold_good:
  "server_inv C s \<Longrightarrow> c \<in> set (client_list s) \<Longrightarrow> good T C c s (fold (watchForKey c) keys s)"
proof (induction keys arbitrary: s)
  case (Cons key keys)
  have g: "good T C c s (watchForKey c key s)" by (rule watchForKey_good [OF Cons.prems])
  moreover have "c \<in> set (client_list (watchForKey c key s))"
    using Cons.prems(2) by (simp add: watchForKey_def Let_def upd_client_def upd_db_def)
  ultimately show ?case using Cons.IH [OF good_inv [OF g]] good_trans [OF g] by simp
qed (simp add: good_refl)


lemma call_with_good:
  assumes inv: "server_inv C s"
    and run: "\<And>s1. server_inv C s1 \<Longrightarrow> cmd (clients s1 c) = cmd (clients s c) \<Longrightarrow> argv (clients s1 c) = argv (clients s c) \<Longrightarrow>
      watched_keys (clients s1 c) = watched_keys (clients s c) \<Longrightarrow> mstate (clients s1 c) = mstate (clients s c) \<Longrightarrow>
      client_list s1 = client_list s \<Longrightarrow>
      \<exists>s'. run (proc_of (cmd (clients s1 c))) c s1 = Some s' \<and> good T D c s1 s' \<and> P (mstate (clients s' c))"
  shows "\<exists>s'. call_with run full c s = Some s' \<and> good T D c s s' \<and> P (mstate (clients s' c))"
proof -
  let ?s1 = "upd_client c (\<lambda>cl. cl\<lparr>flags := flags cl - prop_flags\<rparr>) s"
  have g1: "good T C c s ?s1" by (rule good_flags [OF inv])
  obtain s2 where s2: "run (proc_of (cmd (clients ?s1 c))) c ?s1 = Some s2" "good T D c ?s1 s2" "P (mstate (clients s2 c))"
    using run [OF good_inv [OF g1]] by (auto simp: upd_client_def)
  let ?p = "\<lambda>a r. if full then propagate (cdb c s2) (argv (clients s2 c)) a r s2 else s2"
  let ?f = "\<lambda>x a r. upd_client c (\<lambda>cl. cl\<lparr>flags := x cl\<rparr>) (?p a r)"
  have i2: "server_inv D s2" using s2(2) by (rule good_inv)
  have g3: "good T D c s2 (?p a r)" for a r using good_propagate [OF i2] good_refl [OF i2] by simp
  have "good T D c s2 (?f x a r)" for x a r
    by (rule good_trans [OF g3 good_flags [OF good_inv [OF g3]]])
  then have "good T D c s (?f x a r)" for x a r
    using good_trans [OF good_trans [OF g1 s2(2)]] by blast
  moreover have "P (mstate (clients (?f x a r) c))" for x a r using s2(3) by (simp add: upd_client_def)
  ultimately show ?thesis using s2(1) by (simp add: call_with_def Let_def)
qed

lemma unwatch_good:
  assumes "server_inv C s"
  shows "\<exists>s'. unwatchCommand c s = Some s' \<and> good T C c s s' \<and> mstate (clients s' c) = mstate (clients s c)"
proof -
  obtain s1 where s1: "unwatchAllKeys c s = Some s1" "good T C c s s1" "clients s1 c = (clients s c)\<lparr>watched_keys := []\<rparr>"
    using unwatchAllKeys_good [OF assms] by blast
  let ?s2 = "upd_client c (\<lambda>cl. cl\<lparr>flags := flags cl - {CLIENT_DIRTY_CAS}\<rparr>) s1"
  have g2: "good T C c s1 ?s2"
    by (rule good_flags [OF good_inv [OF s1(2)]])
  show ?thesis using s1 good_trans [OF good_trans [OF s1(2) g2] good_reply [OF good_inv [OF g2]]]
    by (auto simp: unwatchCommand_def addReply_def upd_client_def)
qed

text \<open>A command that may stand in a queue.\<close>

lemma queued_proc_good:
  assumes inv: "server_inv C s" and run: "runnable (cmd (clients s c)) (argv (clients s c))"
    and p: "proc_of (cmd (clients s c)) \<notin> {P_exec, P_discard, P_multi, P_watch}"
  shows "\<exists>s'. base_proc (proc_of (cmd (clients s c))) c s = Some s' \<and>
    good (proc_of (cmd (clients s c)) \<notin> unsignalled) C c s s' \<and> mstate (clients s' c) = mstate (clients s c)"
proof (cases "proc_of (cmd (clients s c)) = P_unwatch")
  case True
  then show ?thesis using unwatch_good [OF inv, of c] by (simp add: unsignalled_def)
next
  case False
  then have "proc_of (cmd (clients s c)) \<notin> tx_procs" using p by (simp add: tx_procs_def)
  then obtain s' where s': "base_proc (proc_of (cmd (clients s c))) c s = Some s'"
    "if proc_of (cmd (clients s c)) \<in> unsignalled then step_ok UNIV s s' else step_ok {} s s'"
    using base_proc_ok [OF _ _ run refl] inv by (auto simp: server_inv_def)
  then have "mstate (clients s' c) = mstate (clients s c)"
    by (auto simp: step_ok_def same_frame_def split: if_splits)
  with s' show ?thesis using step_ok_good [OF inv] step_ok_good_un [OF inv] by (auto split: if_splits)
qed

definition clean_queue :: "multiState \<Rightarrow> bool" where
  "clean_queue m \<longleftrightarrow> (\<forall>mc \<in> set (commands m). proc_of (mc_cmd mc) \<notin> unsignalled)"

lemma exec_loop_good:
  assumes "server_inv {c} s" "\<forall>j \<in> set js. j < length (commands (mstate (clients s c))) \<and>
      (let mc = commands (mstate (clients s c)) ! j in runnable (mc_cmd mc) (mc_argv mc) \<and>
        proc_of (mc_cmd mc) \<notin> {P_exec, P_discard, P_multi, P_watch} \<and> (T \<longrightarrow> proc_of (mc_cmd mc) \<notin> unsignalled))"
    "distinct js"
  shows "\<exists>s' must'. exec_loop c js must s = Some (s', must') \<and> good T {c} c s s'"
  using assms
proof (induction js arbitrary: s must)
  case Nil
  then show ?case by (auto simp: good_refl)
next
  case (Cons j js)
  define mc where "mc = commands (mstate (clients s c)) ! j"
  have mc: "runnable (mc_cmd mc) (mc_argv mc)" "proc_of (mc_cmd mc) \<notin> {P_exec, P_discard, P_multi, P_watch}"
    "T \<longrightarrow> proc_of (mc_cmd mc) \<notin> unsignalled"
    using Cons.prems(2) by (auto simp: Let_def mc_def)
  let ?s1 = "upd_client c (\<lambda>cl. cl\<lparr>argv := mc_argv mc, cmd := mc_cmd mc\<rparr>) s"
  define first where "first = (\<not> must \<and> cflags (mc_cmd mc) \<inter> {CMD_READONLY, CMD_ADMIN} = {})"
  define s2 where "s2 = (if first then propagate (cdb c ?s1) [str_bytes ''MULTI''] True True ?s1 else ?s1)"
  have g1: "good T {c} c s ?s1" using Cons.prems(1) by (intro good_client) auto
  have g2: "good T {c} c s s2"
    using good_trans [OF g1 good_propagate [OF good_inv [OF g1]]] g1 by (simp add: s2_def)
  have cl2: "clients s2 = clients ?s1" by (simp add: s2_def)
  have m2: "cmd (clients s2 c) = mc_cmd mc" "argv (clients s2 c) = mc_argv mc"
    "mstate (clients s2 c) = mstate (clients s c)" unfolding cl2 by (simp_all add: upd_client_def)
  obtain s3 where s3: "call_with base_proc (\<not> loading s2) c s2 = Some s3" "good T {c} c s2 s3"
    "mstate (clients s3 c) = mstate (clients s c)"
  proof -
    have "\<exists>s'. call_with base_proc (\<not> loading s2) c s2 = Some s' \<and> good T {c} c s2 s' \<and>
      (\<lambda>m. m = mstate (clients s c)) (mstate (clients s' c))"
    proof (rule call_with_good [OF good_inv [OF g2]])
      fix s1 assume "server_inv {c} s1" "cmd (clients s1 c) = cmd (clients s2 c)" "argv (clients s1 c) = argv (clients s2 c)"
        "mstate (clients s1 c) = mstate (clients s2 c)"
      then show "\<exists>s'. base_proc (proc_of (cmd (clients s1 c))) c s1 = Some s' \<and> good T {c} c s1 s' \<and>
        mstate (clients s' c) = mstate (clients s c)"
        using queued_proc_good [of "{c}" s1 c] mc m2 good_weaken [of "{c}" c s1] by (cases T) (auto simp: good_def ext_ok_def)
    qed
    then show thesis using that by auto
  qed
  let ?s4 = "upd_client c (\<lambda>cl. cl\<lparr>mstate := (mstate cl)\<lparr>commands :=
             (commands (mstate cl))[j := \<lparr>mc_cmd = cmd cl, mc_argv = argv cl\<rparr>]\<rparr>\<rparr>) s3"
  have g4: "good T {c} c s3 ?s4" using good_inv [OF s3(2)] by (intro good_client) auto
  have c4: "commands (mstate (clients ?s4 c)) =
      (commands (mstate (clients s c)))[j := \<lparr>mc_cmd = cmd (clients s3 c), mc_argv = argv (clients s3 c)\<rparr>]"
    using s3(3) by (simp add: upd_client_def)
  have "\<exists>s' must'. exec_loop c js (must \<or> first) ?s4 = Some (s', must') \<and> good T {c} c ?s4 s'"
  proof (rule Cons.IH [OF good_inv [OF g4]])
    show "\<forall>j' \<in> set js. j' < length (commands (mstate (clients ?s4 c))) \<and>
      (let mc = commands (mstate (clients ?s4 c)) ! j' in runnable (mc_cmd mc) (mc_argv mc) \<and>
        proc_of (mc_cmd mc) \<notin> {P_exec, P_discard, P_multi, P_watch} \<and> (T \<longrightarrow> proc_of (mc_cmd mc) \<notin> unsignalled))"
    proof
      fix j' assume j': "j' \<in> set js"
      then have "j \<noteq> j'" using Cons.prems(3) by auto
      with j' Cons.prems(2) show "j' < length (commands (mstate (clients ?s4 c))) \<and>
        (let mc = commands (mstate (clients ?s4 c)) ! j' in runnable (mc_cmd mc) (mc_argv mc) \<and>
        proc_of (mc_cmd mc) \<notin> {P_exec, P_discard, P_multi, P_watch} \<and> (T \<longrightarrow> proc_of (mc_cmd mc) \<notin> unsignalled))"
        unfolding c4 by simp
    qed
    show "distinct js" using Cons.prems(3) by simp
  qed
  then obtain s' must' where "exec_loop c js (must \<or> first) ?s4 = Some (s', must')" "good T {c} c ?s4 s'" by blast
  moreover have "good T {c} c s ?s4" by (rule good_trans [OF good_trans [OF g2 s3(2)] g4])
  moreover have "exec_loop c (j # js) must s = exec_loop c js (must \<or> first) ?s4"
    by (simp only: exec_loop.simps Let_def mc_def [symmetric] first_def [symmetric] s2_def [symmetric] s3(1)
        Option.bind.bind_lunit)
  ultimately show ?case using good_trans [of T "{c}" c s ?s4 "{c}" s'] by auto
qed


lemma exec_good:
  assumes inv: "server_inv {} s"
  shows "\<exists>s'. execCommand c s = Some s' \<and> good (clean_queue (mstate (clients s c))) {} c s s'"
proof -
  let ?T = "clean_queue (mstate (clients s c))"
  let ?cmds = "commands (mstate (clients s c))"
  have disc: "\<exists>s'. discardTransaction c s1 = Some s' \<and> good T {} c s s'" if "good T C c s s1" "C \<subseteq> {c}" for s1 C T
    using discardTransaction_good [OF good_inv [OF that(1)] that(2), of T] good_trans [OF that(1)] by blast
  have q: "queue_ok (mstate (clients s c))" using inv by (simp add: server_inv_def)
  consider (nomulti) "CLIENT_MULTI \<notin> flags (clients s c)"
    | (dirty) "CLIENT_MULTI \<in> flags (clients s c)" "flags (clients s c) \<inter> {CLIENT_DIRTY_CAS, CLIENT_DIRTY_EXEC} \<noteq> {}"
    | (ro) "CLIENT_MULTI \<in> flags (clients s c)" "\<not> flags (clients s c) \<inter> {CLIENT_DIRTY_CAS, CLIENT_DIRTY_EXEC} \<noteq> {}"
        "\<not> loading s \<and> masterhost s \<and> repl_slave_ro s \<and> CLIENT_MASTER \<notin> flags (clients s c) \<and>
         CMD_WRITE \<in> cmd_flags (mstate (clients s c))"
    | (run) "CLIENT_MULTI \<in> flags (clients s c)" "\<not> flags (clients s c) \<inter> {CLIENT_DIRTY_CAS, CLIENT_DIRTY_EXEC} \<noteq> {}"
        "\<not> (\<not> loading s \<and> masterhost s \<and> repl_slave_ro s \<and> CLIENT_MASTER \<notin> flags (clients s c) \<and>
         CMD_WRITE \<in> cmd_flags (mstate (clients s c)))"
    by blast
  then show ?thesis
  proof cases
    case nomulti
    then show ?thesis using good_reply [OF inv] by (simp add: execCommand_def)
  next
    case dirty
    then show ?thesis using disc [OF good_reply [OF inv]] by (simp add: execCommand_def Let_def)
  next
    case ro
    then show ?thesis using disc [OF good_reply [OF inv]] unfolding execCommand_def Let_def by (simp only: if_not_P if_P) simp
  next
    case run
    obtain s1 where s1: "unwatchAllKeys c s = Some s1" "good ?T {} c s s1" "clients s1 c = (clients s c)\<lparr>watched_keys := []\<rparr>"
      using unwatchAllKeys_good [OF inv] by blast
    let ?s2 = "addReply c (R_multibulklen (length ?cmds)) s1"
    have g2: "good ?T {} c s ?s2" by (rule good_trans [OF s1(2) good_reply [OF good_inv [OF s1(2)]]])
    have m2: "mstate (clients ?s2 c) = mstate (clients s c)" using s1(3) by (simp add: addReply_def upd_client_def)
    have i2: "server_inv {c} ?s2" using good_inv [OF g2] by (auto simp: server_inv_def)
    have "\<forall>j \<in> set [0..<length ?cmds]. j < length (commands (mstate (clients ?s2 c))) \<and>
      (let mc = commands (mstate (clients ?s2 c)) ! j in runnable (mc_cmd mc) (mc_argv mc) \<and>
        proc_of (mc_cmd mc) \<notin> {P_exec, P_discard, P_multi, P_watch} \<and> (?T \<longrightarrow> proc_of (mc_cmd mc) \<notin> unsignalled))"
      using q by (simp add: m2 queue_ok_def clean_queue_def Let_def)
    then obtain s3 must where s3: "exec_loop c [0..<length ?cmds] False ?s2 = Some (s3, must)" "good ?T {c} c ?s2 s3"
      using exec_loop_good [OF i2 _ distinct_upt] by blast
    let ?s4 = "upd_client c (\<lambda>x. x\<lparr>argv := argv (clients s c), cmd := cmd (clients s c)\<rparr>) s3"
    have g4: "good ?T {c} c s ?s4"
      using good_trans [OF good_trans [OF g2 s3(2)] good_client [OF good_inv [OF s3(2)], where D = "{c}"]] by simp
    obtain s5 where s5: "discardTransaction c ?s4 = Some s5" "good ?T {} c s s5" using disc [OF g4] by blast
    have "good ?T {} c s (if must then incr_dirty 1 s5 else s5)"
      using s5(2) good_trans [OF s5(2) good_dirty [OF good_inv [OF s5(2)]]] by simp
    moreover have "execCommand c s = Some (if must then incr_dirty 1 s5 else s5)"
      unfolding execCommand_def Let_def using run s1(1) s3(1) s5(1) by (simp only: if_not_P if_P) simp
    ultimately show ?thesis by blast
  qed
qed

lemma run_proc_good:
  assumes inv: "server_inv {} s" and cl: "c \<in> set (client_list s)"
    and run: "runnable (cmd (clients s c)) (argv (clients s c))"
  shows "\<exists>s'. run_proc (proc_of (cmd (clients s c))) c s = Some s' \<and>
    good (proc_of (cmd (clients s c)) \<notin> unsignalled \<and> clean_queue (mstate (clients s c))) {} c s s'"
proof -
  let ?p = "proc_of (cmd (clients s c))"
  consider "?p = P_exec" | "?p = P_multi" | "?p = P_discard" | "?p = P_watch"
    | "?p \<notin> {P_exec, P_discard, P_multi, P_watch}" by blast
  then show ?thesis
  proof cases
    case 1
    then show ?thesis using exec_good [OF inv, of c] by (simp add: run_proc_def unsignalled_def)
  next
    case 2
    then show ?thesis
      using good_reply [OF inv] good_trans [OF good_flags [OF inv] good_reply [OF good_inv [OF good_flags [OF inv]]]]
      by (simp add: run_proc_def multiCommand_def)
  next
    case 3
    let ?T = "?p \<notin> unsignalled \<and> clean_queue (mstate (clients s c))"
    obtain s1 where s1: "discardTransaction c s = Some s1" "good ?T {} c s s1"
      using discardTransaction_good [OF inv empty_subsetI] by blast
    have "good ?T {} c s (addReply c R_ok s1)" by (rule good_trans [OF s1(2) good_reply [OF good_inv [OF s1(2)]]])
    then show ?thesis
      using 3 s1(1) good_reply [OF inv] by (simp add: run_proc_def discardCommand_def)
  next
    case 4
    then show ?thesis
      using good_reply [OF inv] good_trans [OF watch_fold_good [OF inv cl] good_reply [OF good_inv [OF watch_fold_good [OF inv cl]]]]
      by (simp add: run_proc_def watchCommand_def)
  next
    case 5
    then show ?thesis using queued_proc_good [OF inv run] by (auto simp: run_proc_def good_def ext_ok_def)
  qed
qed

lemma flagTransaction_good: "server_inv C s \<Longrightarrow> good T C c s (flagTransaction c s)"
  by (simp add: flagTransaction_def good_flags good_refl)

lemma reject_good: "server_inv C s \<Longrightarrow> good T C c s (reject c e s)"
  unfolding reject_def by (rule good_trans [OF flagTransaction_good good_reply [OF good_inv [OF flagTransaction_good]]])

lemma refused_good:
  assumes inv: "server_inv {} s" and r: "refused c cm s = Some r"
  shows "\<exists>s'. r = Some s' \<and> good T {} c s s'"
proof -
  obtain s1 where s1: "discardTransaction c s = Some s1" "good T {} c s s1"
    using discardTransaction_good [OF inv empty_subsetI] by blast
  have "good T {} c s (addReply c (R_error E_redirect) s1)"
    by (rule good_trans [OF s1(2) good_reply [OF good_inv [OF s1(2)]]])
  then have red: "\<exists>s'. (if proc_of cm = P_exec then map_option (addReply c (R_error E_redirect)) (discardTransaction c s)
      else Some (reject c E_redirect s)) = Some s' \<and> good T {} c s s'"
    using s1(1) reject_good [OF inv] by simp
  define ok where "ok x \<longleftrightarrow> (\<forall>r. x = Some r \<longrightarrow> (\<exists>s'. r = Some s' \<and> good T {} c s s'))" for x
  have ok_if: "ok x \<Longrightarrow> ok y \<Longrightarrow> ok (if b then x else y)" for x y b by simp
  have ok_some: "\<exists>s'. x = Some s' \<and> good T {} c s s' \<Longrightarrow> ok (Some x)" and ok_none: "ok None" for x
    by (simp_all add: ok_def)
  have "ok (refused c cm s)"
    unfolding refused_def Let_def
    by (intro ok_if ok_none ok_some red) (simp_all add: good_reply [OF inv] reject_good [OF inv])
  then show ?thesis using r by (simp add: ok_def)
qed

lemma lookupCommand_table: "lookupCommand name = Some cm \<Longrightarrow> in_table cm"
proof -
  assume "lookupCommand name = Some cm"
  then obtain e where "List.find (\<lambda>(n, _). map to_lower name = map to_lower (str_bytes n)) redisCommandTable = Some e" "cm = command_of (snd e)"
    by (auto simp: lookupCommand_def)
  moreover then have "e \<in> set redisCommandTable" by (metis find_Some_iff nth_mem)
  ultimately show ?thesis by (auto simp: in_table_def)
qed

lemma refused_runnable:
  assumes "refused c cm s = None" "in_table cm" "proc_of cm = P_setrange \<longrightarrow> setrange_fits (argv (clients s c))"
  shows "runnable cm (argv (clients s c))"
  using assms by (auto simp: runnable_def refused_def Let_def split: if_splits)

text \<open>Requests the model covers: at least the command name, and no oversized \<open>SETRANGE\<close>.\<close>

definition request_ok :: "sds list \<Rightarrow> bool" where
  "request_ok av \<longleftrightarrow> av \<noteq> [] \<and>
     (case lookupCommand (hd av) of None \<Rightarrow> True | Some cm \<Rightarrow> proc_of cm = P_setrange \<longrightarrow> setrange_fits av)"

text \<open>Neither the request nor the client's queue contains a command of \<^const>\<open>unsignalled\<close>.\<close>

definition request_clean :: "nat \<Rightarrow> sds list \<Rightarrow> server \<Rightarrow> bool" where
  "request_clean c av s \<longleftrightarrow> clean_queue (mstate (clients s c)) \<and>
     (case lookupCommand (hd av) of None \<Rightarrow> True | Some cm \<Rightarrow> proc_of cm \<notin> unsignalled)"

lemma process_good:
  assumes inv: "server_inv {} s" and cl: "c \<in> set (client_list s)" and av: "argv (clients s c) = av" "request_ok av"
  shows "\<exists>s' r. processCommand c s = Some (s', r) \<and> good (request_clean c av s) {} c s s'"
proof -
  let ?T = "request_clean c av s"
  have name: "arg c 0 s = Some (hd av)" using av by (simp add: arg_def request_ok_def hd_conv_nth Let_def)
  show ?thesis
  proof (cases "strcaseeq (hd av) ''quit''")
    case True
    then have "processCommand c s = Some (upd_client c
        (\<lambda>cl. cl\<lparr>flags := insert CLIENT_CLOSE_AFTER_REPLY (flags cl)\<rparr>) (addReply c R_ok s), False)"
      using name by (simp add: processCommand_def)
    moreover have "good ?T {} c s (upd_client c
        (\<lambda>cl. cl\<lparr>flags := insert CLIENT_CLOSE_AFTER_REPLY (flags cl)\<rparr>) (addReply c R_ok s))"
      by (rule good_trans [OF good_reply [OF inv] good_flags [OF good_inv [OF good_reply [OF inv]]]])
    ultimately show ?thesis by blast
  next
    case nq: False
    show ?thesis
    proof (cases "lookupCommand (hd av)")
      case None
      then show ?thesis using name nq reject_good [OF inv] by (auto simp: processCommand_def)
    next
      case (Some cm)
      let ?s1 = "upd_client c (\<lambda>cl. cl\<lparr>cmd := cm\<rparr>) s"
      have g1: "good ?T {} c s ?s1"
        using inv by (intro good_client [where C = "{}"]) (auto simp: server_inv_def)
      have c1: "cmd (clients ?s1 c) = cm" "argv (clients ?s1 c) = av" "mstate (clients ?s1 c) = mstate (clients s c)"
        "client_list ?s1 = client_list s" using av by (simp_all add: upd_client_def)
      have pc: "processCommand c s = (case refused c cm ?s1 of
            Some r \<Rightarrow> map_option (\<lambda>s. (s, True)) r
          | None \<Rightarrow>
              if CLIENT_MULTI \<in> flags (clients ?s1 c) \<and> proc_of cm \<notin> {P_exec, P_discard, P_multi, P_watch}
              then Some (addReply c R_queued (queueMultiCommand c ?s1), True)
              else map_option (\<lambda>s. (s, True)) (call_full c ?s1))"
        using name nq Some by (simp add: processCommand_def Let_def)
      show ?thesis
      proof (cases "refused c cm ?s1")
        case (Some r)
        then show ?thesis
          using refused_good [OF good_inv [OF g1] Some, of ?T] good_trans [OF g1] pc by auto
      next
        case ref: None
        have fits: "proc_of cm = P_setrange \<longrightarrow> setrange_fits (argv (clients ?s1 c))"
          using av(2) Some c1 by (simp add: request_ok_def)
        have run: "runnable cm (argv (clients ?s1 c))"
          by (rule refused_runnable [OF ref lookupCommand_table [OF Some] fits])
        have T: "?T \<longleftrightarrow> clean_queue (mstate (clients s c)) \<and> proc_of cm \<notin> unsignalled"
          using Some by (simp add: request_clean_def)
        show ?thesis
        proof (cases "CLIENT_MULTI \<in> flags (clients ?s1 c) \<and> proc_of cm \<notin> {P_exec, P_discard, P_multi, P_watch}")
          case True
          have q: "queue_ok (mstate (clients ?s1 c))" using good_inv [OF g1] by (simp add: server_inv_def)
          have g2: "good ?T {} c ?s1 (queueMultiCommand c ?s1)"
            unfolding queueMultiCommand_def using good_inv [OF g1] q run c1 True
            by (intro good_client [where C = "{}"]) (auto simp: queue_ok_def)
          show ?thesis
            using ref True pc good_trans [OF good_trans [OF g1 g2] good_reply [OF good_inv [OF g2]]] by auto
        next
          case False
          have "\<exists>s'. call_full c ?s1 = Some s' \<and> good ?T {} c ?s1 s' \<and> (\<lambda>_. True) (mstate (clients s' c))"
          proof (rule call_with_good [OF good_inv [OF g1]])
            fix s2 assume s2: "server_inv {} s2" "cmd (clients s2 c) = cmd (clients ?s1 c)"
              "argv (clients s2 c) = argv (clients ?s1 c)" "mstate (clients s2 c) = mstate (clients ?s1 c)"
              "client_list s2 = client_list ?s1"
            then show "\<exists>s'. run_proc (proc_of (cmd (clients s2 c))) c s2 = Some s' \<and> good ?T {} c s2 s' \<and> True"
              using run_proc_good [OF s2(1), of c] cl run c1 by (simp add: T conj_commute)
          qed
          then obtain s' where s': "call_full c ?s1 = Some s'" "good ?T {} c ?s1 s'" by blast
          then show ?thesis using ref False pc good_trans [OF g1 s'(2)] by auto
        qed
      qed
    qed
  qed
qed

lemma request_good:
  assumes inv: "server_inv {} s" and cl: "c \<in> set (client_list s)" and av: "request_ok av"
  shows "\<exists>s'. request c av s = Some s' \<and> good (request_clean c av s) {} c s s'"
proof -
  let ?T = "request_clean c av s"
  let ?s1 = "upd_client c (\<lambda>cl. cl\<lparr>argv := av\<rparr>) (s\<lparr>current_client := Some c\<rparr>)"
  have g0: "good ?T {} c s (s\<lparr>current_client := Some c\<rparr>)" by (rule good_global [OF inv]) simp_all
  have g1: "good ?T {} c s ?s1"
    using good_inv [OF g0] by (intro good_trans [OF g0] good_client [where C = "{}"]) (auto simp: server_inv_def)
  have c1: "argv (clients ?s1 c) = av" "client_list ?s1 = client_list s" "mstate (clients ?s1 c) = mstate (clients s c)"
    by (simp_all add: upd_client_def)
  have T: "request_clean c av ?s1 = ?T" by (simp only: request_clean_def c1)
  obtain s2 r where "processCommand c ?s1 = Some (s2, r)" "good ?T {} c ?s1 s2"
    using process_good [OF good_inv [OF g1], of c av] cl av unfolding c1 T by blast
  then show ?thesis using good_trans [OF g1] by (auto simp: request_def)
qed

end
