(* ===== verification/Redis_Transactions.thy ===== *)
theory Redis_Transactions
  imports Redis_Multi
begin

text \<open>
  The server as a state machine: requests of clients, the passing of time and the background
  expiry of keys, and what the transactions of \<open>multi.c\<close> promise along its runs.
\<close>

section \<open>Runs of the server\<close>

datatype action = Req nat "sds list" | Tick int | Expire nat sds

text \<open>Background expiry runs on a master, between commands (\<open>databasesCron\<close>).\<close>

inductive act :: "server \<Rightarrow> action \<Rightarrow> server \<Rightarrow> bool" where
  act_req: "c \<in> set (client_list s) \<Longrightarrow> request_ok av \<Longrightarrow> request c av s = Some s' \<Longrightarrow> act s (Req c av) s'"
| act_tick: "now s \<le> t \<Longrightarrow> act s (Tick t) (s\<lparr>now := t\<rparr>)"
| act_expire: "db_expires (dbs s i) key = Some t \<Longrightarrow> \<not> masterhost s \<Longrightarrow> \<not> loading s \<Longrightarrow>
    act s (Expire i key) (fst (activeExpireCycleTryExpire i key t (now s) s))"

inductive_cases act_ReqE: "act s (Req c av) s'"
inductive_cases act_TickE: "act s (Tick t) s'"
inductive_cases act_ExpireE: "act s (Expire i key) s'"

text \<open>Runs whose actions satisfy \<open>P\<close>.\<close>

inductive run :: "(server \<Rightarrow> action \<Rightarrow> bool) \<Rightarrow> server \<Rightarrow> server \<Rightarrow> bool" for P where
  run_refl: "run P s s"
| run_step: "run P s s1 \<Longrightarrow> P s1 a \<Longrightarrow> act s1 a s2 \<Longrightarrow> run P s s2"

text \<open>
  Actions along which client \<open>c\<close> stays in its transaction, and actions along which it keeps its watches and every
  change of a key is signalled: the others may send any request without \<open>MOVE\<close>, \<open>PERSIST\<close> and \<open>SWAPDB\<close>, and \<open>c\<close>
  itself any but \<open>EXEC\<close>, \<open>DISCARD\<close> and, outside \<open>MULTI\<close>, \<open>UNWATCH\<close> and these three (inside it they are queued).
\<close>

definition own_proc :: "proc set \<Rightarrow> sds list \<Rightarrow> bool" where
  "own_proc A av \<longleftrightarrow> (case lookupCommand (hd av) of None \<Rightarrow> True | Some cm \<Rightarrow> proc_of cm \<notin> A)"

fun in_tx :: "nat \<Rightarrow> server \<Rightarrow> action \<Rightarrow> bool" where
  "in_tx c s (Req c' av) \<longleftrightarrow> (c' = c \<longrightarrow> own_proc {P_exec, P_discard} av)"
| "in_tx c s _ \<longleftrightarrow> True"

fun watching :: "nat \<Rightarrow> server \<Rightarrow> action \<Rightarrow> bool" where
  "watching c s (Req c' av) \<longleftrightarrow>
     (if c' = c then own_proc {P_exec, P_discard} av \<and>
        (CLIENT_MULTI \<in> flags (clients s c) \<or> own_proc (insert P_unwatch unsignalled) av)
      else request_clean c' av s)"
| "watching c s _ \<longleftrightarrow> True"

definition timed_out :: "nat \<Rightarrow> sds \<Rightarrow> int \<Rightarrow> server \<Rightarrow> bool" where
  "timed_out i key t s \<longleftrightarrow> (case db_expires (dbs s i) key of None \<Rightarrow> False | Some w \<Rightarrow> w < t)"

lemma expired_timed_out: "expired_at i key s \<Longrightarrow> \<not> lua_caller s \<Longrightarrow> timed_out i key (now s) s"
  by (auto simp: expired_at_def timed_out_def split: option.splits)

section \<open>Every action keeps the invariant\<close>

lemma try_expire_eq:
  assumes "t < now s"
  shows "dbs (fst (activeExpireCycleTryExpire i key t (now s) s)) = dbs (set_value i key None (set_expire i key None s))"
    and "clients (fst (activeExpireCycleTryExpire i key t (now s) s)) = clients s"
    and "client_list (fst (activeExpireCycleTryExpire i key t (now s) s)) = client_list s"
    and "now (fst (activeExpireCycleTryExpire i key t (now s) s)) = now s"
    and "lua_caller (fst (activeExpireCycleTryExpire i key t (now s) s)) = lua_caller s"
  using assms
  by (simp_all add: activeExpireCycleTryExpire_def Let_def dbAsyncDelete_eq dbSyncDelete_def propagateExpire_def upd_defs propagate_def)

lemma try_expire_noop: "\<not> t < now s \<Longrightarrow> fst (activeExpireCycleTryExpire i key t (now s) s) = s"
  by (simp add: activeExpireCycleTryExpire_def)

lemma server_inv_cong:
  assumes "server_inv {} s" "clients s' = clients s" "client_list s' = client_list s"
    "\<And>i. db_watched (dbs s' i) = db_watched (dbs s i)" "db_inv s'"
  shows "server_inv {} s'"
  using assms by (simp add: server_inv_def watch_inv_def watchers_def)

lemma try_expire_inv:
  assumes "server_inv {} s"
  shows "server_inv {} (fst (activeExpireCycleTryExpire i key t (now s) s))"
proof (cases "t < now s")
  case True
  show ?thesis
  proof (rule server_inv_cong [OF assms try_expire_eq(2,3) [OF True]])
    show "db_inv (fst (activeExpireCycleTryExpire i key t (now s) s))"
      using assms by (auto simp: db_inv_def server_inv_def try_expire_eq(1) [OF True] upd_defs)
  qed (simp add: try_expire_eq(1) [OF True] upd_defs)
qed (simp add: assms try_expire_noop)

lemma act_inv: "act s a s' \<Longrightarrow> server_inv {} s \<Longrightarrow> server_inv {} s'"
proof (induction rule: act.induct)
  case (act_req c s av s')
  then show ?case using request_good [of s c av] good_inv by fastforce
next
  case (act_tick s t)
  then show ?case by (auto simp: server_inv_def watch_inv_def watchers_def db_inv_def)
next
  case (act_expire s i key t)
  then show ?case by (simp add: try_expire_inv)
qed

lemma run_inv: "run P s s' \<Longrightarrow> server_inv {} s \<Longrightarrow> server_inv {} s'"
  by (induction rule: run.induct) (simp_all add: act_inv)

section \<open>A client along the actions of everybody\<close>

abbreviation tx_flags :: "client_flag set" where
  "tx_flags \<equiv> {CLIENT_MULTI, CLIENT_DIRTY_CAS, CLIENT_DIRTY_EXEC}"

text \<open>What an action may do, as seen by a client \<open>c\<close> that keeps its watches: its transaction flags stay, and (when
  \<open>T\<close>) it is marked if a key that it watches changes other than by expiring.\<close>

definition seen :: "bool \<Rightarrow> nat \<Rightarrow> server \<Rightarrow> server \<Rightarrow> bool" where
  "seen T c s s' \<longleftrightarrow>
     set (watched_keys (clients s c)) \<subseteq> set (watched_keys (clients s' c)) \<and>
     flags (clients s c) \<inter> tx_flags \<subseteq> flags (clients s' c) \<and>
     client_list s' = client_list s \<and> now s \<le> now s' \<and> lua_caller s' = lua_caller s \<and>
     (T \<longrightarrow> (\<forall>(i, key) \<in> set (watched_keys (clients s c)).
        key_view i key s' = key_view i key s \<or> timed_out i key (now s') s \<and> lookupKey i key s' = None \<or>
        CLIENT_DIRTY_CAS \<in> flags (clients s' c)))"

lemma seen_trans:
  assumes t: "seen T c s s1" "seen T c s1 s2" and inv: "db_inv s1"
  shows "seen T c s s2"
proof -
  have "key_view i key s2 = key_view i key s \<or> timed_out i key (now s2) s \<and> lookupKey i key s2 = None \<or>
    CLIENT_DIRTY_CAS \<in> flags (clients s2 c)" if T and w: "(i, key) \<in> set (watched_keys (clients s c))" for i key
  proof -
    have w1: "(i, key) \<in> set (watched_keys (clients s1 c))" using t(1) w by (auto simp: seen_def)
    have fl: "CLIENT_DIRTY_CAS \<in> flags (clients s1 c) \<longrightarrow> CLIENT_DIRTY_CAS \<in> flags (clients s2 c)" and n: "now s1 \<le> now s2"
      using t(2) by (auto simp: seen_def)
    have a: "key_view i key s1 = key_view i key s \<or> timed_out i key (now s1) s \<and> lookupKey i key s1 = None \<or>
      CLIENT_DIRTY_CAS \<in> flags (clients s1 c)" using t(1) w \<open>T\<close> by (auto simp: seen_def)
    have b: "key_view i key s2 = key_view i key s1 \<or> timed_out i key (now s2) s1 \<and> lookupKey i key s2 = None \<or>
      CLIENT_DIRTY_CAS \<in> flags (clients s2 c)" using t(2) w1 \<open>T\<close> by (auto simp: seen_def)
    have gone: "lookupKey i key s1 = None \<Longrightarrow> \<not> timed_out i key m s1" for m
      using inv by (auto simp: db_inv_def timed_out_def split: option.splits)
    have mono: "timed_out i key (now s1) s \<Longrightarrow> timed_out i key (now s2) s"
      using n by (auto simp: timed_out_def split: option.splits)
    show ?thesis using a b fl gone mono by (auto simp: timed_out_def)
  qed
  then show ?thesis using t by (auto simp: seen_def)
qed

lemma seen_weaken: "seen True c s s' \<Longrightarrow> seen T c s s'"
  by (auto simp: seen_def)

text \<open>Steps that change no key.\<close>

lemma seen_same:
  assumes "\<And>i. db_dict (dbs s' i) = db_dict (dbs s i)" "\<And>i. db_expires (dbs s' i) = db_expires (dbs s i)"
    and "set (watched_keys (clients s c)) \<subseteq> set (watched_keys (clients s' c))"
    and "flags (clients s c) \<inter> tx_flags \<subseteq> flags (clients s' c)"
    and "client_list s' = client_list s" "now s \<le> now s'" "lua_caller s' = lua_caller s"
  shows "seen T c s s'"
  using assms by (auto simp: seen_def)

lemma seen_reply: "seen T c s s' \<Longrightarrow> seen T c s (addReply c r s')"
  by (simp add: seen_def upd_defs timed_out_def)

lemma ext_ok_weaken: "ext_ok R c s s' \<Longrightarrow> T \<longrightarrow> R \<Longrightarrow> ext_ok T c s s'"
  by (simp add: ext_ok_def)

lemma seen_ext:
  assumes "ext_ok T c' s s'" and "c' \<noteq> c" and "\<not> lua_caller s"
  shows "seen T c s s'"
  using assms expired_timed_out [of _ _ s] by (fastforce simp: seen_def ext_ok_def)

lemma seen_step:
  assumes "step_ok S s s'" and "T \<longrightarrow> S = {}" and "watch_inv s" and "\<not> lua_caller s"
  shows "seen T c s s'"
proof -
  have f: "same_frame s s'" using assms(1) by (simp add: step_ok_def)
  have "key_view i key s' = key_view i key s \<or> timed_out i key (now s') s \<and> lookupKey i key s' = None \<or>
      CLIENT_DIRTY_CAS \<in> flags (clients s' c)" if T "(i, key) \<in> set (watched_keys (clients s c))" for i key
  proof -
    have "c \<in> watchers i key s" using assms(3) that by (simp add: watch_inv_def)
    moreover have "tracked i key s s'" using assms(1,2) that by (auto simp: step_ok_def)
    ultimately show ?thesis
      using f expired_timed_out [OF _ assms(4), of i key] by (auto simp: tracked_def same_frame_def)
  qed
  then show ?thesis using f by (auto simp: seen_def same_frame_def)
qed

lemma watch_fold_seen: "seen T c s (fold (watchForKey c) keys s)"
proof (rule seen_same)
  fix i
  show "db_dict (dbs (fold (watchForKey c) keys s) i) = db_dict (dbs s i)"
    by (induction keys arbitrary: s) (auto simp: watchForKey_def Let_def upd_defs)
  show "db_expires (dbs (fold (watchForKey c) keys s) i) = db_expires (dbs s i)"
    by (induction keys arbitrary: s) (auto simp: watchForKey_def Let_def upd_defs)
next
  show "set (watched_keys (clients s c)) \<subseteq> set (watched_keys (clients (fold (watchForKey c) keys s) c))"
  proof (induction keys arbitrary: s)
    case (Cons key keys)
    have "set (watched_keys (clients s c)) \<subseteq> set (watched_keys (clients (watchForKey c key s) c))"
      by (auto simp: watchForKey_def Let_def upd_defs)
    then show ?case using Cons [of "watchForKey c key s"] by simp
  qed simp
  have "flags (clients (fold (watchForKey c) keys s) c) = flags (clients s c) \<and>
      client_list (fold (watchForKey c) keys s) = client_list s \<and> now (fold (watchForKey c) keys s) = now s \<and>
      lua_caller (fold (watchForKey c) keys s) = lua_caller s"
    by (induction keys arbitrary: s) (auto simp: watchForKey_def Let_def upd_defs)
  then show "flags (clients s c) \<inter> tx_flags \<subseteq> flags (clients (fold (watchForKey c) keys s) c)"
    "client_list (fold (watchForKey c) keys s) = client_list s" "now s \<le> now (fold (watchForKey c) keys s)"
    "lua_caller (fold (watchForKey c) keys s) = lua_caller s" by auto
qed

text \<open>A command of \<open>c\<close> itself that neither ends the transaction nor gives up the watches.\<close>

lemma own_proc_seen:
  assumes inv: "server_inv {} s" "\<not> lua_caller s" and run: "runnable (cmd (clients s c)) (argv (clients s c))"
    and p: "proc_of (cmd (clients s c)) = p" "p \<notin> {P_exec, P_discard, P_unwatch}" "T \<longrightarrow> p \<notin> unsignalled"
    and res: "run_proc p c s = Some s'"
  shows "seen T c s s'"
proof -
  have own: "seen T c s s" by (rule seen_same) auto
  consider (multi) "p = P_multi" | (watch) "p = P_watch" | (base) "p \<notin> tx_procs" using p(2) by (auto simp: tx_procs_def)
  then show ?thesis
  proof cases
    case multi
    have "seen T c s (upd_client c (\<lambda>cl. cl\<lparr>flags := insert CLIENT_MULTI (flags cl)\<rparr>) s)"
      by (rule seen_same) (auto simp: upd_defs)
    then show ?thesis
      using multi res own by (auto simp: run_proc_def multiCommand_def intro: seen_reply split: if_splits)
  next
    case watch
    then show ?thesis
      using res own by (auto simp: run_proc_def watchCommand_def intro: seen_reply watch_fold_seen split: if_splits)
  next
    case base
    then obtain S where "step_ok S s s'" "T \<longrightarrow> S = {}"
      using base_proc_ok [OF _ _ run p(1) base] inv(1) res p(3)
      by (auto simp: server_inv_def run_proc_def tx_procs_def split: if_splits)
    then show ?thesis using seen_step inv by (auto simp: server_inv_def)
  qed
qed

lemma call_seen:
  assumes inv: "server_inv {} s" "\<not> lua_caller s" and cl: "c \<in> set (client_list s)"
    and run: "runnable (cmd (clients s c)) (argv (clients s c))"
    and p: "proc_of (cmd (clients s c)) \<notin> {P_exec, P_discard, P_unwatch}" "T \<longrightarrow> proc_of (cmd (clients s c)) \<notin> unsignalled"
    and res: "call_full c s = Some s'"
  shows "seen T c s s'"
proof -
  let ?s1 = "upd_client c (\<lambda>cl. cl\<lparr>flags := flags cl - prop_flags\<rparr>) s" and ?p = "proc_of (cmd (clients s c))"
  have g1: "server_inv {} ?s1" using good_inv [OF good_flags [OF inv(1)]] .
  have c1: "cmd (clients ?s1 c) = cmd (clients s c)" "argv (clients ?s1 c) = argv (clients s c)" "client_list ?s1 = client_list s"
    "lua_caller ?s1 = lua_caller s" by (simp_all add: upd_defs)
  obtain s2 where s2: "run_proc ?p c ?s1 = Some s2" "server_inv {} s2"
    using run_proc_good [OF g1, of c] cl run good_inv unfolding c1 by blast
  have "seen T c s ?s1" by (rule seen_same) (auto simp: upd_defs)
  moreover have "seen T c ?s1 s2"
    using own_proc_seen [OF g1, of c ?p T s2] inv(2) run p s2(1) by (simp only: c1) blast
  moreover have "seen T c s2 s'"
    using res s2(1) unfolding call_with_def Let_def c1
    by (intro seen_same) (auto simp: upd_defs propagate_def Let_def split: if_splits)
  ultimately show ?thesis
    using seen_trans [of T c s ?s1 s2] seen_trans [of T c s s2 s'] g1 s2(2) by (simp add: server_inv_def)
qed

lemma reject_seen: "seen T c s (reject c e s)"
proof -
  have "seen T c s (flagTransaction c s)" by (rule seen_same) (auto simp: flagTransaction_def upd_defs)
  then show ?thesis unfolding reject_def by (rule seen_reply)
qed

lemma refused_seen:
  assumes "refused c cm s = Some (Some s')" and "proc_of cm \<noteq> P_exec"
  shows "seen T c s s'"
proof -
  have same: "seen T c s s" by (rule seen_same) auto
  define ok where "ok x \<longleftrightarrow> (\<forall>s'. x = Some (Some s') \<longrightarrow> seen T c s s')" for x
  have ok_if: "ok x \<Longrightarrow> ok y \<Longrightarrow> ok (if b then x else y)" for x y b by simp
  have ok_some: "seen T c s t \<Longrightarrow> ok (Some (Some t))" and ok_none: "ok None" for t by (simp_all add: ok_def)
  have "ok (Some (if proc_of cm = P_exec then map_option (addReply c (R_error E_redirect)) (discardTransaction c s)
      else Some (reject c E_redirect s)))" using assms(2) by (simp add: ok_def reject_seen)
  then have "ok (refused c cm s)"
    unfolding refused_def Let_def by (intro ok_if ok_none ok_some) (simp_all add: reject_seen seen_reply [OF same])
  then show ?thesis using assms(1) by (simp add: ok_def)
qed

lemma processCommand_refused:
  assumes "arg c 0 s = Some name" "\<not> strcaseeq name ''quit''" "lookupCommand name = Some cm"
    "refused c cm (upd_client c (\<lambda>cl. cl\<lparr>cmd := cm\<rparr>) s) = Some r"
  shows "processCommand c s = map_option (\<lambda>s. (s, True)) r"
  by (simp only: processCommand_def assms Let_def option.simps if_False bind.bind_lunit)

lemma own_request_seen:
  assumes inv: "server_inv {} s" "\<not> lua_caller s" and cl: "c \<in> set (client_list s)" and av: "request_ok av"
    and own: "own_proc {P_exec, P_discard} av" "CLIENT_MULTI \<in> flags (clients s c) \<or> own_proc {P_unwatch} av"
    and T: "T \<longrightarrow> CLIENT_MULTI \<in> flags (clients s c) \<or> own_proc unsignalled av"
    and req: "request c av s = Some s'"
  shows "seen T c s s'"
proof -
  let ?s1 = "upd_client c (\<lambda>cl. cl\<lparr>argv := av\<rparr>) (s\<lparr>current_client := Some c\<rparr>)"
  have i1: "server_inv {} ?s1"
    using good_inv [OF good_client [OF good_inv [OF good_global [OF inv(1), of "s\<lparr>current_client := Some c\<rparr>"]], where D = "{}"]] inv(1)
    by (simp add: server_inv_def)
  have name: "arg c 0 ?s1 = Some (hd av)" using av by (simp add: arg_def request_ok_def hd_conv_nth upd_client_def)
  obtain r where pc: "processCommand c ?s1 = Some (s', r)" using req by (auto simp: request_def)
  have s1: "seen T c s ?s1" by (rule seen_same) (auto simp: upd_defs)
  have "seen T c ?s1 s'"
  proof (cases "strcaseeq (hd av) ''quit''")
    case True
    then show ?thesis using pc name by (intro seen_same) (auto simp: processCommand_def upd_defs)
  next
    case nq: False
    show ?thesis
    proof (cases "lookupCommand (hd av)")
      case None
      then show ?thesis using pc name nq reject_seen by (auto simp: processCommand_def)
    next
      case (Some cm)
      let ?s2 = "upd_client c (\<lambda>cl. cl\<lparr>cmd := cm\<rparr>) ?s1"
      have i2: "server_inv {} ?s2"
        using good_inv [OF good_client [OF i1, where D = "{}"]] i1 by (simp add: server_inv_def)
      have p: "proc_of cm \<notin> {P_exec, P_discard}" using own(1) Some by (simp add: own_proc_def)
      have s2: "seen T c ?s1 ?s2" by (rule seen_same) (auto simp: upd_defs)
      have "seen T c ?s2 s'"
      proof (cases "refused c cm ?s2")
        case (Some r')
        then have "r' = Some s'" using processCommand_refused [OF name nq \<open>lookupCommand (hd av) = Some cm\<close>] pc by (cases r') auto
        then show ?thesis using refused_seen [of c cm ?s2 s'] Some p by simp
      next
        case ref: None
        have pc': "(if CLIENT_MULTI \<in> flags (clients ?s2 c) \<and> proc_of cm \<notin> {P_exec, P_discard, P_multi, P_watch}
              then Some (addReply c R_queued (queueMultiCommand c ?s2), True)
              else map_option (\<lambda>s. (s, True)) (call_full c ?s2)) = Some (s', r)"
          using pc name nq Some ref by (simp add: processCommand_def Let_def)
        have m: "CLIENT_MULTI \<in> flags (clients ?s2 c) \<longleftrightarrow> CLIENT_MULTI \<in> flags (clients s c)" by (simp add: upd_defs)
        show ?thesis
        proof (cases "CLIENT_MULTI \<in> flags (clients ?s2 c) \<and> proc_of cm \<notin> {P_exec, P_discard, P_multi, P_watch}")
          case True
          then have "s' = addReply c R_queued (queueMultiCommand c ?s2)" using pc' by simp
          moreover have "seen T c ?s2 (queueMultiCommand c ?s2)" by (rule seen_same) (auto simp: queueMultiCommand_def upd_defs)
          ultimately show ?thesis using seen_reply by simp
        next
          case False
          then have call: "call_full c ?s2 = Some s'" using pc' by (simp only: if_not_P) auto
          have fits: "proc_of cm = P_setrange \<longrightarrow> setrange_fits (argv (clients ?s2 c))"
            using av Some by (simp add: request_ok_def upd_defs)
          have "runnable cm (argv (clients ?s2 c))"
            by (rule refused_runnable [OF ref lookupCommand_table [OF Some] fits])
          moreover have "proc_of cm \<noteq> P_unwatch" "T \<longrightarrow> proc_of cm \<notin> unsignalled"
            using False m own(2) T Some by (auto simp: own_proc_def unsignalled_def)
          moreover have "cmd (clients ?s2 c) = cm" "\<not> lua_caller ?s2" "c \<in> set (client_list ?s2)"
            using inv(2) cl by (simp_all add: upd_defs)
          ultimately show ?thesis using call_seen [OF i2, of c T s'] call p by simp
        qed
      qed
      then show ?thesis using seen_trans [OF s2] i2 by (simp add: server_inv_def)
    qed
  qed
  then show ?thesis using seen_trans [OF s1] i1 by (simp add: server_inv_def)
qed

text \<open>Every action, as seen by \<open>c\<close>.\<close>

lemma act_seen:
  assumes "act s a s'" "server_inv {} s" "\<not> lua_caller s"
    and "T \<and> watching c s a \<or> \<not> T \<and> in_tx c s a \<and> CLIENT_MULTI \<in> flags (clients s c)"
  shows "seen T c s s'"
  using assms(1)
proof (cases rule: act.cases)
  case (act_req c' av)
  show ?thesis
  proof (cases "c' = c")
    case True
    have "own_proc {P_exec, P_discard} av" "CLIENT_MULTI \<in> flags (clients s c) \<or> own_proc {P_unwatch} av"
      "T \<longrightarrow> CLIENT_MULTI \<in> flags (clients s c) \<or> own_proc unsignalled av"
      using assms(4) act_req(1) True by (auto simp: own_proc_def split: option.splits)
    then show ?thesis using own_request_seen [OF assms(2,3)] act_req True by blast
  next
    case False
    have "good (request_clean c' av s) {} c' s s'" using request_good [of s c' av] act_req assms(2) by auto
    moreover have "T \<longrightarrow> request_clean c' av s" using assms(4) False unfolding act_req(1) by (cases T) simp_all
    ultimately have "ext_ok T c' s s'" unfolding good_def by (blast intro: ext_ok_weaken)
    then show ?thesis using seen_ext [OF _ False assms(3)] by simp
  qed
next
  case (act_tick t)
  then show ?thesis by (intro seen_same) auto
next
  case (act_expire i key t)
  show ?thesis
  proof (cases "t < now s")
    case True
    then have "timed_out i key (now s) s" using act_expire by (simp add: timed_out_def)
    then show ?thesis by (auto simp: seen_def act_expire try_expire_eq [OF True] upd_defs split: if_splits)
  next
    case False
    then show ?thesis by (auto simp: seen_def act_expire try_expire_noop)
  qed
qed

lemma run_watching_seen:
  "run (watching c) s s' \<Longrightarrow> server_inv {} s \<Longrightarrow> \<not> lua_caller s \<Longrightarrow> seen True c s s'"
proof (induction rule: run.induct)
  case (run_refl s)
  then show ?case by (auto simp: seen_def)
next
  case (run_step s s1 a s2)
  have inv: "server_inv {} s1" using run_inv run_step by blast
  moreover have "\<not> lua_caller s1" using run_step by (simp add: seen_def)
  ultimately show ?case
    using seen_trans [of True c s s1 s2] act_seen [of s1 a s2 True c] run_step by (simp add: server_inv_def)
qed

lemma run_in_tx_seen:
  "run (in_tx c) s s' \<Longrightarrow> server_inv {} s \<Longrightarrow> \<not> lua_caller s \<Longrightarrow> CLIENT_MULTI \<in> flags (clients s c) \<Longrightarrow> seen False c s s'"
proof (induction rule: run.induct)
  case (run_refl s)
  then show ?case by (auto simp: seen_def)
next
  case (run_step s s1 a s2)
  have inv: "server_inv {} s1" using run_inv run_step by blast
  moreover have "\<not> lua_caller s1" "CLIENT_MULTI \<in> flags (clients s1 c)" using run_step by (auto simp: seen_def)
  ultimately show ?case
    using seen_trans [of False c s s1 s2] act_seen [of s1 a s2 False c] run_step by (simp add: server_inv_def)
qed

section \<open>What transactions promise\<close>

text \<open>C1.  The server never fails: in every state reached by requests of any clients, time passing and
  background expiry, every request (of a connected client, with at least a command name, and, like those before it, without
  a \<open>SETRANGE\<close> whose offset and length add up to \<open>2^63\<close> or more) is processed without a failed assertion, and the invariant holds again:
  only existing keys have an expire, the two sides of the watch relation agree, and every queue holds
  commands that passed the checks.\<close>

theorem request_never_fails:
  assumes "server_inv {} s" "run (\<lambda>_ _. True) s s1" "c \<in> set (client_list s1)" "request_ok av"
  shows "\<exists>s2. request c av s1 = Some s2 \<and> server_inv {} s2"
  using request_good [OF run_inv [OF assms(2,1)] assms(3,4)] good_inv by blast

lemma exec_dirty:
  assumes inv: "server_inv {} s" and fl: "CLIENT_MULTI \<in> flags (clients s c)"
    "flags (clients s c) \<inter> {CLIENT_DIRTY_CAS, CLIENT_DIRTY_EXEC} \<noteq> {}"
  shows "\<exists>s'. execCommand c s = Some s' \<and> same_data s s' \<and> server_inv {} s' \<and>
    reply (clients s' c) = reply (clients s c) @
      [if CLIENT_DIRTY_EXEC \<in> flags (clients s c) then R_error E_execabort else R_nullmultibulk] \<and>
    flags (clients s' c) = flags (clients s c) - {CLIENT_MULTI, CLIENT_DIRTY_CAS, CLIENT_DIRTY_EXEC}"
proof -
  let ?r = "if CLIENT_DIRTY_EXEC \<in> flags (clients s c) then R_error E_execabort else R_nullmultibulk"
  have g: "good True {} c s (addReply c ?r s)" by (rule good_reply [OF inv])
  obtain s' where "discardTransaction c (addReply c ?r s) = Some s'" "good True {} c (addReply c ?r s) s'"
    "same_data (addReply c ?r s) s'" "reply (clients s' c) = reply (clients (addReply c ?r s) c)"
    "flags (clients s' c) = flags (clients (addReply c ?r s) c) - {CLIENT_MULTI, CLIENT_DIRTY_CAS, CLIENT_DIRTY_EXEC}"
    using discardTransaction_good [OF good_inv [OF g] empty_subsetI] by blast
  then show ?thesis
    using fl good_inv by (auto simp: execCommand_def Let_def same_data_def upd_defs)
qed

text \<open>C2.  Optimistic locking: when a key that client \<open>c\<close> watches is changed (value or expire, other than by expiring)
  at any time between its \<open>WATCH\<close> and its \<open>EXEC\<close>, before or after its \<open>MULTI\<close>, by anybody, and even if it is changed
  back before the \<open>EXEC\<close>, then the \<open>EXEC\<close> executes nothing: the data of all databases stays, the reply is the null
  reply or \<open>EXECABORT\<close>, and the client is out of the transaction.  In between, \<open>c\<close> may send any request but \<open>EXEC\<close>,
  \<open>DISCARD\<close> and \<open>UNWATCH\<close>, and nobody executes \<open>MOVE\<close>, \<open>PERSIST\<close> or \<open>SWAPDB\<close>, which do not signal their changes.\<close>

theorem watch_makes_exec_fail:
  assumes "server_inv {} s" "\<not> lua_caller s" "run (watching c) s s1" "run (watching c) s1 s2"
    and "(i, key) \<in> set (watched_keys (clients s c))" "CLIENT_MULTI \<in> flags (clients s2 c)"
    and "key_view i key s1 \<noteq> key_view i key s" "\<not> (timed_out i key (now s1) s \<and> lookupKey i key s1 = None)"
  shows "\<exists>s3. execCommand c s2 = Some s3 \<and> same_data s2 s3 \<and>
    last (reply (clients s3 c)) \<in> {R_nullmultibulk, R_error E_execabort} \<and> CLIENT_MULTI \<notin> flags (clients s3 c)"
proof -
  have inv: "server_inv {} s1" by (rule run_inv [OF assms(3,1)])
  have seen: "seen True c s s1" by (rule run_watching_seen [OF assms(3,1,2)])
  then have "CLIENT_DIRTY_CAS \<in> flags (clients s1 c)" "\<not> lua_caller s1" using assms by (auto simp: seen_def)
  then have "CLIENT_DIRTY_CAS \<in> flags (clients s2 c)"
    using run_watching_seen [OF assms(4) inv] by (auto simp: seen_def)
  then show ?thesis using exec_dirty [OF run_inv [OF assms(4) inv] assms(6)] by auto
qed

lemma reject_flags:
  assumes "CLIENT_MULTI \<in> flags (clients s c)" "\<not> lua_caller s"
  shows "{CLIENT_MULTI, CLIENT_DIRTY_EXEC} \<subseteq> flags (clients (reject c e s) c) \<and> \<not> lua_caller (reject c e s)"
  using assms by (simp add: reject_def flagTransaction_def upd_defs)

lemma refused_request_flags:
  assumes av: "request_ok av" "\<not> strcaseeq (hd av) ''quit''"
    and bad: "case lookupCommand (hd av) of None \<Rightarrow> True | Some cm \<Rightarrow> arity_error cm (length av)"
    and multi: "CLIENT_MULTI \<in> flags (clients s c)" "\<not> lua_caller s" and req: "request c av s = Some s1"
  shows "{CLIENT_MULTI, CLIENT_DIRTY_EXEC} \<subseteq> flags (clients s1 c) \<and> \<not> lua_caller s1"
proof -
  let ?s = "upd_client c (\<lambda>cl. cl\<lparr>argv := av\<rparr>) (s\<lparr>current_client := Some c\<rparr>)"
  have name: "arg c 0 ?s = Some (hd av)" using av by (simp add: arg_def request_ok_def hd_conv_nth upd_client_def)
  have m: "CLIENT_MULTI \<in> flags (clients ?s c)" "\<not> lua_caller ?s" using multi by (simp_all add: upd_client_def)
  show ?thesis
  proof (cases "lookupCommand (hd av)")
    case None
    then have "s1 = reject c (E_msg ''unknown command'') ?s"
      using req name av by (simp add: request_def processCommand_def)
    then show ?thesis using reject_flags [OF m] by simp
  next
    case (Some cm)
    let ?t = "upd_client c (\<lambda>cl. cl\<lparr>cmd := cm\<rparr>) ?s"
    have "refused c cm ?t = Some (Some (reject c (E_msg ''wrong number of arguments'') ?t))"
      using bad Some by (simp add: refused_def upd_client_def)
    then have "s1 = reject c (E_msg ''wrong number of arguments'') ?t"
      using req processCommand_refused [OF name av(2) Some] by (simp only: request_def option.simps fst_conv)
    then show ?thesis using reject_flags [of ?t] m by (simp add: upd_client_def)
  qed
qed

text \<open>C6.  A command that is refused while it is being queued dooms the transaction: inside \<open>MULTI\<close>, after a
  request with an unknown command name or a wrong number of arguments, and whatever anybody does
  afterwards, the same client included as long as it sends neither \<open>EXEC\<close> nor \<open>DISCARD\<close>, its \<open>EXEC\<close> replies
  \<open>EXECABORT\<close> and changes no data.\<close>

theorem queueing_error_aborts_exec:
  assumes inv: "server_inv {} s" "\<not> lua_caller s" and cl: "c \<in> set (client_list s)" and av: "request_ok av" "\<not> strcaseeq (hd av) ''quit''"
    and bad: "case lookupCommand (hd av) of None \<Rightarrow> True | Some cm \<Rightarrow> arity_error cm (length av)"
    and multi: "CLIENT_MULTI \<in> flags (clients s c)"
    and req: "request c av s = Some s1" and run: "run (in_tx c) s1 s2"
  shows "\<exists>s3. execCommand c s2 = Some s3 \<and> same_data s2 s3 \<and> last (reply (clients s3 c)) = R_error E_execabort"
proof -
  have s1: "{CLIENT_MULTI, CLIENT_DIRTY_EXEC} \<subseteq> flags (clients s1 c) \<and> \<not> lua_caller s1"
    by (rule refused_request_flags [OF av bad multi inv(2) req])
  have i1: "server_inv {} s1" using request_good [OF inv(1) cl av(1)] req good_inv by fastforce
  have "seen False c s1 s2" using run_in_tx_seen [OF run i1] s1 by simp
  moreover have "server_inv {} s2" by (rule run_inv [OF run i1])
  moreover have "{CLIENT_MULTI, CLIENT_DIRTY_EXEC} \<subseteq> flags (clients s2 c)"
    using s1 \<open>seen False c s1 s2\<close> by (auto simp: seen_def)
  ultimately show ?thesis using exec_dirty [of s2 c] by auto
qed

text \<open>Computations that leave the flags of all clients alone.\<close>

definition quiet :: "server \<Rightarrow> server option \<Rightarrow> bool" where
  "quiet s x \<longleftrightarrow> (\<forall>s'. x = Some s' \<longrightarrow> (\<forall>w. flags (clients s' w) = flags (clients s w)))"

lemma quiet_bind: "(\<And>y. x = Some y \<Longrightarrow> quiet s (f y)) \<Longrightarrow> quiet s (Option.bind x f)"
  by (cases x) (simp_all add: quiet_def)

lemma quiet_if: "(b \<Longrightarrow> quiet s x) \<Longrightarrow> (\<not> b \<Longrightarrow> quiet s y) \<Longrightarrow> quiet s (if b then x else y)"
  by simp

lemma quiet_option: "quiet s x \<Longrightarrow> (\<And>y. z = Some y \<Longrightarrow> quiet s (f y)) \<Longrightarrow> quiet s (case z of None \<Rightarrow> x | Some y \<Rightarrow> f y)"
  by (cases z) simp_all

lemma quiet_sum: "(\<And>y. z = Inl y \<Longrightarrow> quiet s (f y)) \<Longrightarrow> (\<And>y. z = Inr y \<Longrightarrow> quiet s (g y)) \<Longrightarrow>
  quiet s (case z of Inl y \<Rightarrow> f y | Inr y \<Rightarrow> g y)"
  by (cases z) simp_all

lemma quiet_prod: "(\<And>a b. z = (a, b) \<Longrightarrow> quiet s (f a b)) \<Longrightarrow> quiet s (case z of (a, b) \<Rightarrow> f a b)"
  by (cases z) simp

lemma quiet_Some: "(\<And>w. flags (clients t w) = flags (clients s w)) \<Longrightarrow> quiet s (Some t)"
  by (simp add: quiet_def)

lemmas quiet_intros = quiet_bind quiet_if quiet_option quiet_sum quiet_prod quiet_Some

lemma quiet_flags:
  "flags (clients (addReply c r t) w) = flags (clients t w)" "flags (clients (incr_dirty n t) w) = flags (clients t w)"
  "flags (clients (fst (dbSyncDelete i k t)) w) = flags (clients t w)"
  "lookupKeyWrite i key s = Some (s', ob) \<Longrightarrow> flags (clients s' w) = flags (clients s w)"
  "removeExpire i key s = Some (s', rm) \<Longrightarrow> flags (clients s' w) = flags (clients s w)"
  "dbAdd i key v s = Some s' \<Longrightarrow> flags (clients s' w) = flags (clients s w)"
  "(if bb then setExpire i key e s else Some s) = Some s' \<Longrightarrow> flags (clients s' w) = flags (clients s w)"
  "dbSwapDatabases a b s = Some s' \<Longrightarrow> flags (clients s' w) = flags (clients s w)"
  "getLongOrReply c ob m s = Some (Inl s') \<Longrightarrow> flags (clients s' w) = flags (clients s w)"
          apply (simp add: upd_defs)
         apply simp
        apply (simp add: dbSyncDelete_eq)
       apply (auto simp: lookupKeyWrite_def expireIfNeeded_def Let_def propagateExpire_def dbAsyncDelete_eq dbSyncDelete_eq
      split: bind_splits if_splits)[1]
      apply (auto simp: removeExpire_def split: if_splits)[1]
     apply (auto simp: dbAdd_def split: if_splits)[1]
    apply (auto simp: setExpire_def split: if_splits)[1]
   apply (auto simp: dbSwapDatabases_def Let_def upd_db_def split: if_splits)[1]
  apply (auto simp: getLongOrReply_def upd_defs split: bind_splits option.splits if_splits)[1]
  done

text \<open>C30.  \<open>MOVE\<close>, \<open>PERSIST\<close> and \<open>SWAPDB\<close> change keys without telling anybody: whatever they do to the keyspace, no
  client is marked, so a transaction that watches such a key is not aborted.\<close>

theorem unsignalled_marks_nobody:
  assumes "p \<in> unsignalled" "base_proc p c s = Some s'"
  shows "\<forall>w. flags (clients s' w) = flags (clients s w)"
proof -
  have "quiet s (moveCommand c s)" "quiet s (persistCommand c s)" "quiet s (swapdbCommand c s)"
    unfolding moveCommand_def persistCommand_def swapdbCommand_def Let_def
    by (intro quiet_intros; simp add: quiet_flags)+
  then show ?thesis using assms by (auto simp: unsignalled_def quiet_def)
qed

text \<open>On a read-only replica, a write command sent inside \<open>MULTI\<close> is refused without flagging the transaction, against
  the rule stated at \<open>flagTransaction\<close>: the client's flags stay as they are, so a later \<open>EXEC\<close> runs the rest
  of the queue.\<close>

lemma readonly_refusal_not_flagged:
  assumes "masterhost s" "repl_slave_ro s" "CLIENT_MASTER \<notin> flags (clients s c)" "CMD_WRITE \<in> cflags cm"
    and "\<not> arity_error cm (length (argv (clients s c)))" "requirepass s = None" "\<not> cluster_redirect s c" "\<not> out_of_memory s"
  shows "\<exists>s'. refused c cm s = Some (Some s') \<and> flags (clients s' c) = flags (clients s c) \<and>
    last (reply (clients s' c)) = R_error E_roslave"
  using assms by (simp add: refused_def Let_def upd_defs)

section \<open>Concrete runs\<close>

text \<open>Client 0 has watched \<open>k\<close> and opened a transaction.\<close>

definition watching_server :: server where
  "watching_server =
     (let s = example_server [str_bytes ''k'' \<mapsto> Str_int 1] Map.empty;
          s = upd_db 0 (\<lambda>d. d\<lparr>db_watched := [str_bytes ''k'' \<mapsto> [0]]\<rparr>) s
      in upd_client 0 (\<lambda>cl. cl\<lparr>flags := {CLIENT_MULTI}, watched_keys := [(0, str_bytes ''k'')]\<rparr>) s)"

text \<open>The same client before its \<open>MULTI\<close>.\<close>

definition watched_server :: server where
  "watched_server = upd_client 0 (\<lambda>cl. cl\<lparr>flags := {}\<rparr>) watching_server"

abbreviation del_k :: "sds list" where
  "del_k \<equiv> [str_bytes ''DEL'', str_bytes ''k'']"

lemmas example_defs = watching_server_def example_server_def example_client_def upd_defs Let_def

lemma watching_inv: "server_inv {} watching_server"
  by (auto simp: example_defs server_inv_def db_inv_def watch_inv_def watchers_def queue_ok_def split: if_splits)

lemma lookup_del:
  "lookupCommand [68, 69, 76] = Some \<lparr>proc_of = P_del, arity = -2, cflags = {CMD_WRITE}\<rparr>"
  "strcaseeq [68, 69, 76] ''quit'' = False"
  by code_simp+

lemma del_ok_clean: "request_ok del_k" "request_clean 1 del_k watching_server"
  by (simp_all add: request_ok_def request_clean_def lookup_del unsignalled_def clean_queue_def example_defs)

lemma watching_sel:
  "\<not> lua_caller watching_server" "client_list watching_server = [0, 1]" "now watching_server = 1000"
  "flags (clients watching_server 0) = {CLIENT_MULTI}"
  "watched_keys (clients watching_server 0) = [(0, str_bytes ''k'')]"
  "dbs watching_server 0 = \<lparr>db_dict = [str_bytes ''k'' \<mapsto> Str_int 1], db_expires = Map.empty, db_watched = [str_bytes ''k'' \<mapsto> [0]]\<rparr>"
  by (simp_all add: example_defs)

theorem request_never_fails_witness:
  "\<exists>s. request 1 del_k watching_server = Some s \<and> server_inv {} s"
  by (rule request_never_fails [OF watching_inv run_refl _ del_ok_clean(1)]) (simp add: watching_sel)

lemma watched_inv: "server_inv {} watched_server"
  using good_inv [OF good_flags [OF watching_inv]] by (simp add: watched_server_def)

lemma watched_sel:
  "\<not> lua_caller watched_server" "client_list watched_server = [0, 1]" "watched_keys (clients watched_server 0) = [(0, str_bytes ''k'')]"
  "flags (clients watched_server 0) = {}" "dbs watched_server = dbs watching_server"
  by (simp_all add: watched_server_def example_defs)

lemma del_clean_watched: "request_clean 1 del_k watched_server"
  using del_ok_clean(2) by (simp add: request_clean_def watched_server_def upd_client_def)

lemma lookup_multi:
  "lookupCommand [77, 85, 76, 84, 73] = Some \<lparr>proc_of = P_multi, arity = 1, cflags = {CMD_NOSCRIPT, CMD_FAST}\<rparr>"
  "strcaseeq [77, 85, 76, 84, 73] ''quit'' = False"
  by code_simp+

text \<open>Client 1 deletes the key, then client 0 sends \<open>MULTI\<close>.\<close>

lemma request_del_multi:
  "map_option (\<lambda>s. (lookupKey 0 (str_bytes ''k'') s, CLIENT_MULTI \<in> flags (clients s 0)))
     (Option.bind (request 1 del_k watched_server) (request 0 [str_bytes ''MULTI''])) = Some (None, True)"
  by (simp add: request_def processCommand_def arg_def lookup_del lookup_multi refused_def arity_error_def watched_server_def
      example_defs call_with_def run_proc_def delGenericCommand_def expireIfNeeded_def keyIsExpired_def getExpire_def
      dbSyncDelete_def signalModifiedKey_def touchWatchedKey_def dirty_cas_def propagate_def multiCommand_def)

theorem watch_makes_exec_fail_witness:
  "\<exists>s1 s2 s3. request 1 del_k watched_server = Some s1 \<and> request 0 [str_bytes ''MULTI''] s1 = Some s2 \<and>
     execCommand 0 s2 = Some s3 \<and> same_data s2 s3"
proof -
  obtain s1 s2 where s: "request 1 del_k watched_server = Some s1" "request 0 [str_bytes ''MULTI''] s1 = Some s2"
    "lookupKey 0 (str_bytes ''k'') s2 = None" "CLIENT_MULTI \<in> flags (clients s2 0)"
    using request_del_multi by (auto simp: bind_eq_Some_conv)
  have a1: "act watched_server (Req 1 del_k) s1" using s(1) del_ok_clean(1) watched_sel by (intro act_req) simp_all
  have r1: "run (watching 0) watched_server s1" using a1 del_clean_watched by (intro run_step [OF run_refl]) simp_all
  have "client_list s1 = [0, 1]"
    using run_watching_seen [OF r1 watched_inv watched_sel(1)] watched_sel(2) by (simp add: seen_def)
  then have "act s1 (Req 0 [str_bytes ''MULTI'']) s2"
    using s(2) by (intro act_req) (simp_all add: request_ok_def lookup_multi)
  then have r: "run (watching 0) watched_server s2"
    by (intro run_step [OF r1]) (simp_all add: own_proc_def lookup_multi unsignalled_def)
  show ?thesis
    using watch_makes_exec_fail [OF watched_inv watched_sel(1) r run_refl, of 0 "str_bytes ''k''"] s
    by (auto simp: watched_sel watching_sel timed_out_def)
qed

theorem queueing_error_aborts_exec_witness:
  "\<exists>s1 s2 s3. request 0 [str_bytes ''DEL''] watching_server = Some s1 \<and> request 0 del_k s1 = Some s2 \<and>
     execCommand 0 s2 = Some s3 \<and> last (reply (clients s3 0)) = R_error E_execabort"
proof -
  have ok: "request_ok [str_bytes ''DEL'']" by (simp add: request_ok_def lookup_del)
  obtain s1 where s1: "request 0 [str_bytes ''DEL''] watching_server = Some s1" "server_inv {} s1" "ext_ok False 0 watching_server s1"
    using request_good [OF watching_inv _ ok, of 0] ext_ok_weaken by (auto simp: watching_sel good_def)
  then have cl: "0 \<in> set (client_list s1)" by (simp add: ext_ok_def watching_sel)
  obtain s2 where s2: "request 0 del_k s1 = Some s2" using request_good [OF s1(2) cl del_ok_clean(1)] by blast
  have "run (in_tx 0) s1 s2"
    using act_req [OF cl del_ok_clean(1) s2] by (intro run_step [OF run_refl]) (simp_all add: own_proc_def lookup_del)
  then show ?thesis
    using queueing_error_aborts_exec [OF watching_inv watching_sel(1) _ ok _ _ _ s1(1)] s1(1) s2
    by (auto simp: watching_sel lookup_del arity_error_def)
qed

lemma string2ll_one: "string2ll [49] = Some 1"
  by (simp add: string2ll_iff ll_repr_def dec_small int_fits_def)

theorem unsignalled_marks_nobody_witness:
  "\<exists>s'. moveCommand 1 (upd_client 1 (\<lambda>cl. cl\<lparr>argv := [[], str_bytes ''k'', str_bytes ''1'']\<rparr>) watching_server) = Some s' \<and>
     lookupKey 0 (str_bytes ''k'') s' = None \<and> flags (clients s' 0) = {CLIENT_MULTI}"
proof -
  let ?s = "upd_client 1 (\<lambda>cl. cl\<lparr>argv := [[], str_bytes ''k'', str_bytes ''1'']\<rparr>) watching_server"
  have "map_option (lookupKey 0 (str_bytes ''k'')) (moveCommand 1 ?s) = Some None"
    by (simp add: moveCommand_def arg_def example_defs string2ll_one selectDb_def lookupKeyWrite_def expireIfNeeded_def
        keyIsExpired_def getExpire_def dbAdd_def dbSyncDelete_def)
  then obtain s' where s': "moveCommand 1 ?s = Some s'" "lookupKey 0 (str_bytes ''k'') s' = None" by auto
  then show ?thesis
    using unsignalled_marks_nobody [of P_move 1 ?s s'] by (auto simp: unsignalled_def example_defs)
qed

end
