(* ===== verification/Redis_Commands.thy ===== *)
theory Redis_Commands
  imports Redis_Multi
begin

text \<open>
  What the keyspace and string commands compute.  On a master a database is, for its clients, the map
  \<open>view\<close> of the keys that have not expired: commands never see an expired key, whether or not it has
  been reclaimed.  The properties describe each command as an operation on that map.
\<close>

section \<open>The visible keys of a database\<close>

definition view :: "nat \<Rightarrow> server \<Rightarrow> sds \<rightharpoonup> robj" where
  "view i s = (\<lambda>key. if expired_at i key s then None else lookupKey i key s)"

text \<open>The expire of a visible key.\<close>

definition expire_view :: "nat \<Rightarrow> server \<Rightarrow> sds \<rightharpoonup> int" where
  "expire_view i s = (\<lambda>key. if expired_at i key s then None else db_expires (dbs s i) key)"

lemma expired_cong:
  "db_expires (dbs s' i) key = db_expires (dbs s i) key \<Longrightarrow> loading s' = loading s \<Longrightarrow> lua_caller s' = lua_caller s \<Longrightarrow>
   lua_time_start s' = lua_time_start s \<Longrightarrow> now s' = now s \<Longrightarrow> expired_at i key s' = expired_at i key s"
  by (simp add: expired_at_def split: option.splits)

lemma time_sel [simp]:
  "loading (addReply c r s) = loading s" "lua_caller (addReply c r s) = lua_caller s" "lua_time_start (addReply c r s) = lua_time_start s"
  "loading (notifyKeyspaceEvent e k i s) = loading s" "lua_caller (notifyKeyspaceEvent e k i s) = lua_caller s"
  "lua_time_start (notifyKeyspaceEvent e k i s) = lua_time_start s"
  "loading (incr_dirty n s) = loading s" "lua_caller (incr_dirty n s) = lua_caller s" "lua_time_start (incr_dirty n s) = lua_time_start s"
  "loading (hit s) = loading s" "lua_caller (hit s) = lua_caller s" "lua_time_start (hit s) = lua_time_start s" "now (hit s) = now s"
  "loading (miss s) = loading s" "lua_caller (miss s) = lua_caller s" "lua_time_start (miss s) = lua_time_start s" "now (miss s) = now s"
  "loading (set_value i k v s) = loading s" "lua_caller (set_value i k v s) = lua_caller s"
  "lua_time_start (set_value i k v s) = lua_time_start s"
  "loading (set_expire i k w s) = loading s" "lua_caller (set_expire i k w s) = lua_caller s"
  "lua_time_start (set_expire i k w s) = lua_time_start s"
  "loading (signalModifiedKey i k s) = loading s" "lua_caller (signalModifiedKey i k s) = lua_caller s"
  "lua_time_start (signalModifiedKey i k s) = lua_time_start s"
  "masterhost (addReply c r s) = masterhost s" "masterhost (notifyKeyspaceEvent e k i s) = masterhost s"
  "masterhost (hit s) = masterhost s" "masterhost (miss s) = masterhost s"
  "masterhost (set_value i k v s) = masterhost s" "masterhost (set_expire i k w s) = masterhost s"
  "masterhost (signalModifiedKey i k s) = masterhost s"
  by (simp_all add: upd_defs signalModifiedKey_def)

lemma expire_step_time [simp]:
  "lua_caller (expire_step i key s) = lua_caller s" "lua_time_start (expire_step i key s) = lua_time_start s"
  by (simp_all add: expire_step_def dbSyncDelete_eq propagateExpire_def) (simp_all add: upd_defs propagate_def Let_def)

text \<open>Visibility is unchanged by what only touches replies, events and counters.\<close>

lemma view_cong:
  assumes "dbs s' = dbs s" "loading s' = loading s" "lua_caller s' = lua_caller s" "lua_time_start s' = lua_time_start s"
    "now s' = now s"
  shows "view i s' = view i s" "expire_view i s' = expire_view i s"
  using assms expired_cong [of s' i _ s] by (simp_all add: view_def expire_view_def fun_eq_iff)

lemma view_sel [simp]:
  "view i (addReply c r s) = view i s" "view i (notifyKeyspaceEvent e k j s) = view i s" "view i (incr_dirty n s) = view i s"
  "view i (hit s) = view i s" "view i (miss s) = view i s" "view i (signalModifiedKey j k s) = view i s"
  "expire_view i (addReply c r s) = expire_view i s" "expire_view i (notifyKeyspaceEvent e k j s) = expire_view i s"
  "expire_view i (incr_dirty n s) = expire_view i s" "expire_view i (hit s) = expire_view i s"
  "expire_view i (miss s) = expire_view i s" "expire_view i (signalModifiedKey j k s) = expire_view i s"
  by (rule view_cong; simp)+

lemma expire_step_dbs:
  "lookupKey j k (expire_step i key s) = (if j = i \<and> k = key \<and> expired_at i key s \<and> \<not> masterhost s then None else lookupKey j k s)"
  "db_expires (dbs (expire_step i key s) j) k =
     (if j = i \<and> k = key \<and> expired_at i key s \<and> \<not> masterhost s then None else db_expires (dbs s j) k)"
  by (simp_all add: expire_step_def dbSyncDelete_eq propagateExpire_def)

lemma expire_step_expired:
  "expired_at j k (expire_step i key s) \<longleftrightarrow> expired_at j k s \<and> \<not> (j = i \<and> k = key \<and> \<not> masterhost s)"
  by (auto simp: expired_at_def expire_step_dbs split: option.splits if_splits)

lemma view_expire_step [simp]: "view j (expire_step i key s) = view j s" "expire_view j (expire_step i key s) = expire_view j s"
  if "\<not> masterhost s"
  using that by (auto simp: view_def expire_view_def fun_eq_iff expire_step_expired expire_step_dbs)

lemma live_lookup: "\<not> masterhost s \<Longrightarrow> lookupKey i key (expire_step i key s) = view i s key"
  by (simp add: view_def expire_step_dbs)

lemma live_expire: "\<not> masterhost s \<Longrightarrow> db_expires (dbs (expire_step i key s) i) key = expire_view i s key"
  by (simp add: expire_view_def expire_step_dbs)

lemma not_expired_now: "\<not> masterhost s \<Longrightarrow> \<not> expired_at i key (expire_step i key s)"
  by (simp add: expire_step_expired)

text \<open>Writing a key that has just been looked up.\<close>

lemma view_set_value:
  "\<not> expired_at i key s \<Longrightarrow> view j (set_value i key v s) = (if j = i then (view i s)(key := v) else view j s)"
  by (auto simp: view_def fun_eq_iff expired_at_def split: option.splits)

lemma expire_view_set_value: "expire_view j (set_value i key v s) = expire_view j s"
  by (simp add: expire_view_def fun_eq_iff expired_at_def split: option.splits)

lemma view_set_expire:
  assumes "\<not> expired_at i key s" "\<not> expired_at i key (set_expire i key e s)"
  shows "view j (set_expire i key e s) = view j s"
    and "expire_view j (set_expire i key e s) = (if j = i then (expire_view i s)(key := e) else expire_view j s)"
  using assms by (auto simp: view_def expire_view_def fun_eq_iff expired_at_def split: option.splits if_splits)

lemma expired_None: "\<not> expired_at i key (set_expire i key None s)"
  by (simp add: expired_at_def)

lemma expired_set_value: "expired_at j k (set_value i key v s) = expired_at j k s"
  by (simp add: expired_at_def split: option.splits)

lemma expired_step_set: "\<not> masterhost s \<Longrightarrow> \<not> expired_at i key (set_value i key v (expire_step i key s))"
  by (simp add: expired_set_value expire_step_expired)

lemma lookupKeyRead_view:
  assumes "db_inv s" "\<not> masterhost s"
  shows "\<exists>s'. lookupKeyRead i key s = Some (s', view i s key) \<and> view j s' = view j s \<and> expire_view j s' = expire_view j s \<and>
    clients s' = clients s \<and> db_inv s' \<and> masterhost s' = masterhost s"
proof -
  have "expired_at i key s \<Longrightarrow> lookupKey i key (expire_step i key s) = None"
    using assms by (simp add: expire_step_dbs)
  then have r: "lookupKeyRead i key s =
      Some (if view i s key = None then miss (expire_step i key s) else hit (expire_step i key s), view i s key)"
    using assms live_lookup [OF assms(2)]
    by (auto simp: lookupKeyRead_def expireIfNeeded_inv view_def split: option.splits)
  have "db_inv (hit (expire_step i key s))" "db_inv (miss (expire_step i key s))"
    using db_inv_expire_step [OF assms(1)] by (simp_all add: db_inv_def)
  then show ?thesis using assms(2) by (simp add: r)
qed

section \<open>String objects\<close>

lemma sdigits10_repr: "int64 v \<Longrightarrow> sdigits10 v = length (ll_repr v)"
  by (simp add: digits10_length_dec sdigits10_def ll_repr_def ll_abs_eq)

lemma encoding_roundtrip:
  "getDecodedObject (tryObjectEncoding b) = Some b \<and> stringObjectLen (tryObjectEncoding b) = Some (length b)"
proof (cases "if length b \<le> 20 then string2l b else None")
  case None
  then show ?thesis by (simp add: tryObjectEncoding_def getDecodedObject_def stringObjectLen_def)
next
  case (Some v)
  then have "string2ll b = Some v" by (auto simp: string2l_def split: if_splits option.splits bind_splits)
  then have v: "int64 v" "b = ll_repr v" by (simp_all add: string2ll_iff)
  have t: "tryObjectEncoding b = Str_int v" using Some by (simp add: tryObjectEncoding_def)
  show ?thesis
    unfolding t using v(1) by (simp add: v(2) getDecodedObject_def stringObjectLen_def ll2sds_repr sdigits10_repr)
qed

text \<open>C29.  The integer encoding of a string object loses nothing: decoding what \<open>tryObjectEncoding\<close> stored
  gives back exactly the bytes that were set, and \<open>STRLEN\<close> on it reports their number.\<close>

theorem tryObjectEncoding_roundtrip:
  "getDecodedObject (tryObjectEncoding b) = Some b \<and> stringObjectLen (tryObjectEncoding b) = Some (length b)"
  by (rule encoding_roundtrip)

section \<open>SET and GET\<close>

lemma clients_signal:
  "reply (clients (signalModifiedKey i key s) c) = reply (clients s c)"
  "argv (clients (signalModifiedKey i key s) c) = argv (clients s c)"
  "cdb c (signalModifiedKey i key s) = cdb c s"
  by (simp_all add: signalModifiedKey_def touch_clients)

lemma reply_addReply [simp]:
  "reply (clients (addReply c r s) c) = reply (clients s c) @ [r]" "cdb x (addReply c r s) = cdb x s"
  "argv (clients (addReply c r s) x) = argv (clients s x)"
  by (simp_all add: upd_defs)

lemmas cmd_simps = Let_def clients_signal lookupKeyWrite_inv live_lookup live_expire not_expired_now
  view_set_value expire_view_set_value view_set_expire expired_None expired_step_set

definition set_expired_by :: "int option \<Rightarrow> server \<Rightarrow> int option" where
  "set_expired_by ms s = map_option (\<lambda>m. now s + m) ms"

lemma set_write_view:
  assumes inv: "db_inv s" and m: "\<not> masterhost s" "\<not> lua_caller s" "0 \<le> now s" "\<forall>t. ms = Some t \<longrightarrow> 0 < t \<and> now s + t < 2 ^ 63"
  shows "\<exists>s'. set_write c i key v ms r s = Some s' \<and> reply (clients s' c) = reply (clients s c) @ [r] \<and>
    view i s' = (view i s)(key \<mapsto> v) \<and> expire_view i s' = (expire_view i s)(key := set_expired_by ms s) \<and>
    (\<forall>j. j \<noteq> i \<longrightarrow> view j s' = view j s \<and> expire_view j s' = expire_view j s)"
proof -
  let ?s1 = "set_value i key (Some v) (expire_step i key s)"
  let ?s2 = "signalModifiedKey i key (set_expire i key None ?s1)"
  have k: "setKey i key v s = Some ?s2" by (rule setKey_inv [OF inv])
  have e1: "\<not> expired_at i key ?s1" using m by (simp add: expired_step_set)
  have e2: "\<not> expired_at i key ?s2" by (simp add: expired_at_def)
  have v2: "view j ?s2 = (if j = i then (view i s)(key \<mapsto> v) else view j s)"
    "expire_view j ?s2 = (if j = i then (expire_view i s)(key := None) else expire_view j s)" for j
    using m e1 by (simp_all add: cmd_simps)
  show ?thesis
  proof (cases ms)
    case None
    then show ?thesis using v2 by (simp add: set_write_def k clients_signal set_expired_by_def)
  next
    case (Some t)
    have w: "ll_wrap (now s + t) = now s + t" using m Some by (simp add: ll_wrap_def to_signed_def)
    let ?s3 = "set_expire i key (Some (now s + t)) (incr_dirty 1 ?s2)"
    have e3: "\<not> expired_at i key ?s3" using m Some by (simp add: expired_at_def)
    have e2': "\<not> expired_at i key (incr_dirty 1 ?s2)" by (simp add: expired_at_def)
    have "set_write c i key v ms r s = Some (addReply c r (notifyKeyspaceEvent ''expire'' key i (notifyKeyspaceEvent ''set'' key i ?s3)))"
      using Some w by (simp add: set_write_def k setExpire_def Let_def)
    then show ?thesis
      using v2 view_set_expire [OF e2' e3] Some by (simp add: clients_signal set_expired_by_def)
  qed
qed

lemma guard_view:
  assumes "db_inv s" "\<not> masterhost s"
  shows "\<exists>s'. set_guard i fl key s = Some (s', OBJ_SET_NX \<in> fl \<and> view i s key \<noteq> None \<or> OBJ_SET_XX \<in> fl \<and> view i s key = None) \<and>
    db_inv s' \<and> view j s' = view j s \<and> expire_view j s' = expire_view j s \<and> clients s' = clients s \<and>
    masterhost s' = masterhost s \<and> lua_caller s' = lua_caller s \<and> now s' = now s"
  using assms by (auto simp: set_guard_def lookupKeyWrite_inv live_lookup)

text \<open>The time to live that \<open>setGenericCommand\<close> computes, without wrap-around.\<close>

definition set_ttl :: "sds option \<Rightarrow> bool \<Rightarrow> int option option" where
  "set_ttl expire seconds =
     (case expire of None \<Rightarrow> Some None
      | Some e \<Rightarrow> (case string2ll e of None \<Rightarrow> None
          | Some n \<Rightarrow> if n \<le> 0 then None else Some (Some (if seconds then n * 1000 else n))))"

text \<open>The part of \<open>SET\<close> behind the check of the time to live.\<close>

lemma set_tail_view:
  assumes inv: "db_inv s" and m: "\<not> masterhost s" "\<not> lua_caller s" "0 \<le> now s"
    and pos: "\<forall>t. ms = Some t \<longrightarrow> 0 < t \<and> now s + t < 2 ^ 63" and i: "i = cdb c s"
  shows "\<exists>s'. set_tail c fl key v ms ok_reply abort_reply s = Some s' \<and>
    (if OBJ_SET_NX \<in> fl \<and> view i s key \<noteq> None \<or> OBJ_SET_XX \<in> fl \<and> view i s key = None
     then reply (clients s' c) = reply (clients s c) @ [abort_reply] \<and>
          (\<forall>j. view j s' = view j s \<and> expire_view j s' = expire_view j s)
     else reply (clients s' c) = reply (clients s c) @ [ok_reply] \<and>
          view i s' = (view i s)(key \<mapsto> v) \<and> expire_view i s' = (expire_view i s)(key := map_option (\<lambda>t. now s + t) ms) \<and>
          (\<forall>j. j \<noteq> i \<longrightarrow> view j s' = view j s \<and> expire_view j s' = expire_view j s))"
proof -
  let ?b = "OBJ_SET_NX \<in> fl \<and> view i s key \<noteq> None \<or> OBJ_SET_XX \<in> fl \<and> view i s key = None"
  obtain s1 where g: "set_guard i fl key s = Some (s1, ?b)" "db_inv s1" "clients s1 = clients s"
    "masterhost s1 = masterhost s" "lua_caller s1 = lua_caller s" "now s1 = now s"
    using guard_view [OF inv m(1)] by blast
  have gv: "view j s1 = view j s \<and> expire_view j s1 = expire_view j s" for j
    using guard_view [OF inv m(1), of i fl key j] g(1) by auto
  obtain s2 where s2: "set_write c i key v ms ok_reply s1 = Some s2" "reply (clients s2 c) = reply (clients s1 c) @ [ok_reply]"
    "view i s2 = (view i s1)(key \<mapsto> v)" "expire_view i s2 = (expire_view i s1)(key := set_expired_by ms s1)"
    "\<forall>j. j \<noteq> i \<longrightarrow> view j s2 = view j s1 \<and> expire_view j s2 = expire_view j s1"
    using set_write_view [OF g(2), of ms c i key v ok_reply] m g pos by auto
  show ?thesis using g s2 gv i by (auto simp: set_tail_def Let_def set_expired_by_def)
qed

lemma set_ttl_pos: "set_ttl expire seconds = Some (Some t) \<Longrightarrow> 0 < t"
  by (auto simp: set_ttl_def split: option.splits if_splits)

text \<open>When the time to live is refused.\<close>

lemma set_refused:
  assumes "set_ttl expire seconds = None"
  shows "\<exists>e. setGenericCommand c fl key v expire seconds ok_reply abort_reply s = Some (addReply c (R_error e) s)"
  using assms by (auto simp: setGenericCommand_def set_ttl_def getLongLong_cases split: option.splits if_splits)

lemma set_accepted:
  assumes "set_ttl expire seconds = Some ms" "\<forall>t. ms = Some t \<longrightarrow> now s + t < 2 ^ 63" "0 \<le> now s"
  shows "setGenericCommand c fl key v expire seconds ok_reply abort_reply s = set_tail c fl key v ms ok_reply abort_reply s"
proof (cases expire)
  case None
  then show ?thesis using assms(1) by (simp add: setGenericCommand_def set_ttl_def)
next
  case (Some e)
  then obtain n where n: "string2ll e = Some n" "0 < n" "ms = Some (if seconds then n * 1000 else n)"
    using assms(1) by (auto simp: set_ttl_def split: option.splits if_splits)
  then have "ll_wrap (n * 1000) = n * 1000" if seconds
    using assms(2,3) that by (simp add: ll_wrap_def to_signed_def)
  then show ?thesis using Some n by (simp add: setGenericCommand_def getLongLong_cases)
qed

text \<open>C5.  \<open>SET\<close> in all its forms on a master.  A time to live that is not a number, zero or negative is refused with an error
  reply, and no database changes.  Otherwise, when the option \<open>NX\<close> (\<open>XX\<close>) finds the key present (absent), the reply
  is the abort reply and no visible key changes; and if not, the key maps to the new value, with exactly
  the time to live asked for or none, every other key of every database is untouched, and the reply is the
  success reply.  Hypothesis: a time to live that is asked for does not overflow the clock.\<close>

theorem setGenericCommand_correct:
  assumes inv: "db_inv s" and m: "\<not> masterhost s" "\<not> lua_caller s" "0 \<le> now s"
    and ttl: "\<forall>t. set_ttl expire seconds = Some (Some t) \<longrightarrow> now s + t < 2 ^ 63" and i: "i = cdb c s"
  shows "\<exists>s'. setGenericCommand c fl key v expire seconds ok_reply abort_reply s = Some s' \<and>
    (case set_ttl expire seconds of
       None \<Rightarrow> dbs s' = dbs s \<and> (\<exists>e. reply (clients s' c) = reply (clients s c) @ [R_error e])
     | Some ms \<Rightarrow>
         if OBJ_SET_NX \<in> fl \<and> view i s key \<noteq> None \<or> OBJ_SET_XX \<in> fl \<and> view i s key = None
         then reply (clients s' c) = reply (clients s c) @ [abort_reply] \<and>
              (\<forall>j. view j s' = view j s \<and> expire_view j s' = expire_view j s)
         else reply (clients s' c) = reply (clients s c) @ [ok_reply] \<and>
              view i s' = (view i s)(key \<mapsto> v) \<and> expire_view i s' = (expire_view i s)(key := map_option (\<lambda>t. now s + t) ms) \<and>
              (\<forall>j. j \<noteq> i \<longrightarrow> view j s' = view j s \<and> expire_view j s' = expire_view j s))"
proof (cases "set_ttl expire seconds")
  case None
  then show ?thesis using set_refused [OF None, of c fl key v ok_reply abort_reply s] by (auto simp: upd_defs)
next
  case (Some ms)
  then have "\<forall>t. ms = Some t \<longrightarrow> 0 < t \<and> now s + t < 2 ^ 63" using ttl set_ttl_pos by blast
  from set_tail_view [OF inv m this i, of fl key v ok_reply abort_reply]
  show ?thesis using Some ttl m(3) by (simp add: set_accepted)
qed

text \<open>C7.  Reading: on a master, \<open>GET\<close> replies with the bytes of the visible value, with the null reply when the key is
  absent or expired, and with \<open>WRONGTYPE\<close> for a value that is not a string; what is visible does not change.\<close>

theorem getCommand_correct:
  assumes inv: "db_inv s" and m: "\<not> masterhost s" and a: "argv (clients s c) = [name, key]" and i: "i = cdb c s"
  shows "\<exists>s'. getCommand c s = Some s' \<and> (\<forall>j. view j s' = view j s \<and> expire_view j s' = expire_view j s) \<and>
    reply (clients s' c) = reply (clients s c) @
      [case view i s key of None \<Rightarrow> R_nullbulk
       | Some v \<Rightarrow> (case getDecodedObject v of None \<Rightarrow> R_error E_wrongtype | Some b \<Rightarrow> R_bulk b)]"
proof -
  obtain s1 where r: "lookupKeyRead i key s = Some (s1, view i s key)" "clients s1 = clients s"
    using lookupKeyRead_view [OF inv m] by blast
  have "view j s1 = view j s \<and> expire_view j s1 = expire_view j s" for j
    using lookupKeyRead_view [OF inv m, of i key j] r(1) by auto
  then show ?thesis
    using r a i by (auto simp: getCommand_def getGenericCommand_def arg_def split: option.splits)
qed

section \<open>Counters\<close>

text \<open>The number a key counts as: absent keys as zero, \<^const>\<open>None\<close> for a string that is not a number.\<close>

definition counter_value :: "robj option \<Rightarrow> int option" where
  "counter_value ob =
     (case ob of None \<Rightarrow> Some 0 | Some (Str_int v) \<Rightarrow> Some v | Some (Str_sds b) \<Rightarrow> string2ll b | Some (Coll _ _) \<Rightarrow> None)"

text \<open>C8.  \<open>INCR\<close>, \<open>DECR\<close> and \<open>INCRBY\<close> never wrap around: the new value and the reply are the exact sum when the sum
  fits 64 bits, and otherwise the command replies with an error and changes no visible key.  The
  expire of the key stays.\<close>

theorem incrDecrCommand_exact:
  assumes inv: "db_inv s" and m: "\<not> masterhost s" and a: "arg c 1 s = Some key" and i: "i = cdb c s"
    and v: "counter_value (view i s key) = Some v" "int64 v" and n: "int64 n"
  shows "\<exists>s'. incrDecrCommand c n s = Some s' \<and> (\<forall>j. expire_view j s' = expire_view j s \<and> (j \<noteq> i \<longrightarrow> view j s' = view j s)) \<and>
    (if int64 (v + n)
     then view i s' = (view i s)(key \<mapsto> Str_int (v + n)) \<and> reply (clients s' c) = reply (clients s c) @ [R_longlong (v + n)]
     else view i s' = view i s \<and>
          reply (clients s' c) = reply (clients s c) @ [R_error (E_msg ''increment or decrement would overflow'')])"
proof -
  let ?s = "expire_step i key s"
  have ll: "lookupKeyWrite i key s = Some (?s, view i s key)" using inv m by (simp add: lookupKeyWrite_inv live_lookup)
  have ty: "(case view i s key of None \<Rightarrow> None | Some w \<Rightarrow> checkType_string c w ?s) = None"
    using v by (auto simp: counter_value_def checkType_string_def is_string_def split: option.splits robj.splits)
  have num: "getLongLongOrReply c (view i s key) ?s = Some (Inr v)"
    using v by (auto simp: counter_value_def getLongLongOrReply_def getLongLongFromObject_def split: option.splits robj.splits)
  have ov: "(n < 0 \<and> v < 0 \<and> n < - (2 ^ 63) - v) \<or> (n > 0 \<and> v > 0 \<and> n > 2 ^ 63 - 1 - v) \<longleftrightarrow> \<not> int64 (v + n)"
    using v(2) n by (auto simp: int_fits_def)
  have fit: "int64 x \<Longrightarrow> ll_wrap x = x \<and> createStringObjectFromLongLongForValue x = Str_int x" for x
    using to_signed_mod [of 8 x] by (auto simp: ll_wrap_def createStringObjectFromLongLongForValue_def int_fits_def)
  have look: "lookupKey i key ?s = view i s key" by (rule live_lookup [OF m])
  have ne: "\<not> expired_at i key ?s" by (rule not_expired_now [OF m])
  show ?thesis
  proof (cases "int64 (v + n)")
    case True
    let ?t = "set_value i key (Some (Str_int (v + n))) ?s"
    have "incrDecrCommand c n s = Some (addReply c (R_longlong (v + n))
        (incr_dirty 1 (notifyKeyspaceEvent ''incrby'' key i (signalModifiedKey i key ?t))))"
      using a i [symmetric] ov True fit [OF True] look
      by (auto simp: incrDecrCommand_def ll ty num Let_def dbOverwrite_def dbAdd_def)
    then show ?thesis using True m by (simp add: clients_signal view_set_value [OF ne] expire_view_set_value)
  next
    case False
    then have "incrDecrCommand c n s = Some (addReplyError c ''increment or decrement would overflow'' ?s)"
      using a i [symmetric] ov by (auto simp: incrDecrCommand_def ll ty num Let_def)
    then show ?thesis using False m by simp
  qed
qed

section \<open>APPEND and GETRANGE\<close>

definition bytes_of :: "robj option \<Rightarrow> sds option" where
  "bytes_of ob = (case ob of None \<Rightarrow> Some [] | Some v \<Rightarrow> getDecodedObject v)"

definition obj_ok :: "robj \<Rightarrow> bool" where
  "obj_ok ob \<longleftrightarrow> (case ob of Str_int v \<Rightarrow> int64 v | _ \<Rightarrow> True)"

lemma stringObjectLen_decoded: "obj_ok v \<Longrightarrow> getDecodedObject v = Some b \<Longrightarrow> stringObjectLen v = Some (length b)"
  by (auto simp: obj_ok_def getDecodedObject_def stringObjectLen_def ll2sds_repr sdigits10_repr split: robj.splits)

text \<open>C23.  \<open>APPEND\<close>: the bytes of the key become the old bytes followed by the argument and the reply is their number;
  when an existing value would exceed 512 MB the command replies with an error and nothing changes.
  Other keys and all expires stay.\<close>

theorem appendCommand_correct:
  assumes inv: "db_inv s" and m: "\<not> masterhost s" and a: "argv (clients s c) = [name, key, app]" and i: "i = cdb c s"
    and b: "bytes_of (view i s key) = Some b" and ok: "\<forall>v. view i s key = Some v \<longrightarrow> obj_ok v"
  shows "\<exists>s'. appendCommand c s = Some s' \<and> (\<forall>j. expire_view j s' = expire_view j s \<and> (j \<noteq> i \<longrightarrow> view j s' = view j s)) \<and>
    (\<forall>k. k \<noteq> key \<longrightarrow> view i s' k = view i s k) \<and>
    (if view i s key \<noteq> None \<and> length b + length app > 512 * 1024 * 1024
     then view i s' key = view i s key \<and>
          reply (clients s' c) = reply (clients s c) @ [R_error (E_msg ''string exceeds maximum allowed size (512MB)'')]
     else bytes_of (view i s' key) = Some (b @ app) \<and>
          reply (clients s' c) = reply (clients s c) @ [R_longlong (int (length (b @ app)))])"
proof -
  let ?s = "expire_step i key s"
  let ?w = "\<lambda>v n. addReply c (R_longlong (int n)) (incr_dirty 1 (notifyKeyspaceEvent ''append'' key i
    (signalModifiedKey i key (set_value i key (Some v) ?s))))"
  have ll: "lookupKeyWrite i key s = Some (?s, view i s key)" using inv m by (simp add: lookupKeyWrite_inv live_lookup)
  have look: "lookupKey i key ?s = view i s key" by (rule live_lookup [OF m])
  have ne: "\<not> expired_at i key ?s" by (rule not_expired_now [OF m])
  have eff: "view j (?w v n) = (if j = i then (view i s)(key \<mapsto> v) else view j s)" "expire_view j (?w v n) = expire_view j s"
    "reply (clients (?w v n) c) = reply (clients s c) @ [R_longlong (int n)]" for v n j
    using m by (simp_all add: clients_signal view_set_value [OF ne] expire_view_set_value)
  have args: "arg c (Suc 0) s = Some key" "arg c 2 s = Some app" using a by (simp_all add: arg_def)
  show ?thesis
  proof (cases "view i s key")
    case None
    have t: "getDecodedObject (tryObjectEncoding app) = Some app" "stringObjectLen (tryObjectEncoding app) = Some (length app)"
      using encoding_roundtrip by simp_all
    have "appendCommand c s = Some (?w (tryObjectEncoding app) (length app))"
      using None look t i [symmetric] by (simp add: appendCommand_def args Let_def ll dbAdd_def)
    then show ?thesis using None b t eff by (simp add: bytes_of_def)
  next
    case (Some v)
    have d: "getDecodedObject v = Some b" using b Some by (simp add: bytes_of_def)
    have len: "stringObjectLen v = Some (length b)" using stringObjectLen_decoded d ok Some by blast
    have str: "is_string v" using d by (auto simp: getDecodedObject_def is_string_def split: robj.splits)
    show ?thesis
    proof (cases "length b + length app > 512 * 1024 * 1024")
      case True
      then have "appendCommand c s = Some (addReplyError c ''string exceeds maximum allowed size (512MB)'' ?s)"
        using Some len str i [symmetric]
        by (simp add: appendCommand_def args Let_def ll checkType_string_def checkStringLength_def)
      then show ?thesis using True Some m by simp
    next
      case False
      obtain s1 where "dbUnshareStringValue i key v ?s = Some (s1, b)"
        "s1 = ?s \<or> s1 = set_value i key (Some (Str_sds b)) ?s"
        using unshare_inv [OF str, where i = i and key = key and s = ?s] look Some d by auto
      moreover have "set_value i key (Some x) (set_value i key (Some y) t) = set_value i key (Some x) t" for x y t
        by (simp add: set_value_def upd_db_def)
      ultimately have "appendCommand c s = Some (?w (Str_sds (b @ app)) (length (b @ app)))"
        using Some len str False i [symmetric]
        by (auto simp: appendCommand_def args Let_def ll checkType_string_def checkStringLength_def)
      then show ?thesis using False eff by (simp add: bytes_of_def getDecodedObject_def)
    qed
  qed
qed

lemma take_drop_nths: "take n (drop m xs) = nths xs {m..<m + n}"
proof (induction xs arbitrary: m)
  case (Cons x xs)
  show ?case
  proof (cases m)
    case 0
    have "{j. Suc j < n} = {..<n - 1}" by auto
    then show ?thesis using 0 by (cases n) (simp_all add: nths_Cons)
  next
    case (Suc k)
    have "{j. Suc j \<in> {m..<m + n}} = {k..<k + n}" using Suc by auto
    then show ?thesis using Suc Cons.IH [of k] by (simp add: nths_Cons)
  qed
qed simp

text \<open>C24.  \<open>GETRANGE\<close> against a reference: the reply is the bytes at the positions from \<open>start\<close> to \<open>end\<close>, both
  included, where negative positions count from the end of the string and an \<open>end\<close> still before the
  string counts as position 0; when both are negative and in the wrong order nothing is selected.\<close>

theorem getrange_slice_correct:
  assumes "int64 start" "int64 end" "length str < 2 ^ 62"
  shows "(case getrange_slice str start end of None \<Rightarrow> [] | Some b \<Rightarrow> b) =
    (if start < 0 \<and> end < 0 \<and> start > end then []
     else nths str {i. (if start < 0 then int (length str) + start else start) \<le> int i \<and>
                       int i \<le> max 0 (if end < 0 then int (length str) + end else end)})"
proof -
  have w: "ll_wrap (int (length str) + x) = int (length str) + x" if "x < 0" "int64 x" for x
    using to_signed_mod [of 8 "int (length str) + x"] that assms(3) by (simp add: ll_wrap_def int_fits_def)
  have w1: "ll_wrap (int (length str) - 1) = int (length str) - 1"
    using to_signed_mod [of 8 "int (length str) - 1"] assms(3) by (simp add: ll_wrap_def int_fits_def)
  define a where "a = (if start < 0 then int (length str) + start else start)"
  define b where "b = (if end < 0 then int (length str) + end else end)"
  have sl: "getrange_slice str start end =
      (if start < 0 \<and> end < 0 \<and> start > end then None
       else let a' = max 0 a; b' = (if max 0 b \<ge> int (length str) then int (length str) - 1 else max 0 b)
         in if a' > b' \<or> str = [] then None else Some (take (nat (b' - a' + 1)) (drop (nat a') str)))"
    using assms w w1 by (auto simp: getrange_slice_def Let_def a_def b_def max_def)
  have n: "nths str A = nths str B" if "\<And>i. i < length str \<Longrightarrow> i \<in> A \<longleftrightarrow> i \<in> B" for A B
    unfolding nths_def by (rule arg_cong [where f = "map fst"], rule filter_cong) (auto simp: in_set_zip that)
  show ?thesis
  proof (cases "start < 0 \<and> end < 0 \<and> start > end")
    case False
    define b' where "b' = (if max 0 b \<ge> int (length str) then int (length str) - 1 else max 0 b)"
    have slb: "getrange_slice str start end =
        (if max 0 a > b' \<or> str = [] then None else Some (take (nat (b' - max 0 a + 1)) (drop (nat (max 0 a)) str)))"
      unfolding sl if_not_P [OF False] b'_def Let_def by (rule refl)
    have "nths str {i. a \<le> int i \<and> int i \<le> max 0 b} = (case getrange_slice str start end of None \<Rightarrow> [] | Some b \<Rightarrow> b)"
    proof (cases "max 0 a > b' \<or> str = []")
      case True
      then have "nths str {i. a \<le> int i \<and> int i \<le> max 0 b} = nths str {}"
        by (intro n) (auto simp: b'_def max_def split: if_splits)
      then show ?thesis using slb True by simp
    next
      case le: False
      then have "nths str {i. a \<le> int i \<and> int i \<le> max 0 b} = nths str {nat (max 0 a)..<nat (max 0 a) + nat (b' - max 0 a + 1)}"
        by (intro n) (auto simp: b'_def max_def split: if_splits)
      then show ?thesis using slb le by (simp add: take_drop_nths)
    qed
    then show ?thesis unfolding if_not_P [OF False] a_def b_def by (rule sym)
  qed (simp add: sl)
qed

section \<open>DEL and RENAME\<close>

lemma view_delete:
  assumes m: "\<not> masterhost s"
  shows "view j (set_value i key None (set_expire i key None (expire_step i key s))) = (if j = i then (view i s)(key := None) else view j s)"
    and "expire_view j (set_value i key None (set_expire i key None (expire_step i key s))) =
      (if j = i then (expire_view i s)(key := None) else expire_view j s)"
  using m not_expired_now [OF m, of i key]
  by (simp_all add: view_set_value [OF expired_None] expire_view_set_value view_set_expire expired_None)

lemma db_inv_delete: "db_inv s \<Longrightarrow> db_inv (set_value i key None (set_expire i key None s))"
  using step_ok_inv [OF step_del [OF step_ok_refl, where S = "{(i, key)}"]] by blast

lemma del_loop_view:
  assumes "db_inv s" "\<not> masterhost s" "cdb c s = i" "finite (dom (view i s))"
  shows "\<exists>s'. del_loop c lazy keys s n = Some (s', n + card (set keys \<inter> dom (view i s))) \<and>
    view i s' = view i s |` (- set keys) \<and> (\<forall>j. j \<noteq> i \<longrightarrow> view j s' = view j s) \<and> reply (clients s' c) = reply (clients s c)"
  using assms
proof (induction keys arbitrary: s n)
  case (Cons key keys)
  let ?d = "set_value i key None (set_expire i key None (expire_step i key s))"
  define t where "t = (if view i s key \<noteq> None
    then incr_dirty 1 (notifyKeyspaceEvent ''del'' key i (signalModifiedKey i key ?d)) else ?d)"
  have del: "dbSyncDelete i key (expire_step i key s) = (?d, view i s key \<noteq> None)"
    using Cons.prems(2) by (simp add: dbSyncDelete_eq live_lookup)
  have vt: "view i t = (view i s)(key := None)" "\<And>j. j \<noteq> i \<Longrightarrow> view j t = view j s"
    using view_delete [OF Cons.prems(2)] by (simp_all add: t_def)
  have "db_inv ?d" using Cons.prems by (intro db_inv_delete) simp
  then have t: "db_inv t" "\<not> masterhost t" "cdb c t = i" "reply (clients t c) = reply (clients s c)"
    using Cons.prems by (auto simp: t_def db_inv_def clients_signal)
  have fin: "finite (dom (view i t))" using Cons.prems(4) by (simp add: vt)
  have step: "del_loop c lazy (key # keys) s n = del_loop c lazy keys t (n + (if view i s key \<noteq> None then 1 else 0))"
    using Cons.prems by (auto simp: t_def expireIfNeeded_inv dbAsyncDelete_eq del clients_signal)
  have "card (set (key # keys) \<inter> dom (view i s)) =
      (if view i s key \<noteq> None then 1 else 0) + card (set keys \<inter> dom ((view i s)(key := None)))"
  proof (cases "view i s key")
    case None
    then have "set (key # keys) \<inter> dom (view i s) = set keys \<inter> dom ((view i s)(key := None))" by auto
    then show ?thesis using None by simp
  next
    case (Some v)
    then have "set (key # keys) \<inter> dom (view i s) = insert key (set keys \<inter> dom ((view i s)(key := None)))" by auto
    then show ?thesis using Some by simp
  qed
  moreover have "(view i s)(key := None) |` (- set keys) = view i s |` (- set (key # keys))"
    by (auto simp: restrict_map_def fun_eq_iff)
  moreover obtain s' where "del_loop c lazy keys t (n + (if view i s key \<noteq> None then 1 else 0)) =
      Some (s', n + (if view i s key \<noteq> None then 1 else 0) + card (set keys \<inter> dom (view i t)))"
    "view i s' = view i t |` (- set keys)" "\<forall>j. j \<noteq> i \<longrightarrow> view j s' = view j t" "reply (clients s' c) = reply (clients t c)"
    using Cons.IH [OF t(1-3) fin] by blast
  ultimately show ?case unfolding step by (intro exI [of _ s']) (simp only: vt t add.assoc, simp add: vt)
qed auto

text \<open>C21.  \<open>DEL\<close> and \<open>UNLINK\<close>: afterwards none of the named keys is visible, all other keys are as before, and
  the reply is the number of distinct visible keys that were named, however often and in whatever
  order; expired keys are not counted.\<close>

theorem delGenericCommand_correct:
  assumes inv: "db_inv s" and m: "\<not> masterhost s" and a: "argv (clients s c) = name # keys" and i: "i = cdb c s"
  shows "\<exists>s'. delGenericCommand c lazy s = Some s' \<and> view i s' = view i s |` (- set keys) \<and>
    (\<forall>j. j \<noteq> i \<longrightarrow> view j s' = view j s) \<and>
    reply (clients s' c) = reply (clients s c) @ [R_longlong (int (card (set keys \<inter> dom (view i s))))]"
proof -
  have "dom (view i s) \<subseteq> dom (db_dict (dbs s i))" by (auto simp: view_def split: if_splits)
  then have "finite (dom (view i s))" using inv by (auto simp: db_inv_def intro: finite_subset)
  then obtain s1 where "del_loop c lazy keys s 0 = Some (s1, card (set keys \<inter> dom (view i s)))"
    "view i s1 = view i s |` (- set keys)" "\<forall>j. j \<noteq> i \<longrightarrow> view j s1 = view j s" "reply (clients s1 c) = reply (clients s c)"
    using del_loop_view [OF inv m, of c i lazy keys 0] i by auto
  then show ?thesis using a by (simp add: delGenericCommand_def)
qed

text \<open>C22.  \<open>RENAME\<close> and \<open>RENAMENX\<close> of a visible key to a different name: the value and its expire move together, the
  old name disappears, an existing target is replaced (value and expire) or, for \<open>RENAMENX\<close>, makes the
  command do nothing.  Hypothesis: the expire is not the sentinel \<open>-1\<close>.\<close>

theorem renameGenericCommand_correct:
  assumes inv: "db_inv s" and m: "\<not> masterhost s" and a: "argv (clients s c) = [name, k1, k2]" "k1 \<noteq> k2" and i: "i = cdb c s"
    and v: "view i s k1 = Some v" and e: "expire_view i s k1 \<noteq> Some (-1)"
  shows "\<exists>s'. renameGenericCommand c nx s = Some s' \<and>
    (\<forall>j. j \<noteq> i \<longrightarrow> view j s' = view j s \<and> expire_view j s' = expire_view j s) \<and>
    (if nx \<and> view i s k2 \<noteq> None
     then view i s' = view i s \<and> expire_view i s' = expire_view i s \<and> reply (clients s' c) = reply (clients s c) @ [R_longlong 0]
     else view i s' = (view i s)(k1 := None, k2 \<mapsto> v) \<and>
          expire_view i s' = (expire_view i s)(k1 := None, k2 := expire_view i s k1) \<and>
          reply (clients s' c) = reply (clients s c) @ [if nx then R_longlong 1 else R_ok])"
proof -
  let ?s1 = "expire_step i k1 s"
  let ?s2 = "expire_step i k2 ?s1"
  define old where "old = view i s k2"
  define s3 where "s3 = (if old \<noteq> None then set_value i k2 None (set_expire i k2 None ?s2) else ?s2)"
  define s4 where "s4 = set_value i k2 (Some v) s3"
  define s5 where "s5 = (case expire_view i s k1 of None \<Rightarrow> s4 | Some w \<Rightarrow> set_expire i k2 (Some w) s4)"
  define s6 where "s6 = set_value i k1 None (set_expire i k1 None s5)"
  have inv1: "db_inv ?s1" "db_inv ?s2" "\<not> masterhost ?s1" using inv m by simp_all
  have l1: "lookupKeyWrite i k1 s = Some (?s1, Some v)" using inv m v by (simp add: lookupKeyWrite_inv live_lookup)
  have l2: "lookupKeyWrite i k2 ?s1 = Some (?s2, old)"
    using inv1 m live_lookup [OF inv1(3), of i k2] by (simp add: lookupKeyWrite_inv old_def)
  have ge: "getExpire i k1 ?s1 = Some (case expire_view i s k1 of None \<Rightarrow> -1 | Some w \<Rightarrow> w)"
    using getExpire_inv [OF inv1(1)] live_expire [OF m, of i k1] by simp
  have x2: "\<not> expired_at i k2 ?s2" "\<not> expired_at i k1 ?s2"
    using m a(2) by (auto simp: expire_step_expired)
  have none: "old = None \<Longrightarrow> expire_view i s k2 = None"
    using inv by (auto simp: old_def expire_view_def view_def db_inv_def split: if_splits)
  have v3: "view j s3 = (if j = i then (view i s)(k2 := None) else view j s)"
    "expire_view j s3 = (if j = i then (expire_view i s)(k2 := None) else expire_view j s)" for j
    using m view_delete [OF inv1(3), of j i k2] none by (auto simp: s3_def old_def fun_eq_iff)
  have x3: "\<not> expired_at i k2 s3" "\<not> expired_at i k1 s3"
    using x2 a(2) by (auto simp: s3_def expired_at_def split: option.splits if_splits)
  have v4: "view j s4 = (if j = i then (view i s)(k2 \<mapsto> v) else view j s)" "expire_view j s4 = expire_view j s3" for j
    by (simp_all add: s4_def view_set_value [OF x3(1)] expire_view_set_value v3)
  have x4: "\<not> expired_at i k2 s4" "\<not> expired_at i k1 s4" using x3 by (simp_all add: s4_def expired_set_value)
  have "\<not> expired_at i k1 s" using v by (auto simp: view_def split: if_splits)
  then have x5: "\<not> expired_at i k2 s5" "\<not> expired_at i k1 s5"
    using x4 a(2) by (auto simp: s5_def s4_def s3_def expire_view_def expired_at_def split: option.splits if_splits)
  have v5: "view j s5 = view j s4"
    "expire_view j s5 = (if j = i then (expire_view i s)(k2 := expire_view i s k1) else expire_view j s)" for j
    using x4 x5 v4 v3 by (auto simp: s5_def view_set_expire split: option.splits)
  have v6: "view j s6 = (if j = i then (view i s)(k1 := None, k2 \<mapsto> v) else view j s)"
    "expire_view j s6 = (if j = i then (expire_view i s)(k1 := None, k2 := expire_view i s k1) else expire_view j s)" for j
    using a(2) by (simp_all add: s6_def view_set_value [OF expired_None] expire_view_set_value
        view_set_expire [OF x5(2) expired_None] v5 v4 fun_upd_twist)
  have r6: "reply (clients s6 c) = reply (clients s c)"
    by (simp add: s6_def s5_def s4_def s3_def split: option.splits)
  have del: "fst (dbSyncDelete i k2 ?s2) = set_value i k2 None (set_expire i k2 None ?s2)"
    "fst (dbSyncDelete i k1 s5) = s6" by (simp_all add: dbSyncDelete_eq s6_def)
  have old2: "lookupKey i k2 ?s2 = old" using live_lookup [OF inv1(3), of i k2] m by (simp add: old_def)
  have add: "dbAdd i k2 v s3 = Some s4" using old2 by (auto simp: dbAdd_def s4_def s3_def)
  have s3': "(if old \<noteq> None then fst (dbSyncDelete i k2 ?s2) else ?s2) = s3" by (simp add: s3_def del)
  have args: "arg c 1 s = Some k1" "arg c 2 s = Some k2" using a by (simp_all add: arg_def)
  have setx: "(if (case expire_view i s k1 of None \<Rightarrow> -1 | Some w \<Rightarrow> w) \<noteq> -1
      then setExpire i k2 (case expire_view i s k1 of None \<Rightarrow> -1 | Some w \<Rightarrow> w) s4 else Some s4) = Some s5"
    using e by (auto simp: setExpire_def s5_def s4_def split: option.splits)
  show ?thesis
  proof (cases "nx \<and> old \<noteq> None")
    case True
    then have "renameGenericCommand c nx s = Some (addReply c (R_longlong 0) ?s2)"
      using a i [symmetric] l1 l2 ge by (simp add: renameGenericCommand_def arg_def Let_def)
    then show ?thesis using True m by (simp add: old_def)
  next
    case False
    have "renameGenericCommand c nx s = Some (addReply c (if nx then R_longlong 1 else R_ok)
        (incr_dirty 1 (notifyKeyspaceEvent ''rename_to'' k2 i (notifyKeyspaceEvent ''rename_from'' k1 i
          (signalModifiedKey i k2 (signalModifiedKey i k1 s6))))))"
      using i [symmetric] del(2) conj_commute [of nx "old \<noteq> None"]
      by (simp only: renameGenericCommand_def args Let_def l1 l2 ge s3' add setx a(2) False bind.bind_lunit prod.case option.case if_False)
    then show ?thesis using False v6 r6 by (auto simp: old_def clients_signal)
  qed
qed

section \<open>Numbers the code does not check\<close>

text \<open>\<open>SELECT\<close> truncates its argument: the parsed \<open>long\<close> is passed as an \<open>int\<close>, so any number whose low 32 bits
  name a database selects that database instead of being out of range.\<close>

lemma selectCommand_truncates:
  assumes a: "argv (clients s c) = [name, b]" and n: "string2ll b = Some n"
    and r: "n mod 2 ^ 32 < int (dbnum s)" "n mod 2 ^ 32 < 2 ^ 31"
  shows "\<exists>s'. selectCommand c s = Some s' \<and> cdb c s' = nat (n mod 2 ^ 32) \<and> reply (clients s' c) = reply (clients s c) @ [R_ok]"
proof -
  have "int64 n" using n by (simp add: string2ll_iff)
  then have l: "\<not> (n < - (2 ^ 63) \<or> n > 2 ^ 63 - 1)" by (auto simp: int_fits_def)
  have t: "to_signed 4 (n mod 2 ^ 32) = n mod 2 ^ 32" using r(2) by (simp add: to_signed_def)
  show ?thesis
    using a n r l t by (auto simp: selectCommand_def arg_def getLong_cases selectDb_def upd_client_def)
qed

text \<open>C31.  \<open>SETRANGE\<close> with an offset near \<open>2 ^ 63\<close> passes the 512 MB check, because the sum of offset and length wraps
  to a negative \<open>long long\<close>; the command then asks for \<open>2 ^ 63\<close> bytes or more, which no allocation satisfies.\<close>

theorem setrangeCommand_overflow:
  assumes inv: "db_inv s" and m: "\<not> masterhost s" and a: "argv (clients s c) = [name, key, b, value]"
    and off: "string2ll b = Some offset" "0 \<le> offset" and v: "value \<noteq> []" "length value < 2 ^ 62"
    and big: "2 ^ 63 \<le> offset + int (length value)" and none: "view (cdb c s) s key = None"
  shows "setrangeCommand c s = None"
proof -
  have "int64 offset" using off by (simp add: string2ll_iff)
  then have l: "\<not> (offset < - (2 ^ 63) \<or> offset > 2 ^ 63 - 1)" by (auto simp: int_fits_def)
  have w: "ll_wrap (offset + int (length value)) = offset + int (length value) - 2 ^ 64"
    using big l v(2) by (simp add: ll_wrap_def to_signed_def)
  have chk: "checkStringLength c (ll_wrap (offset + int (length value))) t = None" for t
    using l v(2) by (simp add: checkStringLength_def w)
  have g: "sdsgrowzero [] (nat (offset + int (length value))) = None" using big by (simp add: sdsgrowzero_def le_nat_iff)
  have ll: "lookupKeyWrite (cdb c s) key s = Some (expire_step (cdb c s) key s, None)"
    using inv m none by (simp add: lookupKeyWrite_inv live_lookup)
  show ?thesis
    using a off v l chk g by (simp add: setrangeCommand_def arg_def getLong_cases Let_def ll)
qed

text \<open>\<open>DECRBY\<close> by the least \<open>long long\<close> subtracts in the wrong direction: the negation of \<open>-2 ^ 63\<close> is itself, so a
  counter at zero is set to \<open>-2 ^ 63\<close> where the exact difference \<open>2 ^ 63\<close> calls for the overflow error.\<close>

lemma decrbyCommand_min:
  assumes inv: "db_inv s" and m: "\<not> masterhost s" and a: "argv (clients s c) = [name, key, b]"
    and n: "string2ll b = Some (- (2 ^ 63))" and v: "view (cdb c s) s key = None"
  shows "\<exists>s'. decrbyCommand c s = Some s' \<and> reply (clients s' c) = reply (clients s c) @ [R_longlong (- (2 ^ 63))]"
proof -
  have "ll_wrap (- (- (2 ^ 63))) = - (2 ^ 63)" by (simp add: ll_wrap_def to_signed_def)
  moreover have "lookupKeyWrite (cdb c s) key s = Some (expire_step (cdb c s) key s, None)"
    using inv m v by (simp add: lookupKeyWrite_inv live_lookup)
  moreover have "lookupKey (cdb c s) key (expire_step (cdb c s) key s) = None" using live_lookup [OF m] v by simp
  moreover have "ll_wrap (- (2 ^ 63)) = - (2 ^ 63)" by (simp add: ll_wrap_def to_signed_def)
  ultimately show ?thesis
    using a n by (simp add: decrbyCommand_def incrDecrCommand_def arg_def getLongLong_cases Let_def
        getLongLongOrReply_def getLongLongFromObject_def dbAdd_def clients_signal)
qed

text \<open>C32.  The expire of \<open>SETEX\<close> and \<open>SET EX\<close> wraps around: a time to live of more than \<open>2 ^ 63\<close> (and less than \<open>2 ^ 64\<close>)
  milliseconds, asked for in seconds, passes the check for a positive number, but multiplied by 1000 it is
  a negative number, so that the reply is the success reply and the key gets an expire in the past, \<open>2 ^ 64\<close> milliseconds
  before the moment asked for.\<close>

theorem setex_wraps:
  assumes e: "string2ll b = Some n" "2 ^ 63 \<le> n * 1000" "n * 1000 < 2 ^ 64"
    and i: "db_inv s" "0 \<le> now s" "now s < 2 ^ 63"
  shows "\<exists>s'. setGenericCommand c {} key v (Some b) True ok_reply abort_reply s = Some s' \<and>
    db_expires (dbs s' (cdb c s)) key = Some (now s + n * 1000 - 2 ^ 64) \<and> now s + n * 1000 - 2 ^ 64 < now s \<and>
    last (reply (clients s' c)) = ok_reply"
proof -
  have n: "0 < n" using e by simp
  have w: "ll_wrap (n * 1000) = n * 1000 - 2 ^ 64" using e by (simp add: ll_wrap_def to_signed_def)
  have w2: "ll_wrap (now s + (n * 1000 - 2 ^ 64)) = now s + n * 1000 - 2 ^ 64"
    using e i to_signed_mod [of 8 "now s + (n * 1000 - 2 ^ 64)"] by (simp add: ll_wrap_def int_fits_def)
  show ?thesis
    using e n i w w2
    by (simp add: setGenericCommand_def getLongLong_cases set_tail_def set_guard_def set_write_def setKey_inv setExpire_def Let_def)
qed

section \<open>Concrete instances\<close>

text \<open>The example server with the arguments of client 0.\<close>

definition example_request :: "(sds \<rightharpoonup> robj) \<Rightarrow> (sds \<rightharpoonup> int) \<Rightarrow> sds list \<Rightarrow> server" where
  "example_request d e av = upd_client 0 (\<lambda>cl. cl\<lparr>argv := av\<rparr>) (example_server d e)"

lemma example_request_inv: "finite (dom d) \<Longrightarrow> dom e \<subseteq> dom d \<Longrightarrow> db_inv (example_request d e av)"
  by (auto simp: example_request_def example_server_def upd_client_def db_inv_def)

lemma example_request_sel [simp]:
  "masterhost (example_request d e av) = False" "lua_caller (example_request d e av) = False" "now (example_request d e av) = 1000"
  "cdb 0 (example_request d e av) = 0" "argv (clients (example_request d e av) 0) = av"
  "reply (clients (example_request d e av) 0) = []" "dbnum (example_request d e av) = 2"
  by (simp_all add: example_request_def example_server_def example_client_def upd_client_def)

lemma example_request_view:
  "view 0 (example_request d e av) k = (case e k of None \<Rightarrow> d k | Some w \<Rightarrow> if 0 \<le> w \<and> w < 1000 then None else d k)"
  "expire_view 0 (example_request d e av) k = (case e k of None \<Rightarrow> None | Some w \<Rightarrow> if 0 \<le> w \<and> w < 1000 then None else Some w)"
  by (auto simp: view_def expire_view_def expired_at_def example_request_def example_server_def upd_client_def
      split: option.splits)

lemma string2ll_examples:
  "string2ll (str_bytes ''10'') = Some 10" "string2ll (str_bytes ''4294967297'') = Some 4294967297"
  "string2ll (str_bytes ''9223372036854775807'') = Some (2 ^ 63 - 1)"
  "string2ll (str_bytes ''-9223372036854775808'') = Some (- (2 ^ 63))"
  "string2ll (str_bytes ''10000000000000000'') = Some 10000000000000000"
  by (simp_all add: string2ll_iff ll_repr_def dec_step dec_small int_fits_def)

theorem setGenericCommand_correct_witness:
  "\<exists>s'. setGenericCommand 0 {OBJ_SET_NX} (str_bytes ''k'') (Str_int 7) (Some (str_bytes ''10'')) True R_ok R_nullbulk
      (example_request Map.empty Map.empty []) = Some s' \<and>
    view 0 s' (str_bytes ''k'') = Some (Str_int 7) \<and> expire_view 0 s' (str_bytes ''k'') = Some 11000"
  using setGenericCommand_correct [of "example_request Map.empty Map.empty []" "Some (str_bytes ''10'')" True 0 0
      "{OBJ_SET_NX}" "str_bytes ''k''" "Str_int 7" R_ok R_nullbulk]
  by (auto simp: example_request_inv example_request_view set_ttl_def string2ll_examples [simplified])

theorem getCommand_correct_witness:
  "\<exists>s'. getCommand 0 (example_request [[107] \<mapsto> Str_int 12, [108] \<mapsto> Str_int 1] [[108] \<mapsto> 999] [[], [107]]) = Some s' \<and>
    reply (clients s' 0) = [R_bulk (ll_repr 12)]"
  using getCommand_correct [of "example_request [[107] \<mapsto> Str_int 12, [108] \<mapsto> Str_int 1] [[108] \<mapsto> 999] [[], [107]]" 0 "[]" "[107]" 0]
  by (auto simp: example_request_inv example_request_view getDecodedObject_def ll2sds_repr int_fits_def)

theorem incrDecrCommand_exact_witness:
  "\<exists>s'. incrDecrCommand 0 5 (example_request [[107] \<mapsto> Str_int (2 ^ 63 - 3)] Map.empty [[], [107]]) = Some s' \<and>
    reply (clients s' 0) = [R_error (E_msg ''increment or decrement would overflow'')]"
  using incrDecrCommand_exact [of "example_request [[107] \<mapsto> Str_int (2 ^ 63 - 3)] Map.empty [[], [107]]" 0 "[107]" 0 "2 ^ 63 - 3" 5]
  by (auto simp: example_request_inv example_request_view counter_value_def int_fits_def arg_def)

theorem appendCommand_correct_witness:
  "\<exists>s'. appendCommand 0 (example_request [[107] \<mapsto> Str_sds [1, 2]] Map.empty [[], [107], [3]]) = Some s' \<and>
    bytes_of (view 0 s' [107]) = Some [1, 2, 3] \<and> reply (clients s' 0) = [R_longlong 3]"
  using appendCommand_correct [of "example_request [[107] \<mapsto> Str_sds [1, 2]] Map.empty [[], [107], [3]]" 0 "[]" "[107]" "[3]" 0 "[1, 2]"]
  by (auto simp: example_request_inv example_request_view bytes_of_def getDecodedObject_def obj_ok_def)

theorem getrange_slice_correct_witness: "getrange_slice [1, 2, 3, 4] (-3) (-2) = Some [2, 3]"
proof -
  have "nths [1, 2, 3, 4 :: byte] {i. 1 \<le> int i \<and> int i \<le> 2} = [2, 3]" by (simp add: nths_Cons)
  then show ?thesis
    using getrange_slice_correct [of "-3" "-2" "[1, 2, 3, 4]"]
    by (auto simp: int_fits_def split: option.splits)
qed

theorem delGenericCommand_correct_witness:
  "\<exists>s'. delGenericCommand 0 True (example_request [[107] \<mapsto> Str_int 1, [108] \<mapsto> Str_int 2] [[108] \<mapsto> 999] [[], [107], [108], [107]]) = Some s' \<and>
    reply (clients s' 0) = [R_longlong 1]"
proof -
  let ?s = "example_request [[107] \<mapsto> Str_int 1, [108] \<mapsto> Str_int 2] [[108] \<mapsto> 999] [[], [107], [108], [107]]"
  have "set [[107], [108], [107]] \<inter> dom (view 0 ?s) = {[107]}" by (auto simp: example_request_view)
  then show ?thesis
    using delGenericCommand_correct [of ?s 0 "[]" "[[107], [108], [107]]" 0 True] by (auto simp: example_request_inv)
qed

theorem renameGenericCommand_correct_witness:
  "\<exists>s'. renameGenericCommand 0 False (example_request [[107] \<mapsto> Str_int 1, [108] \<mapsto> Str_int 2] [[107] \<mapsto> 5000] [[], [107], [108]]) = Some s' \<and>
    view 0 s' [107] = None \<and> view 0 s' [108] = Some (Str_int 1) \<and> expire_view 0 s' [108] = Some 5000"
  using renameGenericCommand_correct [of "example_request [[107] \<mapsto> Str_int 1, [108] \<mapsto> Str_int 2] [[107] \<mapsto> 5000] [[], [107], [108]]"
      0 "[]" "[107]" "[108]" 0 "Str_int 1" False]
  by (auto simp: example_request_inv example_request_view)

theorem setrangeCommand_overflow_witness:
  "setrangeCommand 0 (example_request Map.empty Map.empty [[], [107], str_bytes ''9223372036854775807'', [1]]) = None"
  using string2ll_examples(3)
  by (intro setrangeCommand_overflow [of _ 0 "[]" "[107]" "str_bytes ''9223372036854775807''" "[1]" "2 ^ 63 - 1"])
    (simp_all add: example_request_inv example_request_view)

theorem setex_wraps_witness:
  "\<exists>s'. setGenericCommand 0 {} [107] (Str_int 1) (Some (str_bytes ''10000000000000000'')) True R_ok R_nullbulk
      (example_request Map.empty Map.empty []) = Some s' \<and> db_expires (dbs s' 0) [107] = Some (10000000000000001000 - 2 ^ 64)"
  using setex_wraps [of "str_bytes ''10000000000000000''" 10000000000000000 "example_request Map.empty Map.empty []" 0 "[107]" "Str_int 1" R_ok R_nullbulk]
    string2ll_examples(5) by (auto simp: example_request_inv)

end
