(* ===== verification/Redis_Proto.thy ===== *)
theory Redis_Proto
  imports Redis_Multi Redis_Sds
begin

text \<open>
  The request protocol: \<open>networking.c\<close> from the bytes read on a connection to \<open>processCommand\<close>, and the encoder of
  \<open>aof.c\<close> that writes commands in the same format.  The client is an ordinary one (not a replica or
  master link, not paused or blocked, not freed while it is being served), and its buffer stays below
  \<open>client-query-buffer-limit\<close>.  The input fields of \<open>struct client\<close> are the record \<open>inbuf\<close>.
\<close>

section \<open>The encoder\<close>

text \<open>A type byte, a number and a line end, built in a 32-byte buffer.\<close>

definition num_line :: "byte \<Rightarrow> int \<Rightarrow> byte list" where
  "num_line ch n = ch # (case ll2string (replicate 31 0) 31 n of Some (k, buf) \<Rightarrow> take k buf | None \<Rightarrow> []) @ [13, 10]"

definition catAppendOnlyGenericCommand :: "sds \<Rightarrow> sds list \<Rightarrow> sds" where
  "catAppendOnlyGenericCommand dst av =
     dst @ num_line 42 (int (length av)) @ concat (map (\<lambda>o'. num_line 36 (int (length o')) @ o' @ [13, 10]) av)"

section \<open>The parser\<close>

datatype req_type = PROTO_REQ_INLINE | PROTO_REQ_MULTIBULK

record inbuf =
  querybuf :: sds
  qb_pos :: nat
  reqtype :: "req_type option"
  multibulklen :: int
  bulklen :: int
  iargv :: "sds list"

definition PROTO_INLINE_MAX_SIZE :: nat where
  "PROTO_INLINE_MAX_SIZE = 1024 * 64"

definition PROTO_MBULK_BIG_ARG :: int where
  "PROTO_MBULK_BIG_ARG = 1024 * 32"

definition proto_max_bulk_len :: int where
  "proto_max_bulk_len = 512 * 1024 * 1024"

abbreviation unread :: "inbuf \<Rightarrow> byte list" where
  "unread q \<equiv> drop (qb_pos q) (querybuf q)"

text \<open>\<open>strchr\<close> on a C string: the offset of the first \<open>ch\<close> before the terminating zero byte.\<close>

definition strchr :: "byte list \<Rightarrow> byte \<Rightarrow> nat option" where
  "strchr p ch =
     (let n = length (takeWhile (\<lambda>b. b \<noteq> ch \<and> b \<noteq> 0) p) in if n < length p \<and> p ! n = ch then Some n else None)"

text \<open>The error reply and \<open>setProtocolError\<close>, without the log message.\<close>

definition protocol_error :: "nat \<Rightarrow> string \<Rightarrow> server \<Rightarrow> server" where
  "protocol_error c m s =
     upd_client c (\<lambda>cl. cl\<lparr>flags := insert CLIENT_CLOSE_AFTER_REPLY (flags cl)\<rparr>) (addReplyError c m s)"

text \<open>The flag is \<open>C_OK\<close>.\<close>

definition processInlineBuffer :: "nat \<Rightarrow> server \<Rightarrow> inbuf \<Rightarrow> (server \<times> inbuf) \<times> bool" where
  "processInlineBuffer c s q =
     (case strchr (unread q) 10 of
        None \<Rightarrow>
          (if length (unread q) > PROTO_INLINE_MAX_SIZE then (protocol_error c ''too big inline request'' s, q) else (s, q), False)
      | Some nl \<Rightarrow>
          let (querylen, linefeed_chars) = (if nl \<noteq> 0 \<and> unread q ! (nl - 1) = 13 then (nl - 1, 2) else (nl, 1)) in
          case sdssplitargs (take querylen (unread q)) of
            None \<Rightarrow> ((protocol_error c ''unbalanced quotes in request'' s, q), False)
          | Some av \<Rightarrow>
              ((s, q\<lparr>qb_pos := qb_pos q + querylen + linefeed_chars, iargv := filter (\<lambda>a. a \<noteq> []) av\<rparr>), True))"

text \<open>The length line of a bulk argument: \<^const>\<open>Inl\<close> leaves the loop, before or after a protocol error.\<close>

definition read_bulklen :: "nat \<Rightarrow> server \<Rightarrow> inbuf \<Rightarrow> (server \<times> inbuf) + inbuf" where
  "read_bulklen c s q =
     (if bulklen q \<noteq> -1 then Inr q
      else case strchr (unread q) 13 of
        None \<Rightarrow>
          Inl (if length (unread q) > PROTO_INLINE_MAX_SIZE then (protocol_error c ''too big bulk count string'' s, q) else (s, q))
      | Some nl \<Rightarrow>
          if int nl > int (length (unread q)) - 2 then Inl (s, q)
          else if unread q ! 0 \<noteq> 36 then Inl (protocol_error c ''expected $'' s, q)
          else case string2ll (take (nl - 1) (drop 1 (unread q))) of
            None \<Rightarrow> Inl (protocol_error c ''invalid bulk length'' s, q)
          | Some ll \<Rightarrow>
              if ll < 0 \<or> ll > proto_max_bulk_len then Inl (protocol_error c ''invalid bulk length'' s, q)
              else
                let q = q\<lparr>qb_pos := qb_pos q + nl + 2\<rparr>;
                    q = (if ll \<ge> PROTO_MBULK_BIG_ARG \<and> int (length (unread q)) \<le> ll + 2
                         then q\<lparr>querybuf := sdsrange (querybuf q) (int (qb_pos q)) (-1), qb_pos := 0\<rparr> else q)
                in Inr (q\<lparr>bulklen := ll\<rparr>))"

text \<open>Storing a complete bulk argument; the whole buffer becomes the argument when it holds nothing else.\<close>

definition take_bulk :: "inbuf \<Rightarrow> inbuf" where
  "take_bulk q =
     (let n = nat (bulklen q);
          q = (if qb_pos q = 0 \<and> bulklen q \<ge> PROTO_MBULK_BIG_ARG \<and> length (querybuf q) = n + 2
               then q\<lparr>iargv := iargv q @ [take (length (querybuf q) - 2) (querybuf q)], querybuf := []\<rparr>
               else q\<lparr>iargv := iargv q @ [take n (unread q)], qb_pos := qb_pos q + n + 2\<rparr>)
      in q\<lparr>bulklen := -1, multibulklen := multibulklen q - 1\<rparr>)"

function bulk_loop :: "nat \<Rightarrow> server \<Rightarrow> inbuf \<Rightarrow> (server \<times> inbuf) \<times> bool" where
  "bulk_loop c s q =
     (if multibulklen q \<le> 0 then ((s, q), True)
      else case read_bulklen c s q of
        Inl sq \<Rightarrow> (sq, False)
      | Inr q \<Rightarrow>
          if int (length (unread q)) < bulklen q + 2 then ((s, q), False) else bulk_loop c s (take_bulk q))"
  by pat_completeness auto
termination
proof (relation "measure (\<lambda>(c, s, q). nat (multibulklen q))")
  fix c s q q'
  assume m: "\<not> multibulklen q \<le> 0" and r: "read_bulklen c s q = Inr q'"
  then have "multibulklen q' = multibulklen q"
    by (auto simp: read_bulklen_def Let_def split: if_splits option.splits)
  then show "((c, s, take_bulk q'), (c, s, q)) \<in> measure (\<lambda>(c, s, q). nat (multibulklen q))"
    using m by (simp add: take_bulk_def Let_def)
qed simp

declare bulk_loop.simps [simp del]

text \<open>\<^const>\<open>None\<close> is a failed assertion.\<close>

definition processMultibulkBuffer :: "nat \<Rightarrow> server \<Rightarrow> inbuf \<Rightarrow> ((server \<times> inbuf) \<times> bool) option" where
  "processMultibulkBuffer c s q =
     (if multibulklen q = 0 then
        if iargv q \<noteq> [] then None
        else case strchr (unread q) 13 of
          None \<Rightarrow>
            Some (if length (unread q) > PROTO_INLINE_MAX_SIZE then (protocol_error c ''too big mbulk count string'' s, q) else (s, q), False)
        | Some nl \<Rightarrow>
            if int nl > int (length (unread q)) - 2 then Some ((s, q), False)
            else if unread q ! 0 \<noteq> 42 then None
            else case string2ll (take (nl - 1) (drop 1 (unread q))) of
              None \<Rightarrow> Some ((protocol_error c ''invalid multibulk length'' s, q), False)
            | Some ll \<Rightarrow>
                if ll > 1024 * 1024 then Some ((protocol_error c ''invalid multibulk length'' s, q), False)
                else
                  let q = q\<lparr>qb_pos := qb_pos q + nl + 2\<rparr> in
                  if ll \<le> 0 then Some ((s, q), True) else Some (bulk_loop c s (q\<lparr>multibulklen := ll\<rparr>))
      else if multibulklen q > 0 then Some (bulk_loop c s q) else None)"

definition resetClient :: "nat \<Rightarrow> server \<Rightarrow> inbuf \<Rightarrow> server \<times> inbuf" where
  "resetClient c s q =
     (upd_client c (\<lambda>cl. cl\<lparr>argv := []\<rparr>) s, q\<lparr>iargv := [], reqtype := None, multibulklen := 0, bulklen := -1\<rparr>)"

abbreviation closing :: "nat \<Rightarrow> server \<Rightarrow> bool" where
  "closing c s \<equiv> CLIENT_CLOSE_AFTER_REPLY \<in> flags (clients s c)"

text \<open>\<open>processCommand\<close> on the parsed arguments; the current client is the one being served.\<close>

definition run_command :: "nat \<Rightarrow> sds list \<Rightarrow> server \<Rightarrow> (server \<times> bool) option" where
  "run_command c av s = processCommand c (upd_client c (\<lambda>cl. cl\<lparr>argv := av\<rparr>) (s\<lparr>current_client := Some c\<rparr>))"

text \<open>The loop may only be left; that it ends is part of the property below.\<close>

partial_function (option) input_loop :: "nat \<Rightarrow> server \<Rightarrow> inbuf \<Rightarrow> (server \<times> inbuf) option" where
  "input_loop c s q =
     (if qb_pos q < length (querybuf q) \<and> \<not> closing c s then
        let q = (if reqtype q = None
                 then q\<lparr>reqtype := Some (if unread q ! 0 = 42 then PROTO_REQ_MULTIBULK else PROTO_REQ_INLINE)\<rparr> else q) in
        Option.bind (if reqtype q = Some PROTO_REQ_INLINE then Some (processInlineBuffer c s q) else processMultibulkBuffer c s q)
          (\<lambda>((s, q), ok).
             if \<not> ok then Some (s, q)
             else if iargv q = [] then (case resetClient c s q of (s, q) \<Rightarrow> input_loop c s q)
             else Option.bind (run_command c (iargv q) s)
               (\<lambda>(s, ok). case (if ok then resetClient c s q else (s, q)) of (s, q) \<Rightarrow> input_loop c s q))
      else Some (s, q))"

definition processInputBuffer :: "nat \<Rightarrow> server \<Rightarrow> inbuf \<Rightarrow> (server \<times> inbuf) option" where
  "processInputBuffer c s q = do {
     (s, q) \<leftarrow> input_loop c (s\<lparr>current_client := Some c\<rparr>) q;
     let q = (if qb_pos q \<noteq> 0 then q\<lparr>querybuf := sdsrange (querybuf q) (int (qb_pos q)) (-1), qb_pos := 0\<rparr> else q) in
     Some (s\<lparr>current_client := None\<rparr>, q) }"

text \<open>One \<open>read\<close> on the connection that returns \<open>data\<close>.\<close>

definition readQueryFromClient :: "nat \<Rightarrow> byte list \<Rightarrow> server \<Rightarrow> inbuf \<Rightarrow> (server \<times> inbuf) option" where
  "readQueryFromClient c data s q = processInputBuffer c s (q\<lparr>querybuf := querybuf q @ data\<rparr>)"

fun read_all :: "nat \<Rightarrow> byte list list \<Rightarrow> server \<Rightarrow> inbuf \<Rightarrow> (server \<times> inbuf) option" where
  "read_all c [] s q = Some (s, q)"
| "read_all c (d # ds) s q = Option.bind (readQueryFromClient c d s q) (\<lambda>(s, q). read_all c ds s q)"

section \<open>Reading what was written\<close>

abbreviation crlf :: "byte list" where
  "crlf \<equiv> [13, 10]"

definition bulk :: "sds \<Rightarrow> byte list" where
  "bulk a = num_line 36 (int (length a)) @ a @ crlf"

definition enc :: "sds list \<Rightarrow> byte list" where
  "enc av = num_line 42 (int (length av)) @ concat (map bulk av)"

lemma enc_eq: "catAppendOnlyGenericCommand dst av = dst @ enc av"
  unfolding catAppendOnlyGenericCommand_def enc_def bulk_def by (rule refl)

lemma num_line_repr: "int64 n \<Longrightarrow> num_line ch n = ch # ll_repr n @ crlf"
  using ll2string_spec [of n 31 "replicate 31 0"] ll_repr_length [of n]
  by (simp add: num_line_def split: if_splits)

lemma ll_repr_bytes: "b \<in> set (ll_repr n) \<Longrightarrow> b \<noteq> 13 \<and> b \<noteq> 0"
  using dec_digits [of "nat n"] dec_digits [of "nat (- n)"]
  by (auto simp: ll_repr_def is_digit_def list_all_iff split: if_splits)

lemma prefix_split:
  assumes "U @ F = A @ B"
  shows "length A \<le> length U \<Longrightarrow> \<exists>V. U = A @ V \<and> B = V @ F" and "length U \<le> length A \<Longrightarrow> \<exists>r. A = U @ r"
  using assms by (auto simp: append_eq_append_conv2)

text \<open>What \<open>strchr\<close> finds in a prefix of a number line followed by more data.\<close>

lemma number_line:
  assumes U: "U @ F = num_line ch n @ X" and n: "int64 n" and ch: "ch \<noteq> 13" "ch \<noteq> 0"
  obtains (short) "strchr U 13 = None" "length U \<le> 22" "F \<noteq> []"
    | (cut) "strchr U 13 = Some (Suc (length (ll_repr n)))" "int (Suc (length (ll_repr n))) > int (length U) - 2" "F \<noteq> []"
    | (whole) U' where "U = num_line ch n @ U'" "X = U' @ F" "strchr U 13 = Some (Suc (length (ll_repr n)))"
proof -
  let ?h = "ch # ll_repr n"
  let ?P = "\<lambda>b. b \<noteq> 13 \<and> b \<noteq> (0 :: byte)"
  have nl: "num_line ch n = ?h @ crlf" using num_line_repr [OF n] by simp
  have h: "\<forall>b \<in> set ?h. ?P b" using ch ll_repr_bytes by auto
  have len: "length ?h \<le> 22" using ll_repr_length [OF n] by simp
  have UF: "U @ F = ?h @ crlf @ X" using U nl by simp
  show thesis
  proof (cases "length U \<le> length ?h")
    case True
    then obtain r where r: "?h = U @ r" using prefix_split(2) [OF UF] by blast
    then have tw: "takeWhile ?P U = U" using h by (auto simp: takeWhile_eq_all_conv)
    have "strchr U 13 = None" unfolding strchr_def tw Let_def by simp
    moreover have "F \<noteq> []" using arg_cong [OF UF, of length] True by auto
    ultimately show thesis using True len by (intro short) simp_all
  next
    case False
    then obtain W where W: "U = ?h @ W" "W @ F = crlf @ X" "W \<noteq> []"
      using prefix_split(1) [OF UF] by (metis append_Nil2 nat_le_linear order_refl)
    have "takeWhile ?P U = ?h" using h W by (cases W) (auto simp: takeWhile_append)
    then have s: "strchr U 13 = Some (length ?h)" using W by (cases W) (auto simp: strchr_def nth_append)
    show thesis
    proof (cases "length W \<ge> 2")
      case True
      then obtain U' where "W = crlf @ U'" using W by (cases W; cases "tl W") auto
      then show thesis using W s nl by (intro whole [of U']) auto
    next
      case False
      then have "length W = 1" using W(3) by (cases W) (auto simp: Suc_le_eq)
      then have "F \<noteq> []" using W(2) by (cases W) auto
      then show thesis using W s False by (intro cut) auto
    qed
  qed
qed

text \<open>The states in the middle of a request: before a length line, and before the bytes of an argument.\<close>

definition await_len :: "inbuf \<Rightarrow> sds list \<Rightarrow> sds list \<Rightarrow> bool" where
  "await_len q got todo \<longleftrightarrow> multibulklen q = int (length todo) \<and> bulklen q = -1 \<and> iargv q = got \<and>
     reqtype q = Some PROTO_REQ_MULTIBULK \<and> qb_pos q \<le> length (querybuf q)"

definition await_bulk :: "inbuf \<Rightarrow> sds list \<Rightarrow> sds \<Rightarrow> sds list \<Rightarrow> bool" where
  "await_bulk q got a todo \<longleftrightarrow> multibulklen q = int (length todo) + 1 \<and> bulklen q = int (length a) \<and> iargv q = got \<and>
     reqtype q = Some PROTO_REQ_MULTIBULK \<and> qb_pos q \<le> length (querybuf q)"

lemma sdsrange_tail: "n \<le> length s \<Longrightarrow> sdsrange s (int n) (-1) = drop n s"
  by (cases "n = length s") (auto simp: sdsrange_def Let_def)

lemma read_bulklen_spec:
  assumes q: "await_len q got (a # todo)" and U: "unread q @ F = bulk a @ X" and a: "int (length a) \<le> proto_max_bulk_len"
  shows "read_bulklen c s q = Inl (s, q) \<and> F \<noteq> [] \<or>
    (\<exists>q'. read_bulklen c s q = Inr q' \<and> await_bulk q' got a todo \<and> unread q' @ F = a @ crlf @ X)"
proof -
  let ?n = "int (length a)"
  have n: "int64 ?n" using a by (simp add: int_fits_def proto_max_bulk_len_def)
  have b: "bulklen q = -1" using q by (simp add: await_len_def)
  have U': "unread q @ F = num_line 36 ?n @ (a @ crlf @ X)" using U by (simp add: bulk_def)
  have ch: "(36 :: byte) \<noteq> 13" "(36 :: byte) \<noteq> 0" by simp_all
  show ?thesis
  proof (cases rule: number_line [OF U' n ch, case_names short cut whole])
    case short
    then show ?thesis using b by (simp add: read_bulklen_def PROTO_INLINE_MAX_SIZE_def)
  next
    case cut
    then show ?thesis using b by (simp add: read_bulklen_def)
  next
    case (whole V)
    let ?L = "length (ll_repr ?n)"
    have un: "unread q = 36 # ll_repr ?n @ crlf @ V" using whole(1) num_line_repr [OF n] by simp
    let ?q1 = "q\<lparr>qb_pos := qb_pos q + Suc ?L + 2\<rparr>"
    have u1: "unread ?q1 = V"
    proof -
      have "unread ?q1 = drop (Suc ?L + 2) (unread q)" by (simp add: add.commute)
      also have "\<dots> = V" unfolding un by simp
      finally show ?thesis .
    qed
    have len: "qb_pos ?q1 \<le> length (querybuf q)"
      using arg_cong [OF un, of length] q by (simp add: await_len_def)
    define q2 where "q2 = (if ?n \<ge> PROTO_MBULK_BIG_ARG \<and> int (length (unread ?q1)) \<le> ?n + 2
      then ?q1\<lparr>querybuf := sdsrange (querybuf ?q1) (int (qb_pos ?q1)) (-1), qb_pos := 0\<rparr> else ?q1)"
    have p2: "string2ll (take (Suc ?L - 1) (drop 1 (unread q))) = Some ?n" unfolding un by (simp add: string2ll_iff n)
    have r: "read_bulklen c s q = Inr (q2\<lparr>bulklen := ?n\<rparr>)"
      unfolding read_bulklen_def using b whole(3) p2 a un
      by (simp add: Let_def q2_def)
    have "unread q2 = V" "qb_pos q2 \<le> length (querybuf q2)"
      using u1 len sdsrange_tail [of "qb_pos ?q1" "querybuf q"] by (auto simp: q2_def)
    moreover have "multibulklen q2 = multibulklen q" "iargv q2 = iargv q" "reqtype q2 = reqtype q" by (auto simp: q2_def)
    ultimately show ?thesis using r q whole(2) by (simp add: await_len_def await_bulk_def)
  qed
qed

lemma take_bulk_spec:
  assumes q: "await_bulk q got a todo" and U: "unread q @ F = a @ crlf @ X" and full: "\<not> int (length (unread q)) < bulklen q + 2"
  shows "await_len (take_bulk q) (got @ [a]) todo \<and> unread (take_bulk q) @ F = X"
proof -
  have n: "nat (bulklen q) = length a" using q by (simp add: await_bulk_def)
  have "length (a @ crlf) \<le> length (unread q)" using full q by (simp add: await_bulk_def)
  then obtain V where V: "unread q = (a @ crlf) @ V" "X = V @ F"
    using prefix_split(1) [of "unread q" F "a @ crlf" X] U by auto
  have len: "qb_pos q + length a + 2 \<le> length (querybuf q)"
    using arg_cong [OF V(1), of length] q by (simp add: await_bulk_def)
  show ?thesis
  proof (cases "qb_pos q = 0 \<and> bulklen q \<ge> PROTO_MBULK_BIG_ARG \<and> length (querybuf q) = length a + 2")
    case True
    then have "V = []" "querybuf q = a @ crlf" using V by auto
    then show ?thesis using True q V n by (simp add: take_bulk_def Let_def await_len_def await_bulk_def)
  next
    case False
    then have t: "take_bulk q = q\<lparr>iargv := iargv q @ [take (length a) (unread q)], qb_pos := qb_pos q + length a + 2,
        bulklen := -1, multibulklen := multibulklen q - 1\<rparr>"
      using n by (auto simp: take_bulk_def Let_def)
    have "drop (qb_pos q + length a + 2) (querybuf q) = drop (length a + 2) (unread q)" by (simp add: add.commute add.left_commute)
    also have "\<dots> = V" unfolding V by simp
    finally have "drop (qb_pos q + length a + 2) (querybuf q) = V" .
    moreover have "take (length a) (unread q) = a" unfolding V by simp
    ultimately show ?thesis using q V(2) len by (simp add: t await_len_def await_bulk_def)
  qed
qed

definition sizes_ok :: "sds list \<Rightarrow> bool" where
  "sizes_ok av \<longleftrightarrow> av \<noteq> [] \<and> length av \<le> 1024 * 1024 \<and> (\<forall>a \<in> set av. int (length a) \<le> proto_max_bulk_len)"

text \<open>Somewhere in the middle of a request with the arguments \<open>got @ todo\<close>; \<open>R\<close> is what is still to come of it.\<close>

definition midway :: "inbuf \<Rightarrow> sds list \<Rightarrow> sds list \<Rightarrow> byte list \<Rightarrow> bool" where
  "midway q got todo R \<longleftrightarrow>
     await_len q got todo \<and> R = concat (map bulk todo) \<or>
     (\<exists>a t. todo = a # t \<and> await_bulk q got a t \<and> R = a @ crlf @ concat (map bulk t))"

text \<open>After parsing in the middle of a request with the arguments \<open>av\<close>: it is complete, or more bytes are to come.\<close>

definition progress :: "sds list \<Rightarrow> byte list \<Rightarrow> byte list \<Rightarrow> inbuf \<Rightarrow> bool \<Rightarrow> bool" where
  "progress av F X q ok \<longleftrightarrow>
     (if ok then await_len q av [] \<and> unread q @ F = X
      else F \<noteq> [] \<and> (\<exists>got todo R. todo \<noteq> [] \<and> got @ todo = av \<and> midway q got todo R \<and> unread q @ F = R @ X))"

lemma progress_waitI:
  "F \<noteq> [] \<Longrightarrow> todo \<noteq> [] \<Longrightarrow> midway q got todo R \<Longrightarrow> unread q @ F = R @ X \<Longrightarrow> progress (got @ todo) F X q False"
  by (auto simp: progress_def)

lemma bulk_loop_spec:
  assumes "midway q got todo R" "unread q @ F = R @ X" "\<forall>a \<in> set todo. int (length a) \<le> proto_max_bulk_len"
  shows "\<exists>q' ok. bulk_loop c s q = ((s, q'), ok) \<and> progress (got @ todo) F X q' ok"
  using assms
proof (induction todo arbitrary: q got R)
  case Nil
  then have "await_len q got []" "unread q @ F = X" by (auto simp: midway_def)
  then show ?case by (subst bulk_loop.simps) (auto simp: await_len_def progress_def)
next
  case (Cons a todo)
  have sz: "int (length a) \<le> proto_max_bulk_len" "\<forall>a \<in> set todo. int (length a) \<le> proto_max_bulk_len" using Cons.prems by auto
  have pos: "\<not> multibulklen q \<le> 0" using Cons.prems(1) by (auto simp: midway_def await_len_def await_bulk_def)
  let ?Y = "concat (map bulk todo) @ X"
  consider (wait) "read_bulklen c s q = Inl (s, q)" "F \<noteq> []"
    | (known) q1 where "read_bulklen c s q = Inr q1" "await_bulk q1 got a todo" "unread q1 @ F = a @ crlf @ ?Y"
  proof (cases "await_len q got (a # todo)")
    case True
    moreover from this have "unread q @ F = bulk a @ ?Y" using Cons.prems(1,2)
      by (auto simp: midway_def await_len_def await_bulk_def)
    ultimately show ?thesis using read_bulklen_spec [of q got a todo F ?Y c s] sz that by blast
  next
    case False
    then have "await_bulk q got a todo" "unread q @ F = a @ crlf @ ?Y" using Cons.prems(1,2) by (auto simp: midway_def)
    moreover from this have "read_bulklen c s q = Inr q" by (auto simp: read_bulklen_def await_bulk_def)
    ultimately show ?thesis using that by blast
  qed
  then show ?case
  proof cases
    case wait
    then have "bulk_loop c s q = ((s, q), False)" using pos by (subst bulk_loop.simps) simp
    then show ?thesis using progress_waitI [OF wait(2) _ Cons.prems(1,2)] by blast
  next
    case known
    show ?thesis
    proof (cases "int (length (unread q1)) < bulklen q1 + 2")
      case True
      then have b: "bulk_loop c s q = ((s, q1), False)" using pos known(1) by (subst bulk_loop.simps) simp
      have "midway q1 got (a # todo) (a @ crlf @ concat (map bulk todo))" using known(2) by (auto simp: midway_def)
      moreover have "F \<noteq> []" using True known(2) arg_cong [OF known(3), of length] by (auto simp: await_bulk_def)
      ultimately have "progress (got @ a # todo) F X q1 False" using known(3) by (intro progress_waitI) simp_all
      then show ?thesis using b by blast
    next
      case False
      have t: "await_len (take_bulk q1) (got @ [a]) todo" "unread (take_bulk q1) @ F = ?Y"
        using take_bulk_spec [OF known(2,3) False] by auto
      have "bulk_loop c s q = bulk_loop c s (take_bulk q1)" using pos known(1) False by (subst bulk_loop.simps) simp
      moreover have "midway (take_bulk q1) (got @ [a]) todo (concat (map bulk todo))" using t by (simp add: midway_def)
      ultimately show ?thesis using Cons.IH [OF _ t(2) sz(2), of "got @ [a]"] by simp
    qed
  qed
qed

text \<open>Between requests, or at the beginning of one whose first line is incomplete.\<close>

definition idle :: "inbuf \<Rightarrow> bool" where
  "idle q \<longleftrightarrow> multibulklen q = 0 \<and> bulklen q = -1 \<and> iargv q = [] \<and> reqtype q \<noteq> Some PROTO_REQ_INLINE \<and> qb_pos q \<le> length (querybuf q)"

definition expects :: "inbuf \<Rightarrow> sds list list \<Rightarrow> byte list \<Rightarrow> bool" where
  "expects q avs R \<longleftrightarrow>
     idle q \<and> R = concat (map enc avs) \<or>
     (\<exists>got todo rest R'. avs = (got @ todo) # rest \<and> todo \<noteq> [] \<and> midway q got todo R' \<and> R = R' @ concat (map enc rest))"

lemma multibulk_idle:
  assumes q: "idle q" and av: "sizes_ok av" and U: "unread q @ F = enc av @ X" and t: "reqtype q = Some PROTO_REQ_MULTIBULK"
  shows "processMultibulkBuffer c s q = Some ((s, q), False) \<and> F \<noteq> [] \<or>
    (\<exists>q' ok. processMultibulkBuffer c s q = Some ((s, q'), ok) \<and> progress av F X q' ok)"
proof -
  let ?n = "int (length av)"
  have n: "int64 ?n" "?n \<le> 1024 * 1024" "\<not> ?n \<le> 0" using av by (simp_all add: int_fits_def sizes_ok_def)
  have z: "multibulklen q = 0" "iargv q = []" using q by (simp_all add: idle_def)
  have U': "unread q @ F = num_line 42 ?n @ (concat (map bulk av) @ X)" using U by (simp add: enc_def)
  have ch: "(42 :: byte) \<noteq> 13" "(42 :: byte) \<noteq> 0" by simp_all
  show ?thesis
  proof (cases rule: number_line [OF U' n(1) ch, case_names short cut whole])
    case short
    then show ?thesis using z by (simp add: processMultibulkBuffer_def PROTO_INLINE_MAX_SIZE_def)
  next
    case cut
    then show ?thesis using z by (simp add: processMultibulkBuffer_def)
  next
    case (whole V)
    let ?L = "length (ll_repr ?n)"
    have un: "unread q = 42 # ll_repr ?n @ crlf @ V" using whole(1) num_line_repr [OF n(1)] by simp
    let ?q1 = "q\<lparr>qb_pos := qb_pos q + Suc ?L + 2, multibulklen := ?n\<rparr>"
    have "unread ?q1 = drop (Suc ?L + 2) (unread q)" by (simp add: add.commute)
    then have u1: "unread ?q1 = V" unfolding un by simp
    have len: "qb_pos ?q1 \<le> length (querybuf ?q1)" using arg_cong [OF un, of length] q by (simp add: idle_def)
    have p: "string2ll (take (Suc ?L - 1) (drop 1 (unread q))) = Some ?n" unfolding un by (simp add: string2ll_iff n)
    have r: "processMultibulkBuffer c s q = Some (bulk_loop c s ?q1)"
      unfolding processMultibulkBuffer_def using z whole(3) p n un by (simp add: Let_def)
    have "midway ?q1 [] av (concat (map bulk av))" using q t len by (simp add: midway_def await_len_def idle_def)
    moreover have "unread ?q1 @ F = concat (map bulk av) @ X" using u1 whole(2) by simp
    ultimately show ?thesis
      using bulk_loop_spec [of ?q1 "[]" av "concat (map bulk av)" F X c s] av by (simp add: r sizes_ok_def)
  qed
qed

section \<open>Serving a connection\<close>

text \<open>The reference: the requests are executed one after the other, until the connection is to be closed.\<close>

fun serve :: "nat \<Rightarrow> sds list list \<Rightarrow> server \<Rightarrow> server option" where
  "serve c [] s = Some (s\<lparr>current_client := None\<rparr>)"
| "serve c (av # avs) s =
     (if closing c s then Some (s\<lparr>current_client := None\<rparr>)
      else Option.bind (run_command c av s)
        (\<lambda>(s, ok). serve c avs (if ok then upd_client c (\<lambda>cl. cl\<lparr>argv := []\<rparr>) s else s)))"

lemma run_command_cc: "run_command c av (s\<lparr>current_client := x\<rparr>) = run_command c av s"
  by (simp add: run_command_def)

lemma serve_cc: "serve c avs (s\<lparr>current_client := x\<rparr>) = serve c avs s"
  by (cases avs) (simp_all add: run_command_cc)

lemma serve_closing: "closing c s \<Longrightarrow> serve c avs s = Some (s\<lparr>current_client := None\<rparr>)"
  by (cases avs) simp_all

lemma run_command_err: "run_command c av s = Some (s', False) \<Longrightarrow> closing c s'"
  by (auto simp: run_command_def processCommand_def Let_def upd_client_def split: bind_splits if_splits option.splits)

lemma expects_Nil: "expects q avs [] \<Longrightarrow> avs = []"
  by (cases avs) (auto simp: expects_def midway_def enc_def num_line_def bulk_def neq_Nil_conv)

lemma expects_pos: "expects q avs R \<Longrightarrow> qb_pos q \<le> length (querybuf q)"
  by (auto simp: expects_def idle_def midway_def await_len_def await_bulk_def)

lemma expects_cong:
  assumes "expects q avs R" "qb_pos q' \<le> length (querybuf q')" "reqtype q' = reqtype q" "multibulklen q' = multibulklen q"
    "bulklen q' = bulklen q" "iargv q' = iargv q"
  shows "expects q' avs R"
  using assms by (auto simp: expects_def idle_def midway_def await_len_def await_bulk_def)

text \<open>One call of the parser on a connection that sends the request \<open>av\<close> next.\<close>

lemma multibulk_step:
  assumes e: "expects q (av # rest) (unread q @ F)" and ok: "sizes_ok av" and ne: "unread q \<noteq> []"
  obtains q0 q' b where
    "q0 = (if reqtype q = None
       then q\<lparr>reqtype := Some (if unread q ! 0 = 42 then PROTO_REQ_MULTIBULK else PROTO_REQ_INLINE)\<rparr> else q)"
    "reqtype q0 = Some PROTO_REQ_MULTIBULK" "processMultibulkBuffer c s q0 = Some ((s, q'), b)"
    "if b then await_len q' av [] \<and> unread q' @ F = concat (map enc rest) else F \<noteq> [] \<and> expects q' (av # rest) (unread q' @ F)"
proof -
  let ?X = "concat (map enc rest)"
  define q0 where "q0 = (if reqtype q = None
       then q\<lparr>reqtype := Some (if unread q ! 0 = 42 then PROTO_REQ_MULTIBULK else PROTO_REQ_INLINE)\<rparr> else q)"
  have un: "unread q0 = unread q" by (simp add: q0_def)
  have prog: "progress av F ?X q' b \<Longrightarrow>
    if b then await_len q' av [] \<and> unread q' @ F = ?X else F \<noteq> [] \<and> expects q' (av # rest) (unread q' @ F)" for q' b
    by (fastforce simp: progress_def expects_def)
  show thesis
  proof (cases "idle q \<and> unread q @ F = enc av @ ?X")
    case True
    then have "unread q ! 0 = 42" using ne by (cases "unread q") (auto simp: enc_def num_line_def)
    then have t: "reqtype q0 = Some PROTO_REQ_MULTIBULK" "idle q0"
      using True by (auto simp: q0_def idle_def split: if_splits) (cases "reqtype q"; auto intro: req_type.exhaust)
    have "expects q0 (av # rest) (unread q0 @ F)" using True t by (simp add: expects_def un)
    then show thesis
      using multibulk_idle [OF t(2) ok _ t(1), of F ?X c s] True prog that [OF q0_def t(1)] by (auto simp: un)
  next
    case False
    then obtain got todo R where m: "av = got @ todo" "todo \<noteq> []" "midway q got todo R" "unread q @ F = R @ ?X"
      using e by (auto simp: expects_def)
    then have q: "q0 = q" "reqtype q0 = Some PROTO_REQ_MULTIBULK" "0 < multibulklen q"
      by (auto simp: q0_def midway_def await_len_def await_bulk_def)
    then have "processMultibulkBuffer c s q0 = Some (bulk_loop c s q)" by (simp add: processMultibulkBuffer_def)
    then show thesis
      using bulk_loop_spec [OF m(3,4), of c s] ok prog that [OF q0_def q(2)] by (auto simp: m(1) sizes_ok_def)
  qed
qed

lemma input_loop_spec:
  assumes "expects q avs (unread q @ F)" "\<forall>av \<in> set avs. sizes_ok av" "serve c avs s \<noteq> None"
  shows "\<exists>s1 q1 avs1. input_loop c s q = Some (s1, q1) \<and> serve c avs s = serve c avs1 s1 \<and> set avs1 \<subseteq> set avs \<and>
    (closing c s1 \<or> expects q1 avs1 (unread q1 @ F) \<and> (F = [] \<longrightarrow> avs1 = []))"
  using assms
proof (induction avs arbitrary: s q)
  case Nil
  then have "unread q = []" by (auto simp: expects_def)
  then have "input_loop c s q = Some (s, q)" by (subst input_loop.simps) simp
  then show ?case using Nil.prems by auto
next
  case (Cons av avs)
  show ?case
  proof (cases "closing c s \<or> unread q = []")
    case True
    then have "input_loop c s q = Some (s, q)" by (subst input_loop.simps) auto
    then show ?thesis using Cons.prems True expects_Nil [of q "av # avs"] by fastforce
  next
    case False
    then have go: "qb_pos q < length (querybuf q) \<and> \<not> closing c s" by auto
    obtain q0 q' b where q0: "q0 = (if reqtype q = None
        then q\<lparr>reqtype := Some (if unread q ! 0 = 42 then PROTO_REQ_MULTIBULK else PROTO_REQ_INLINE)\<rparr> else q)"
      "reqtype q0 = Some PROTO_REQ_MULTIBULK" "processMultibulkBuffer c s q0 = Some ((s, q'), b)"
      and b: "if b then await_len q' av [] \<and> unread q' @ F = concat (map enc avs)
        else F \<noteq> [] \<and> expects q' (av # avs) (unread q' @ F)"
      using multibulk_step [OF Cons.prems(1)] Cons.prems(2) False by (metis list.set_intros(1))
    have loop: "input_loop c s q = Option.bind (Some ((s, q'), b)) (\<lambda>((s, q), ok).
        if \<not> ok then Some (s, q)
        else if iargv q = [] then (case resetClient c s q of (s, q) \<Rightarrow> input_loop c s q)
        else Option.bind (run_command c (iargv q) s)
          (\<lambda>(s, ok). case (if ok then resetClient c s q else (s, q)) of (s, q) \<Rightarrow> input_loop c s q))"
      by (subst input_loop.simps) (simp only: go if_True Let_def q0(1) [symmetric] q0(2,3) option.inject req_type.distinct if_False simp_thms)
    show ?thesis
    proof (cases b)
      case False
      then show ?thesis using loop b by (intro exI [of _ s] exI [of _ q'] exI [of _ "av # avs"]) simp
    next
      case True
      then have a: "iargv q' = av" "av \<noteq> []" "qb_pos q' \<le> length (querybuf q')" "unread q' @ F = concat (map enc avs)"
        using b Cons.prems(2) by (auto simp: await_len_def sizes_ok_def)
      obtain s2 k where r: "run_command c av s = Some (s2, k)"
        using Cons.prems(3) go by (cases "run_command c av s") auto
      define s3 where "s3 = (if k then upd_client c (\<lambda>cl. cl\<lparr>argv := []\<rparr>) s2 else s2)"
      define q3 where "q3 = (if k then q'\<lparr>iargv := [], reqtype := None, multibulklen := 0, bulklen := -1\<rparr> else q')"
      have sv: "serve c (av # avs) s = serve c avs s3" using go r by (simp add: s3_def)
      have l3: "input_loop c s q = input_loop c s3 q3"
        using loop True a r by (cases k) (simp_all add: resetClient_def s3_def q3_def)
      show ?thesis
      proof (cases k)
        case True
        have "expects q3 avs (unread q3 @ F)" using True a by (simp add: q3_def expects_def idle_def)
        then have "\<exists>s1 q1 avs1. input_loop c s3 q3 = Some (s1, q1) \<and> serve c avs s3 = serve c avs1 s1 \<and> set avs1 \<subseteq> set avs \<and>
          (closing c s1 \<or> expects q1 avs1 (unread q1 @ F) \<and> (F = [] \<longrightarrow> avs1 = []))"
          using Cons.IH [of q3 s3] Cons.prems sv by simp
        then show ?thesis unfolding l3 sv by (elim exE conjE) (intro exI conjI, assumption+, auto)
      next
        case False
        then have "closing c s3" using run_command_err r by (simp add: s3_def)
        moreover from this have "input_loop c s3 q3 = Some (s3, q3)" by (subst input_loop.simps) simp
        ultimately show ?thesis unfolding l3 sv by (intro exI [of _ s3] exI [of _ q3] exI [of _ avs]) auto
      qed
    qed
  qed
qed

lemma trim_unread:
  assumes "qb_pos q \<le> length (querybuf q)"
  shows "unread (if qb_pos q \<noteq> 0 then q\<lparr>querybuf := sdsrange (querybuf q) (int (qb_pos q)) (-1), qb_pos := 0\<rparr> else q) = unread q"
  using assms by (simp add: sdsrange_tail)

lemma read_query_spec:
  assumes e: "closing c s \<or> expects q avs (unread q @ d @ F)" and ok: "\<forall>av \<in> set avs. sizes_ok av" and sv: "serve c avs s \<noteq> None"
  shows "\<exists>s1 q1 avs1. readQueryFromClient c d s q = Some (s1, q1) \<and> serve c avs s = serve c avs1 s1 \<and> set avs1 \<subseteq> set avs \<and>
    current_client s1 = None \<and> (closing c s1 \<or> expects q1 avs1 (unread q1 @ F) \<and> (F = [] \<longrightarrow> avs1 = []))"
proof -
  let ?s = "s\<lparr>current_client := Some c\<rparr>"
  let ?q = "q\<lparr>querybuf := querybuf q @ d\<rparr>"
  have "\<exists>s1 q1 avs1. input_loop c ?s ?q = Some (s1, q1) \<and> serve c avs ?s = serve c avs1 s1 \<and> set avs1 \<subseteq> set avs \<and>
    (closing c s1 \<or> expects q1 avs1 (unread q1 @ F) \<and> (F = [] \<longrightarrow> avs1 = []))"
  proof (cases "closing c s")
    case True
    then have "input_loop c ?s ?q = Some (?s, ?q)" by (subst input_loop.simps) simp
    then show ?thesis using True by auto
  next
    case False
    then have e': "expects q avs (unread q @ d @ F)" using e by blast
    have u: "unread ?q @ F = unread q @ d @ F" using expects_pos [OF e'] by simp
    have "expects ?q avs (unread ?q @ F)" unfolding u
      using expects_pos [OF e'] by (intro expects_cong [OF e']) simp_all
    from input_loop_spec [OF this ok, of c ?s] show ?thesis using sv unfolding serve_cc by blast
  qed
  then obtain s1 q1 avs1 where r: "input_loop c ?s ?q = Some (s1, q1)" "serve c avs ?s = serve c avs1 s1" "set avs1 \<subseteq> set avs"
    "closing c s1 \<or> expects q1 avs1 (unread q1 @ F) \<and> (F = [] \<longrightarrow> avs1 = [])" by blast
  define q2 where "q2 = (if qb_pos q1 \<noteq> 0 then q1\<lparr>querybuf := sdsrange (querybuf q1) (int (qb_pos q1)) (-1), qb_pos := 0\<rparr> else q1)"
  have "readQueryFromClient c d s q = Some (s1\<lparr>current_client := None\<rparr>, q2)"
    using r(1) by (simp add: readQueryFromClient_def processInputBuffer_def q2_def)
  moreover have "expects q2 avs1 (unread q2 @ F)" if x: "expects q1 avs1 (unread q1 @ F)"
  proof -
    have "unread q2 = unread q1" unfolding q2_def by (rule trim_unread [OF expects_pos [OF x]])
    moreover have "expects q2 avs1 (unread q1 @ F)"
      by (rule expects_cong [OF x]) (use expects_pos [OF x] in \<open>auto simp: q2_def\<close>)
    ultimately show ?thesis by simp
  qed
  ultimately show ?thesis using r(2-4) by (intro exI [of _ "s1\<lparr>current_client := None\<rparr>"] exI [of _ q2] exI [of _ avs1]) (auto simp: serve_cc)
qed

definition new_inbuf :: inbuf where
  "new_inbuf = \<lparr>querybuf = [], qb_pos = 0, reqtype = None, multibulklen = 0, bulklen = -1, iargv = []\<rparr>"

lemma read_all_spec:
  assumes "closing c s \<or> expects q avs (unread q @ concat ds)" "\<forall>av \<in> set avs. sizes_ok av" "serve c avs s = Some s'"
    "ds = [] \<longrightarrow> avs = []"
  shows "\<exists>s1 q1. read_all c ds s q = Some (s1, q1) \<and> s1\<lparr>current_client := None\<rparr> = s'"
  using assms
proof (induction ds arbitrary: s q avs)
  case Nil
  then show ?case by simp
next
  case (Cons d ds)
  obtain s1 q1 avs1 where r: "readQueryFromClient c d s q = Some (s1, q1)" "serve c avs s = serve c avs1 s1" "set avs1 \<subseteq> set avs"
    "closing c s1 \<or> expects q1 avs1 (unread q1 @ concat ds) \<and> (concat ds = [] \<longrightarrow> avs1 = [])"
    using read_query_spec [where c = c and s = s and q = q and avs = avs and d = d and F = "concat ds"] Cons.prems by auto
  show ?case
  proof (cases "closing c s1")
    case True
    then have "serve c [] s1 = Some s'" using r(2) Cons.prems(3) by (simp add: serve_closing)
    then show ?thesis using Cons.IH [of s1 q1 "[]"] True r(1) by simp
  next
    case False
    then show ?thesis using Cons.IH [of s1 q1 avs1] r Cons.prems by auto
  qed
qed

text \<open>C3.  Requests survive the network: however the bytes of a sequence of encoded requests (as the append-only file
  encoder writes them) are cut into reads, the server executes exactly these requests with exactly these
  arguments, in order, until a \<open>QUIT\<close> closes the connection; the input loop ends after every read.
  Hypotheses: the requests respect the protocol's limits, and executing them does not fail.\<close>

theorem requests_survive_fragmentation:
  assumes ok: "\<forall>av \<in> set avs. sizes_ok av" and data: "concat ds = concat (map (catAppendOnlyGenericCommand []) avs)"
    and sv: "serve c avs s = Some s'"
  shows "\<exists>s1 q1. read_all c ds s new_inbuf = Some (s1, q1) \<and> s1\<lparr>current_client := None\<rparr> = s'"
proof (rule read_all_spec [OF _ ok sv])
  have "catAppendOnlyGenericCommand [] = enc" by (simp add: enc_eq fun_eq_iff)
  then have "expects new_inbuf avs (unread new_inbuf @ concat ds)"
    using data by (simp add: expects_def idle_def new_inbuf_def)
  then show "closing c s \<or> expects new_inbuf avs (unread new_inbuf @ concat ds)" by blast
  then show "ds = [] \<longrightarrow> avs = []" using \<open>expects new_inbuf avs (unread new_inbuf @ concat ds)\<close> expects_Nil
    by (auto simp: new_inbuf_def)
qed

lemma lookup_ping:
  "lookupCommand [80, 73, 78, 71] = Some \<lparr>proc_of = P_ping, arity = -1, cflags = {CMD_STALE, CMD_FAST}\<rparr>"
  "strcaseeq [80, 73, 78, 71] ''quit'' = False"
  by code_simp+

lemma serve_ping:
  "map_option (\<lambda>s. reply (clients s 0)) (serve 0 [[str_bytes ''PING'']] (example_server Map.empty Map.empty)) = Some [R_pong]"
  by (simp add: run_command_def processCommand_def arg_def lookup_ping refused_def arity_error_def example_server_def
      example_client_def upd_defs Let_def call_with_def run_proc_def pingCommand_def propagate_def)

theorem requests_survive_fragmentation_witness:
  "\<exists>s1 q1. read_all 0 [take 5 (catAppendOnlyGenericCommand [] [str_bytes ''PING'']), drop 5 (catAppendOnlyGenericCommand [] [str_bytes ''PING''])]
      (example_server Map.empty Map.empty) new_inbuf = Some (s1, q1) \<and> reply (clients s1 0) = [R_pong]"
proof -
  let ?e = "catAppendOnlyGenericCommand [] [str_bytes ''PING'']"
  obtain s' where s': "serve 0 [[str_bytes ''PING'']] (example_server Map.empty Map.empty) = Some s'" "reply (clients s' 0) = [R_pong]"
    using serve_ping by auto
  have "\<forall>av \<in> set [[str_bytes ''PING'']]. sizes_ok av" by (simp add: sizes_ok_def proto_max_bulk_len_def)
  moreover have "concat [take 5 ?e, drop 5 ?e] = concat (map (catAppendOnlyGenericCommand []) [[str_bytes ''PING'']])"
    by (simp only: concat.simps append_take_drop_id list.map append_Nil2)
  ultimately obtain s1 q1 where r: "read_all 0 [take 5 ?e, drop 5 ?e] (example_server Map.empty Map.empty) new_inbuf = Some (s1, q1)"
    "s1\<lparr>current_client := None\<rparr> = s'"
    using requests_survive_fragmentation [OF _ _ s'(1)] by blast
  then have "reply (clients s1 0) = [R_pong]" using s'(2) by auto
  with r(1) show ?thesis by blast
qed

end
