(* ===== verification/Redis_Glob.thy ===== *)
theory Redis_Glob
  imports Redis_Server "HOL-Library.Sublist"
begin

text \<open>
  Glob-style pattern matching (\<open>stringmatchlen\<close> of \<open>util.c\<close>), used by \<open>KEYS\<close>, \<open>SCAN\<close>, \<open>PSUBSCRIBE\<close> and \<open>CONFIG GET\<close>.
  Pattern and string are given with their lengths; the byte after the pattern is zero, as it is for an
  sds.  \<open>char\<close> is signed.
\<close>

section \<open>The matcher\<close>

definition same_char :: "bool \<Rightarrow> byte \<Rightarrow> byte \<Rightarrow> bool" where
  "same_char nocase a b \<longleftrightarrow> (if nocase then to_lower a = to_lower b else a = b)"

definition in_range :: "bool \<Rightarrow> byte \<Rightarrow> byte \<Rightarrow> byte \<Rightarrow> bool" where
  "in_range nocase start end c \<longleftrightarrow>
     (let (start, end) = (if sint start > sint end then (end, start) else (start, end));
          low = (if nocase then to_lower else id)
      in sint (low start) \<le> sint (low c) \<and> sint (low c) \<le> sint (low end))"

text \<open>The loop over a bracket expression, from behind \<open>[\<close> or \<open>[^\<close>: whether \<open>c\<close> matches, and the pattern behind it.\<close>

function class_loop :: "bool \<Rightarrow> byte \<Rightarrow> bool \<Rightarrow> byte list \<Rightarrow> bool \<times> byte list" where
  "class_loop nocase c match pattern =
     (if pattern = [] then (match, [])
      else if hd pattern = 92 \<and> length pattern \<ge> 2
      then class_loop nocase c (match \<or> pattern ! 1 = c) (drop 2 pattern)
      else if hd pattern = 93 then (match, tl pattern)
      else if length pattern \<ge> 3 \<and> pattern ! 1 = 45
      then class_loop nocase c (match \<or> in_range nocase (pattern ! 0) (pattern ! 2) c) (drop 3 pattern)
      else class_loop nocase c (match \<or> same_char nocase (hd pattern) c) (tl pattern))"
  by pat_completeness auto
termination by (relation "measure (\<lambda>(_, _, _, p). length p)") auto

declare class_loop.simps [simp del]

lemma class_loop_length: "length (snd (class_loop nocase c m p)) \<le> length p"
  by (induction nocase c m p rule: class_loop.induct) (subst class_loop.simps, auto)

text \<open>One pattern element that is not a star, against the first byte of the string: whether it matches, and
  the pattern behind it.\<close>

definition match_one :: "bool \<Rightarrow> byte list \<Rightarrow> byte \<Rightarrow> bool \<times> byte list" where
  "match_one nocase pattern c =
     (if hd pattern = 63 then (True, tl pattern)
      else if hd pattern = 91 then
        let p = tl pattern;
            neg = (p \<noteq> [] \<and> hd p = 94);
            (match, rest) = class_loop nocase c False (if neg then tl p else p)
        in (if neg then \<not> match else match, rest)
      else
        let p = (if hd pattern = 92 \<and> length pattern \<ge> 2 then tl pattern else pattern)
        in (same_char nocase (hd p) c, tl p))"

lemma match_one_length: "p \<noteq> [] \<Longrightarrow> length (snd (match_one nocase p c)) < length p"
  using class_loop_length [of nocase c False "tl p"] class_loop_length [of nocase c False "tl (tl p)"]
  by (cases p) (auto simp: match_one_def Let_def split_beta)

text \<open>\<open>star_loop\<close> is the loop of the star case, over the suffixes of the string.\<close>

function (sequential) stringmatchlen :: "byte list \<Rightarrow> byte list \<Rightarrow> bool \<Rightarrow> bool"
  and star_loop :: "byte list \<Rightarrow> byte list \<Rightarrow> bool \<Rightarrow> bool" where
  "stringmatchlen pattern string nocase =
     (if pattern = [] \<or> string = [] then pattern = [] \<and> string = []
      else if hd pattern = 42 then
        let p = dropWhile (\<lambda>b. b = 42) pattern in
        if p = [] then True else star_loop p string nocase
      else
        case match_one nocase pattern (hd string) of
          (False, _) \<Rightarrow> False
        | (True, p) \<Rightarrow>
            if tl string = [] then dropWhile (\<lambda>b. b = 42) p = []
            else stringmatchlen p (tl string) nocase)"
| "star_loop pattern string nocase =
     (if string = [] then False
      else if stringmatchlen pattern string nocase then True
      else star_loop pattern (tl string) nocase)"
  by pat_completeness auto
termination
proof (relation "measures [\<lambda>x. case x of Inl (p, s, n) \<Rightarrow> length p | Inr (p, s, n) \<Rightarrow> length p,
    \<lambda>x. case x of Inl (p, s, n) \<Rightarrow> length s | Inr (p, s, n) \<Rightarrow> length s,
    \<lambda>x. case x of Inl _ \<Rightarrow> 0 | Inr _ \<Rightarrow> 1]", goal_cases)
  case (2 p s n q)
  then show ?case using length_dropWhile_le [of "\<lambda>b. b = 42" "tl p"] by (cases p) auto
next
  case (3 p s n x q)
  then have "length q < length p" using match_one_length [of p n "hd s"] by (metis snd_conv)
  then show ?case by simp
qed auto

declare stringmatchlen.simps [simp del]
declare star_loop.simps [simp del]

section \<open>A reference\<close>

text \<open>The elements of a pattern; in a bracket expression an escaped byte stands for itself even when case is ignored.\<close>

datatype gitem = I_exact byte | I_range byte byte | I_lit byte

datatype gelem = G_star | G_any | G_class bool "gitem list" | G_lit byte

function class_items :: "byte list \<Rightarrow> gitem list \<times> byte list" where
  "class_items p =
     (if p = [] then ([], [])
      else if hd p = 92 \<and> length p \<ge> 2 then apfst (Cons (I_exact (p ! 1))) (class_items (drop 2 p))
      else if hd p = 93 then ([], tl p)
      else if length p \<ge> 3 \<and> p ! 1 = 45 then apfst (Cons (I_range (p ! 0) (p ! 2))) (class_items (drop 3 p))
      else apfst (Cons (I_lit (hd p))) (class_items (tl p)))"
  by pat_completeness auto
termination by (relation "measure length") auto

declare class_items.simps [simp del]

text \<open>What a byte stands for: its value as a signed character, that of the small letter for a capital one when case is
  ignored.  A literal matches the bytes that stand for the same, a range those that lie between its two
  ends, ends included and in whichever order they are given; the ends are put in order before case is
  ignored.\<close>

definition folded :: "bool \<Rightarrow> int \<Rightarrow> int" where
  "folded nocase v = (if nocase \<and> v \<in> {65..90} then v + 32 else v)"

definition lit_matches :: "bool \<Rightarrow> byte \<Rightarrow> byte \<Rightarrow> bool" where
  "lit_matches nocase a c \<longleftrightarrow> folded nocase (sint a) = folded nocase (sint c)"

definition range_matches :: "bool \<Rightarrow> byte \<Rightarrow> byte \<Rightarrow> byte \<Rightarrow> bool" where
  "range_matches nocase a b c \<longleftrightarrow>
     folded nocase (sint c) \<in> {folded nocase (min (sint a) (sint b)) .. folded nocase (max (sint a) (sint b))}"

fun item_matches :: "bool \<Rightarrow> gitem \<Rightarrow> byte \<Rightarrow> bool" where
  "item_matches nocase (I_exact a) c \<longleftrightarrow> a = c"
| "item_matches nocase (I_range a b) c \<longleftrightarrow> range_matches nocase a b c"
| "item_matches nocase (I_lit a) c \<longleftrightarrow> lit_matches nocase a c"

text \<open>The first element of a pattern and what follows it.\<close>

definition parse_elem :: "byte list \<Rightarrow> gelem \<times> byte list" where
  "parse_elem p =
     (if hd p = 42 then (G_star, tl p)
      else if hd p = 63 then (G_any, tl p)
      else if hd p = 91 then
        let neg = (tl p \<noteq> [] \<and> hd (tl p) = 94)
        in apfst (G_class neg) (class_items (if neg then tl (tl p) else tl p))
      else if hd p = 92 \<and> length p \<ge> 2 then (G_lit (p ! 1), drop 2 p)
      else (G_lit (hd p), tl p))"

lemma class_items_length: "length (snd (class_items p)) \<le> length p"
  by (induction p rule: class_items.induct) (subst class_items.simps, auto)

lemma parse_elem_length: "p \<noteq> [] \<Longrightarrow> length (snd (parse_elem p)) < length p"
  using class_items_length [of "tl p"] class_items_length [of "tl (tl p)"]
  by (cases p) (auto simp: parse_elem_def Let_def)

function parse_glob :: "byte list \<Rightarrow> gelem list" where
  "parse_glob p = (if p = [] then [] else case parse_elem p of (e, p') \<Rightarrow> e # parse_glob p')"
  by pat_completeness auto
termination
proof (relation "measure length")
  fix p e p' assume "p \<noteq> []" "(e, p') = parse_elem p"
  then show "(p', p) \<in> measure length" using parse_elem_length [of p] by (metis in_measure snd_conv)
qed simp

declare parse_glob.simps [simp del]

fun elem_matches :: "bool \<Rightarrow> gelem \<Rightarrow> byte \<Rightarrow> bool" where
  "elem_matches nocase G_star c \<longleftrightarrow> True"
| "elem_matches nocase G_any c \<longleftrightarrow> True"
| "elem_matches nocase (G_class neg items) c \<longleftrightarrow> (list_ex (\<lambda>i. item_matches nocase i c) items \<noteq> neg)"
| "elem_matches nocase (G_lit a) c \<longleftrightarrow> lit_matches nocase a c"

text \<open>A star matches any sequence of bytes, every other element exactly one.\<close>

fun glob :: "bool \<Rightarrow> gelem list \<Rightarrow> byte list \<Rightarrow> bool" where
  "glob nocase [] s \<longleftrightarrow> s = []"
| "glob nocase (G_star # es) s \<longleftrightarrow> (\<exists>u v. s = u @ v \<and> glob nocase es v)"
| "glob nocase (e # es) s \<longleftrightarrow> (\<exists>c v. s = c # v \<and> elem_matches nocase e c \<and> glob nocase es v)"

section \<open>Correctness of the matcher\<close>

lemma sint_byte: "sint b = (if uint b < 128 then uint b else uint b - 256)" for b :: byte
proof -
  have "sint b = (uint b + 128) mod 256 - 128"
    by (simp add: sint_uint signed_take_bit_eq_take_bit_shift take_bit_eq_mod)
  moreover have "0 \<le> uint b" "uint b < 256" using uint_lt2p [of b] by simp_all
  moreover have "(uint b + 128) mod 256 = (uint b - 128) mod 256" using mod_add_self2 [of "uint b - 128" 256] by (simp add: add.commute)
  ultimately show ?thesis by (cases "uint b < 128") (simp_all add: mod_pos_pos_trivial)
qed

lemma sint_to_lower: "sint (to_lower b) = folded True (sint b)"
proof -
  have "uint (b + 32) = uint b + 32" if "b \<le> 90"
    using that by (simp add: uint_word_ariths word_le_def)
  then show ?thesis using uint_lt2p [of b]
    by (auto simp: to_lower_def folded_def sint_byte word_le_def)
qed

lemma in_range_matches: "in_range nocase a b c \<longleftrightarrow> range_matches nocase a b c"
  by (cases nocase) (auto simp: in_range_def range_matches_def Let_def sint_to_lower min_def max_def folded_def [of False])

lemma same_char_matches: "same_char nocase a c \<longleftrightarrow> lit_matches nocase a c"
  by (cases nocase) (auto simp: same_char_def lit_matches_def folded_def [of False] signed_word_eqI simp flip: sint_to_lower)

lemma class_loop_items:
  "class_loop nocase c m p =
     (m \<or> list_ex (\<lambda>i. item_matches nocase i c) (fst (class_items p)), snd (class_items p))"
proof (induction nocase c m p rule: class_loop.induct)
  case (1 nocase c m p)
  then show ?case using class_loop.simps [of nocase c m p] class_items.simps [of p]
    by (auto simp: in_range_matches same_char_matches)
qed

lemma match_one_elem:
  assumes "p \<noteq> []" "hd p \<noteq> 42"
  shows "match_one nocase p c = (elem_matches nocase (fst (parse_elem p)) c, snd (parse_elem p)) \<and> fst (parse_elem p) \<noteq> G_star"
  using assms by (cases p) (auto simp: match_one_def parse_elem_def Let_def class_loop_items same_char_matches apfst_def map_prod_def split_beta
      hd_conv_nth [OF length_greater_0_conv [THEN iffD1]] Suc_le_eq drop_Suc)

lemma glob_elem:
  "e \<noteq> G_star \<Longrightarrow> glob nocase (e # es) s \<longleftrightarrow> (\<exists>c v. s = c # v \<and> elem_matches nocase e c \<and> glob nocase es v)"
  by (cases e) simp_all

lemma parse_star: "parse_glob (42 # p) = G_star # parse_glob p"
  by (subst parse_glob.simps) (simp add: parse_elem_def)

lemma parse_other:
  "p \<noteq> [] \<Longrightarrow> parse_glob p = fst (parse_elem p) # parse_glob (snd (parse_elem p))"
  by (subst parse_glob.simps) (simp add: split_beta)

lemma glob_star_drop: "glob nocase (parse_glob (42 # p)) s \<longleftrightarrow> (\<exists>u v. s = u @ v \<and> glob nocase (parse_glob (dropWhile (\<lambda>b. b = 42) p)) v)"
proof (induction p arbitrary: s)
  case Nil
  then show ?case by (simp add: parse_star)
next
  case (Cons b p)
  show ?case
  proof (cases "b = 42")
    case True
    have "glob nocase (parse_glob (42 # b # p)) s \<longleftrightarrow> (\<exists>u v. s = u @ v \<and> glob nocase (parse_glob (42 # p)) v)"
      using True by (simp add: parse_star)
    also have "\<dots> \<longleftrightarrow> (\<exists>u v. s = u @ v \<and> (\<exists>u' v'. v = u' @ v' \<and> glob nocase (parse_glob (dropWhile (\<lambda>b. b = 42) p)) v'))"
      unfolding Cons.IH by (rule refl)
    also have "\<dots> \<longleftrightarrow> (\<exists>u v. s = u @ v \<and> glob nocase (parse_glob (dropWhile (\<lambda>b. b = 42) p)) v)"
      by (metis append.assoc append_Nil)
    finally show ?thesis using True by simp
  qed (simp add: parse_star)
qed

lemma glob_empty: "glob nocase (parse_glob p) [] \<longleftrightarrow> dropWhile (\<lambda>b. b = 42) p = []"
proof (induction p)
  case Nil
  then show ?case by (subst parse_glob.simps) simp
next
  case (Cons b p)
  show ?case
  proof (cases "b = 42")
    case True
    then show ?thesis using Cons by (simp add: parse_star)
  next
    case False
    then show ?thesis using match_one_elem [of "b # p"] by (simp add: parse_other glob_elem)
  qed
qed

lemma star_loop_ex:
  assumes "\<And>t. t \<noteq> [] \<Longrightarrow> suffix t s \<Longrightarrow> stringmatchlen p t nocase = P t"
  shows "star_loop p s nocase \<longleftrightarrow> (\<exists>u v. s = u @ v \<and> v \<noteq> [] \<and> P v)"
  using assms
proof (induction s)
  case Nil
  then show ?case by (subst star_loop.simps) simp
next
  case (Cons c s)
  have IH: "star_loop p s nocase \<longleftrightarrow> (\<exists>u v. s = u @ v \<and> v \<noteq> [] \<and> P v)"
    using Cons.prems by (intro Cons.IH) (auto simp: suffix_def)
  have "star_loop p (c # s) nocase \<longleftrightarrow> P (c # s) \<or> star_loop p s nocase"
    using Cons.prems [of "c # s"] by (subst star_loop.simps) simp
  also have "\<dots> \<longleftrightarrow> (\<exists>u v. c # s = u @ v \<and> v \<noteq> [] \<and> P v)"
    unfolding IH by (auto simp: Cons_eq_append_conv)
  finally show ?case .
qed

lemma stringmatchlen_glob: "s \<noteq> [] \<Longrightarrow> stringmatchlen p s nocase \<longleftrightarrow> glob nocase (parse_glob p) s"
proof (induction p arbitrary: s rule: length_induct)
  case (1 p s)
  show ?case
  proof (cases "p = []")
    case True
    then show ?thesis using 1 by (subst stringmatchlen.simps, subst parse_glob.simps) simp
  next
    case ne: False
    show ?thesis
    proof (cases "hd p = 42")
      case True
      then obtain p' where p: "p = 42 # p'" using ne by (cases p) auto
      let ?q = "dropWhile (\<lambda>b. b = 42) p'"
      have q: "length ?q < length p" using length_dropWhile_le [of _ p'] by (simp add: p le_imp_less_Suc)
      show ?thesis
      proof (cases "?q = []")
        case True
        then have "stringmatchlen p s nocase" using 1 by (subst stringmatchlen.simps) (simp add: p)
        moreover have "glob nocase (parse_glob p) s" unfolding p glob_star_drop True by (simp add: parse_glob.simps)
        ultimately show ?thesis by simp
      next
        case False
        then have idem: "dropWhile (\<lambda>b. b = 42) ?q = ?q" using hd_dropWhile [of "\<lambda>b. b = 42" p'] by (simp add: dropWhile_eq_self_iff)
        have "stringmatchlen p s nocase \<longleftrightarrow> star_loop ?q s nocase" 
          using 1 False by (subst stringmatchlen.simps) (auto simp: p)
        also have "\<dots> \<longleftrightarrow> (\<exists>u v. s = u @ v \<and> v \<noteq> [] \<and> glob nocase (parse_glob ?q) v)"
          using 1 q by (intro star_loop_ex) blast
        also have "\<dots> \<longleftrightarrow> glob nocase (parse_glob p) s"
          unfolding p glob_star_drop using glob_empty [of nocase ?q] idem False by auto
        finally show ?thesis .
      qed
    next
      case False
      obtain c t where s: "s = c # t" using 1 by (cases s) auto
      let ?p = "snd (parse_elem p)"
      have m: "match_one nocase p c = (elem_matches nocase (fst (parse_elem p)) c, ?p)" "fst (parse_elem p) \<noteq> G_star"
        using match_one_elem [OF ne False] by auto
      have "stringmatchlen p s nocase \<longleftrightarrow> elem_matches nocase (fst (parse_elem p)) c \<and> glob nocase (parse_glob ?p) t"
      proof (cases "t = []")
        case True
        then show ?thesis using ne False m by (subst stringmatchlen.simps) (simp add: s glob_empty split: bool.splits)
      next
        case nt: False
        then have "stringmatchlen ?p t nocase \<longleftrightarrow> glob nocase (parse_glob ?p) t" using 1 parse_elem_length [OF ne] by blast
        then show ?thesis using ne False m nt by (subst stringmatchlen.simps) (simp add: s split: bool.splits)
      qed
      then show ?thesis using m(2) by (simp add: parse_other [OF ne] glob_elem s)
    qed
  qed
qed

text \<open>C33.  \<open>stringmatchlen\<close> decides the glob language of the pattern: the elements are matched against the bytes of the
  string, a star against any sequence, for every string but the empty one, which is matched by the empty
  pattern only.  A literal is matched by its own byte, or when case is ignored by both cases of its letter,
  a range by the bytes between its ends, and a negated bracket expression by the bytes that none of its items matches.\<close>

theorem stringmatchlen_correct:
  "stringmatchlen pattern string nocase \<longleftrightarrow>
     (if string = [] then pattern = [] else glob nocase (parse_glob pattern) string)"
  using stringmatchlen_glob [of string pattern nocase] by (simp add: stringmatchlen.simps [of pattern "[]"])

text \<open>The exception is a deviation: a star means any sequence of bytes, but does not match the empty string.\<close>

lemma star_misses_empty: "glob nocase (parse_glob [42]) [] \<and> \<not> stringmatchlen [42] [] nocase"
  by (simp add: glob_empty stringmatchlen.simps)

end
