(* ===== verification/Redis_Pubsub.thy ===== *)
theory Redis_Pubsub
  imports Redis_Glob "HOL-Library.AList" "HOL-Library.Multiset"
begin

text \<open>
  Publish/subscribe (\<open>pubsub.c\<close>).  The server's table from channels to clients and its list of patterns, and
  for every client its channels, its patterns, the flag \<open>CLIENT_PUBSUB\<close> and its output.  The keys of
  a dictionary are a list without repetitions that is read as a set; the order in which an iterator returns
  them is arbitrary and comes with the operation that iterates (\<open>iter_order\<close>).
\<close>

section \<open>State\<close>

record pclient =
  channels :: "sds list"
  patterns :: "sds list"
  in_pubsub :: bool
  out :: "reply list"

record pubsub =
  pubsub_channels :: "(sds \<times> nat list) list"
  pubsub_patterns :: "(nat \<times> sds) list"
  pclients :: "nat \<Rightarrow> pclient"

definition upd_pclient :: "nat \<Rightarrow> (pclient \<Rightarrow> pclient) \<Rightarrow> pubsub \<Rightarrow> pubsub" where
  "upd_pclient c f ps = ps\<lparr>pclients := (pclients ps)(c := f (pclients ps c))\<rparr>"

definition send :: "nat \<Rightarrow> reply list \<Rightarrow> pubsub \<Rightarrow> pubsub" where
  "send c rs ps = upd_pclient c (\<lambda>cl. cl\<lparr>out := out cl @ rs\<rparr>) ps"

abbreviation bulk_lit :: "string \<Rightarrow> reply" where
  "bulk_lit m \<equiv> R_bulk (str_bytes m)"

definition clientSubscriptionsCount :: "nat \<Rightarrow> pubsub \<Rightarrow> nat" where
  "clientSubscriptionsCount c ps = length (channels (pclients ps c)) + length (patterns (pclients ps c))"

text \<open>
  An iterator walks the hash table slot by slot and each chain from its head; \<^term>\<open>pos\<close> gives the place of a key in this walk,
  which the hash seed, the size of the table and the history of the chains decide.  Every operation that
  iterates has it as a parameter, and any enumeration of the keys is the result of some \<^term>\<open>pos\<close>.
\<close>

definition iter_order :: "(sds \<Rightarrow> nat) \<Rightarrow> sds list \<Rightarrow> sds list" where
  "iter_order pos = sort_key pos"

section \<open>Subscribing and unsubscribing\<close>

definition pubsubSubscribeChannel :: "nat \<Rightarrow> sds \<Rightarrow> pubsub \<Rightarrow> pubsub \<times> bool" where
  "pubsubSubscribeChannel c channel ps =
     (let (ps, retval) =
        (if channel \<in> set (channels (pclients ps c)) then (ps, False)
         else
           let ps = upd_pclient c (\<lambda>cl. cl\<lparr>channels := channels cl @ [channel]\<rparr>) ps;
               cs = (case map_of (pubsub_channels ps) channel of None \<Rightarrow> [] | Some cs \<Rightarrow> cs)
           in (ps\<lparr>pubsub_channels := AList.update channel (cs @ [c]) (pubsub_channels ps)\<rparr>, True))
      in (send c [R_multibulklen 3, bulk_lit ''subscribe'', R_bulk channel,
                  R_longlong (int (clientSubscriptionsCount c ps))] ps, retval))"

text \<open>\<^const>\<open>None\<close> is a failed assertion.\<close>

definition pubsubUnsubscribeChannel :: "nat \<Rightarrow> sds \<Rightarrow> bool \<Rightarrow> pubsub \<Rightarrow> (pubsub \<times> bool) option" where
  "pubsubUnsubscribeChannel c channel notify ps = do {
     (ps, retval) \<leftarrow>
       (if channel \<in> set (channels (pclients ps c)) then
          let ps = upd_pclient c (\<lambda>cl. cl\<lparr>channels := remove1 channel (channels cl)\<rparr>) ps in
          case map_of (pubsub_channels ps) channel of
            None \<Rightarrow> None
          | Some cs \<Rightarrow>
              if c \<notin> set cs then None
              else
                let cs = remove1 c cs in
                Some (ps\<lparr>pubsub_channels := (if cs = [] then AList.delete channel (pubsub_channels ps)
                                             else AList.update channel cs (pubsub_channels ps))\<rparr>, True)
        else Some (ps, False));
     Some (if notify then send c [R_multibulklen 3, bulk_lit ''unsubscribe'', R_bulk channel,
                                  R_longlong (int (clientSubscriptionsCount c ps))] ps else ps, retval) }"

definition pubsubSubscribePattern :: "nat \<Rightarrow> sds \<Rightarrow> pubsub \<Rightarrow> pubsub \<times> bool" where
  "pubsubSubscribePattern c pat ps =
     (let (ps, retval) =
        (if pat \<in> set (patterns (pclients ps c)) then (ps, False)
         else
           let ps = upd_pclient c (\<lambda>cl. cl\<lparr>patterns := patterns cl @ [pat]\<rparr>) ps
           in (ps\<lparr>pubsub_patterns := pubsub_patterns ps @ [(c, pat)]\<rparr>, True))
      in (send c [R_multibulklen 3, bulk_lit ''psubscribe'', R_bulk pat,
                  R_longlong (int (clientSubscriptionsCount c ps))] ps, retval))"

text \<open>Deleting the node that the search in the server's list did not find is an access through \<open>NULL\<close>.\<close>

definition pubsubUnsubscribePattern :: "nat \<Rightarrow> sds \<Rightarrow> bool \<Rightarrow> pubsub \<Rightarrow> (pubsub \<times> bool) option" where
  "pubsubUnsubscribePattern c pat notify ps = do {
     (ps, retval) \<leftarrow>
       (if pat \<in> set (patterns (pclients ps c)) then
          let ps = upd_pclient c (\<lambda>cl. cl\<lparr>patterns := remove1 pat (patterns cl)\<rparr>) ps in
          if (c, pat) \<notin> set (pubsub_patterns ps) then None
          else Some (ps\<lparr>pubsub_patterns := remove1 (c, pat) (pubsub_patterns ps)\<rparr>, True)
        else Some (ps, False));
     Some (if notify then send c [R_multibulklen 3, bulk_lit ''punsubscribe'', R_bulk pat,
                                  R_longlong (int (clientSubscriptionsCount c ps))] ps else ps, retval) }"

fun unsub_channels :: "nat \<Rightarrow> bool \<Rightarrow> sds list \<Rightarrow> nat \<Rightarrow> pubsub \<Rightarrow> (pubsub \<times> nat) option" where
  "unsub_channels c notify [] cnt ps = Some (ps, cnt)"
| "unsub_channels c notify (ch # chs) cnt ps = do {
     (ps, r) \<leftarrow> pubsubUnsubscribeChannel c ch notify ps;
     unsub_channels c notify chs (cnt + (if r then 1 else 0)) ps }"

fun unsub_patterns :: "nat \<Rightarrow> bool \<Rightarrow> sds list \<Rightarrow> nat \<Rightarrow> pubsub \<Rightarrow> (pubsub \<times> nat) option" where
  "unsub_patterns c notify [] cnt ps = Some (ps, cnt)"
| "unsub_patterns c notify (p # ps') cnt ps = do {
     (ps, r) \<leftarrow> pubsubUnsubscribePattern c p notify ps;
     unsub_patterns c notify ps' (cnt + (if r then 1 else 0)) ps }"

text \<open>The iterators visit the subscriptions present at the start.\<close>

definition pubsubUnsubscribeAllChannels :: "(sds \<Rightarrow> nat) \<Rightarrow> nat \<Rightarrow> bool \<Rightarrow> pubsub \<Rightarrow> (pubsub \<times> nat) option" where
  "pubsubUnsubscribeAllChannels pos c notify ps = do {
     (ps, cnt) \<leftarrow> unsub_channels c notify (iter_order pos (channels (pclients ps c))) 0 ps;
     Some (if notify \<and> cnt = 0
           then send c [R_multibulklen 3, bulk_lit ''unsubscribe'', R_nullbulk,
                        R_longlong (int (clientSubscriptionsCount c ps))] ps else ps, cnt) }"

definition pubsubUnsubscribeAllPatterns :: "nat \<Rightarrow> bool \<Rightarrow> pubsub \<Rightarrow> (pubsub \<times> nat) option" where
  "pubsubUnsubscribeAllPatterns c notify ps = do {
     (ps, cnt) \<leftarrow> unsub_patterns c notify (patterns (pclients ps c)) 0 ps;
     Some (if notify \<and> cnt = 0
           then send c [R_multibulklen 3, bulk_lit ''punsubscribe'', R_nullbulk,
                        R_longlong (int (clientSubscriptionsCount c ps))] ps else ps, cnt) }"

section \<open>Publishing\<close>

definition message_to :: "sds \<Rightarrow> sds \<Rightarrow> reply list" where
  "message_to channel msg = [R_multibulklen 3, bulk_lit ''message'', R_bulk channel, R_bulk msg]"

definition pmessage_to :: "sds \<Rightarrow> sds \<Rightarrow> sds \<Rightarrow> reply list" where
  "pmessage_to pat channel msg = [R_multibulklen 4, bulk_lit ''pmessage'', R_bulk pat, R_bulk channel, R_bulk msg]"

definition publish_channel :: "sds \<Rightarrow> sds \<Rightarrow> nat list \<Rightarrow> pubsub \<times> nat \<Rightarrow> pubsub \<times> nat" where
  "publish_channel channel msg cs = fold (\<lambda>c (ps, n). (send c (message_to channel msg) ps, n + 1)) cs"

definition publish_patterns :: "sds \<Rightarrow> sds \<Rightarrow> (nat \<times> sds) list \<Rightarrow> pubsub \<times> nat \<Rightarrow> pubsub \<times> nat" where
  "publish_patterns channel msg =
     fold (\<lambda>(c, pat) (ps, n).
       if stringmatchlen pat channel False then (send c (pmessage_to pat channel msg) ps, n + 1) else (ps, n))"

definition pubsubPublishMessage :: "sds \<Rightarrow> sds \<Rightarrow> pubsub \<Rightarrow> pubsub \<times> nat" where
  "pubsubPublishMessage channel msg ps =
     (let cs = (case map_of (pubsub_channels ps) channel of None \<Rightarrow> [] | Some cs \<Rightarrow> cs)
      in publish_patterns channel msg (pubsub_patterns ps) (publish_channel channel msg cs (ps, 0)))"

section \<open>Commands\<close>

definition set_pubsub :: "nat \<Rightarrow> bool \<Rightarrow> pubsub \<Rightarrow> pubsub" where
  "set_pubsub c b ps = upd_pclient c (\<lambda>cl. cl\<lparr>in_pubsub := b\<rparr>) ps"

definition leave_pubsub :: "nat \<Rightarrow> pubsub \<Rightarrow> pubsub" where
  "leave_pubsub c ps = (if clientSubscriptionsCount c ps = 0 then set_pubsub c False ps else ps)"

definition subscribeCommand :: "nat \<Rightarrow> sds list \<Rightarrow> pubsub \<Rightarrow> pubsub" where
  "subscribeCommand c args ps = set_pubsub c True (fold (\<lambda>ch ps. fst (pubsubSubscribeChannel c ch ps)) args ps)"

definition unsubscribeCommand :: "(sds \<Rightarrow> nat) \<Rightarrow> nat \<Rightarrow> sds list \<Rightarrow> pubsub \<Rightarrow> pubsub option" where
  "unsubscribeCommand pos c args ps =
     map_option (\<lambda>(ps, _). leave_pubsub c ps)
       (if args = [] then pubsubUnsubscribeAllChannels pos c True ps else unsub_channels c True args 0 ps)"

definition psubscribeCommand :: "nat \<Rightarrow> sds list \<Rightarrow> pubsub \<Rightarrow> pubsub" where
  "psubscribeCommand c args ps = set_pubsub c True (fold (\<lambda>p ps. fst (pubsubSubscribePattern c p ps)) args ps)"

definition punsubscribeCommand :: "nat \<Rightarrow> sds list \<Rightarrow> pubsub \<Rightarrow> pubsub option" where
  "punsubscribeCommand c args ps =
     map_option (\<lambda>(ps, _). leave_pubsub c ps)
       (if args = [] then pubsubUnsubscribeAllPatterns c True ps else unsub_patterns c True args 0 ps)"

text \<open>Not in cluster mode; the forced propagation is outside this state.\<close>

definition publishCommand :: "nat \<Rightarrow> sds \<Rightarrow> sds \<Rightarrow> pubsub \<Rightarrow> pubsub" where
  "publishCommand c channel msg ps =
     (case pubsubPublishMessage channel msg ps of (ps, receivers) \<Rightarrow> send c [R_longlong (int receivers)] ps)"

text \<open>The text of \<open>addReplyHelp\<close> and \<open>addReplySubcommandSyntaxError\<close>; \<open>%s\<close> prints up to the first zero
  byte, and an error line has no line ends.\<close>

definition c_string :: "sds \<Rightarrow> string" where
  "c_string b = map (\<lambda>x. char_of (unat x)) (takeWhile (\<lambda>x. x \<noteq> 0) b)"

definition sdstoupper :: "sds \<Rightarrow> sds" where
  "sdstoupper = map (\<lambda>b. if 97 \<le> b \<and> b \<le> 122 then b - 32 else b)"

definition no_newlines :: "string \<Rightarrow> string" where
  "no_newlines = map (\<lambda>ch. if ch = CHR 0x0D \<or> ch = CHR 0x0A then CHR '' '' else ch)"

definition addReplyHelp :: "nat \<Rightarrow> sds list \<Rightarrow> string list \<Rightarrow> pubsub \<Rightarrow> pubsub" where
  "addReplyHelp c av help ps =
     send c (R_multibulklen (length help + 1) #
       R_status (c_string (sdstoupper (av ! 0)) @ '' <subcommand> arg arg ... arg. Subcommands are:'') # map R_status help) ps"

definition addReplySubcommandSyntaxError :: "nat \<Rightarrow> sds list \<Rightarrow> pubsub \<Rightarrow> pubsub" where
  "addReplySubcommandSyntaxError c av ps =
     send c [R_error (E_msg (no_newlines (''Unknown subcommand or wrong number of arguments for '' @ [CHR 0x27] @
       c_string (av ! 1) @ [CHR 0x27] @ ''. Try '' @ c_string (sdstoupper (av ! 0)) @ '' HELP.'')))] ps"

definition pubsub_help :: "string list" where
  "pubsub_help =
     [''CHANNELS [<pattern>] -- Return the currently active channels matching a pattern (default: all).'',
      ''NUMPAT -- Return number of subscriptions to patterns.'',
      ''NUMSUB [channel-1 .. channel-N] -- Returns the number of subscribers for the specified channels (excluding patterns, default: none).'']"

text \<open>The command table has at least two arguments for \<open>PUBSUB\<close>, its name included.\<close>

definition pubsubCommand :: "(sds \<Rightarrow> nat) \<Rightarrow> nat \<Rightarrow> sds list \<Rightarrow> pubsub \<Rightarrow> pubsub" where
  "pubsubCommand pos c av ps =
     (if length av = 2 \<and> strcaseeq (av ! 1) ''help'' then addReplyHelp c av pubsub_help ps
      else if strcaseeq (av ! 1) ''channels'' \<and> (length av = 2 \<or> length av = 3) then
        let found = filter (\<lambda>ch. length av = 2 \<or> stringmatchlen (av ! 2) ch False)
              (iter_order pos (map fst (pubsub_channels ps)))
        in send c (R_multibulklen (length found) # map R_bulk found) ps
      else if strcaseeq (av ! 1) ''numsub'' \<and> length av \<ge> 2 then
        send c (R_multibulklen ((length av - 2) * 2) #
          concat (map (\<lambda>ch. [R_bulk ch, R_longlong (case map_of (pubsub_channels ps) ch of None \<Rightarrow> 0 | Some cs \<Rightarrow> int (length cs))])
            (drop 2 av))) ps
      else if strcaseeq (av ! 1) ''numpat'' \<and> length av = 2 then
        send c [R_longlong (int (length (pubsub_patterns ps)))] ps
      else addReplySubcommandSyntaxError c av ps)"

text \<open>The part of \<open>freeClient\<close> that ends the subscriptions; the number may later name a client that
  \<open>createClient\<close> has just made.\<close>

definition new_pclient :: pclient where
  "new_pclient = \<lparr>channels = [], patterns = [], in_pubsub = False, out = []\<rparr>"

definition free_subscriptions :: "(sds \<Rightarrow> nat) \<Rightarrow> nat \<Rightarrow> pubsub \<Rightarrow> pubsub option" where
  "free_subscriptions pos c ps = do {
     (ps, _) \<leftarrow> pubsubUnsubscribeAllChannels pos c False ps;
     (ps, _) \<leftarrow> pubsubUnsubscribeAllPatterns c False ps;
     Some (upd_pclient c (\<lambda>_. new_pclient) ps) }"

text \<open>What clients do: the commands, and leaving.  The two that iterate over the client's table of channels come
  with the order of that iteration, so each occurrence may have another.\<close>

datatype pcmd =
    Subscribe nat "sds list" | Unsubscribe "sds \<Rightarrow> nat" nat "sds list" | Psubscribe nat "sds list" | Punsubscribe nat "sds list"
  | Publish nat sds sds | Leave "sds \<Rightarrow> nat" nat

fun pcmd_ok :: "pcmd \<Rightarrow> bool" where
  "pcmd_ok (Subscribe c args) = (args \<noteq> [])"
| "pcmd_ok (Psubscribe c args) = (args \<noteq> [])"
| "pcmd_ok _ = True"

fun pubsub_step :: "pcmd \<Rightarrow> pubsub \<Rightarrow> pubsub option" where
  "pubsub_step (Subscribe c args) ps = Some (subscribeCommand c args ps)"
| "pubsub_step (Unsubscribe pos c args) ps = unsubscribeCommand pos c args ps"
| "pubsub_step (Psubscribe c args) ps = Some (psubscribeCommand c args ps)"
| "pubsub_step (Punsubscribe c args) ps = punsubscribeCommand c args ps"
| "pubsub_step (Publish c ch msg) ps = Some (publishCommand c ch msg ps)"
| "pubsub_step (Leave pos c) ps = free_subscriptions pos c ps"

fun pubsub_run :: "pcmd list \<Rightarrow> pubsub \<Rightarrow> pubsub option" where
  "pubsub_run [] ps = Some ps"
| "pubsub_run (x # xs) ps = do { ps \<leftarrow> pubsub_step x ps; pubsub_run xs ps }"

definition pubsub_init :: pubsub where
  "pubsub_init = \<lparr>pubsub_channels = [], pubsub_patterns = [], pclients = (\<lambda>_. new_pclient)\<rparr>"

section \<open>Specification: clients only\<close>

text \<open>
  The specification knows the clients and no table of the server.  A subscription command changes the
  client that sent it (one reply for each channel, in the order of the iteration, when it gives up all of
  them), and a message goes to every client whose own lists ask for it.
\<close>

definition tell :: "string \<Rightarrow> reply \<Rightarrow> pclient \<Rightarrow> pclient" where
  "tell kind x cl = cl\<lparr>out := out cl @ [R_multibulklen 3, bulk_lit kind, x,
     R_longlong (int (length (channels cl) + length (patterns cl)))]\<rparr>"

definition add_new :: "'a \<Rightarrow> 'a list \<Rightarrow> 'a list" where
  "add_new x xs = (if x \<in> set xs then xs else xs @ [x])"

definition cl_subscribe :: "sds \<Rightarrow> pclient \<Rightarrow> pclient" where
  "cl_subscribe ch cl = tell ''subscribe'' (R_bulk ch) (cl\<lparr>channels := add_new ch (channels cl)\<rparr>)"

definition cl_psubscribe :: "sds \<Rightarrow> pclient \<Rightarrow> pclient" where
  "cl_psubscribe p cl = tell ''psubscribe'' (R_bulk p) (cl\<lparr>patterns := add_new p (patterns cl)\<rparr>)"

definition cl_unsubscribe :: "bool \<Rightarrow> sds \<Rightarrow> pclient \<Rightarrow> pclient" where
  "cl_unsubscribe notify ch cl =
     (if notify then tell ''unsubscribe'' (R_bulk ch) else id) (cl\<lparr>channels := remove1 ch (channels cl)\<rparr>)"

definition cl_punsubscribe :: "bool \<Rightarrow> sds \<Rightarrow> pclient \<Rightarrow> pclient" where
  "cl_punsubscribe notify p cl =
     (if notify then tell ''punsubscribe'' (R_bulk p) else id) (cl\<lparr>patterns := remove1 p (patterns cl)\<rparr>)"

definition cl_leave :: "pclient \<Rightarrow> pclient" where
  "cl_leave cl = (if channels cl = [] \<and> patterns cl = [] then cl\<lparr>in_pubsub := False\<rparr> else cl)"

definition deliveries :: "sds \<Rightarrow> sds \<Rightarrow> pclient \<Rightarrow> reply list" where
  "deliveries ch msg cl =
     (if ch \<in> set (channels cl) then message_to ch msg else []) @
     concat (map (\<lambda>p. pmessage_to p ch msg) (filter (\<lambda>p. stringmatchlen p ch False) (patterns cl)))"

definition receivers :: "sds \<Rightarrow> (nat \<Rightarrow> pclient) \<Rightarrow> nat" where
  "receivers ch f = card {c. ch \<in> set (channels (f c))} +
     card {(c, p). p \<in> set (patterns (f c)) \<and> stringmatchlen p ch False}"

fun spec_step :: "pcmd \<Rightarrow> (nat \<Rightarrow> pclient) \<Rightarrow> nat \<Rightarrow> pclient" where
  "spec_step (Subscribe c args) f = f(c := (fold cl_subscribe args (f c))\<lparr>in_pubsub := True\<rparr>)"
| "spec_step (Psubscribe c args) f = f(c := (fold cl_psubscribe args (f c))\<lparr>in_pubsub := True\<rparr>)"
| "spec_step (Unsubscribe pos c args) f = f(c := cl_leave
     (if args = [] \<and> channels (f c) = [] then tell ''unsubscribe'' R_nullbulk (f c)
      else fold (cl_unsubscribe True) (if args = [] then iter_order pos (channels (f c)) else args) (f c)))"
| "spec_step (Punsubscribe c args) f = f(c := cl_leave
     (if args = [] \<and> patterns (f c) = [] then tell ''punsubscribe'' R_nullbulk (f c)
      else fold (cl_punsubscribe True) (if args = [] then patterns (f c) else args) (f c)))"
| "spec_step (Publish c ch msg) f =
     (let g = (\<lambda>d. (f d)\<lparr>out := out (f d) @ deliveries ch msg (f d)\<rparr>)
      in g(c := (g c)\<lparr>out := out (g c) @ [R_longlong (int (receivers ch f))]\<rparr>))"
| "spec_step (Leave pos c) f = f(c := new_pclient)"

section \<open>Iteration orders\<close>

lemma iter_order_simps [simp]:
  "mset (iter_order pos xs) = mset xs" "set (iter_order pos xs) = set xs" "iter_order pos xs = [] \<longleftrightarrow> xs = []"
  "iter_order pos [] = []"
  by (simp_all add: iter_order_def flip: set_empty)

text \<open>No enumeration of the keys is left out.\<close>

lemma iter_order_any:
  assumes "distinct xs" "distinct ys" "set ys = set xs"
  obtains pos where "iter_order pos xs = ys"
proof -
  let ?pos = "\<lambda>x. the (map_of (zip ys [0..<length ys]) x)"
  have pos: "map ?pos ys = [0..<length ys]"
    using assms(2) by (intro nth_equalityI) (simp_all add: map_of_zip_nth)
  then have "inj_on ?pos (set xs)" using assms(3) by (metis distinct_map distinct_upt)
  moreover have "mset xs = mset ys" using assms by (simp add: set_eq_iff_mset_eq_distinct)
  ultimately have "sort_key ?pos xs = ys" using pos by (intro sort_key_inj_key_eq) simp_all
  then show ?thesis using that by (simp add: iter_order_def)
qed

section \<open>The tables agree with the clients\<close>

definition subscribers :: "(sds \<times> nat list) list \<Rightarrow> sds \<Rightarrow> nat list" where
  "subscribers t ch = (case map_of t ch of None \<Rightarrow> [] | Some cs \<Rightarrow> cs)"

definition chan_ok :: "(sds \<times> nat list) list \<Rightarrow> (nat \<Rightarrow> sds list) \<Rightarrow> bool" where
  "chan_ok t f \<longleftrightarrow> distinct (map fst t) \<and> (\<forall>ch. map_of t ch \<noteq> Some []) \<and>
     (\<forall>ch. distinct (subscribers t ch)) \<and> (\<forall>c. distinct (f c)) \<and>
     (\<forall>c ch. c \<in> set (subscribers t ch) \<longleftrightarrow> ch \<in> set (f c))"

definition patterns_of :: "nat \<Rightarrow> (nat \<times> sds) list \<Rightarrow> sds list" where
  "patterns_of c pats = map snd (filter (\<lambda>x. fst x = c) pats)"

definition pat_ok :: "(nat \<times> sds) list \<Rightarrow> (nat \<Rightarrow> sds list) \<Rightarrow> bool" where
  "pat_ok pats f \<longleftrightarrow> (\<forall>c. distinct (f c) \<and> patterns_of c pats = f c)"

definition tables_ok :: "pubsub \<Rightarrow> bool" where
  "tables_ok ps \<longleftrightarrow> chan_ok (pubsub_channels ps) (\<lambda>c. channels (pclients ps c)) \<and>
     pat_ok (pubsub_patterns ps) (\<lambda>c. patterns (pclients ps c))"

definition flag_ok :: "pclient \<Rightarrow> bool" where
  "flag_ok cl \<longleftrightarrow> (in_pubsub cl \<longleftrightarrow> channels cl \<noteq> [] \<or> patterns cl \<noteq> [])"

lemma chan_ok_add:
  assumes "chan_ok t f" "ch \<notin> set (f c)"
  shows "chan_ok (AList.update ch (subscribers t ch @ [c]) t) (f(c := f c @ [ch]))"
proof -
  have "subscribers (AList.update ch (subscribers t ch @ [c]) t) = (subscribers t)(ch := subscribers t ch @ [c])"
    by (auto simp: subscribers_def AList.update_conv' fun_eq_iff)
  moreover have "\<forall>k. map_of (AList.update ch (subscribers t ch @ [c]) t) k \<noteq> Some []"
    using assms by (auto simp: chan_ok_def AList.update_conv')
  ultimately show ?thesis using assms unfolding chan_ok_def by (auto simp: AList.distinct_update)
qed

lemma chan_ok_remove:
  assumes ok: "chan_ok t f" and ch: "ch \<in> set (f c)"
  obtains cs where "map_of t ch = Some cs" "c \<in> set cs"
    "chan_ok (if remove1 c cs = [] then AList.delete ch t else AList.update ch (remove1 c cs) t) (f(c := remove1 ch (f c)))"
proof -
  from ok ch have "c \<in> set (subscribers t ch)" by (simp add: chan_ok_def)
  then obtain cs where cs: "map_of t ch = Some cs" "c \<in> set cs"
    by (cases "map_of t ch") (auto simp: subscribers_def)
  let ?t = "if remove1 c cs = [] then AList.delete ch t else AList.update ch (remove1 c cs) t"
  have sub: "subscribers ?t = (subscribers t)(ch := remove1 c cs)"
    by (auto simp: subscribers_def AList.update_conv' AList.delete_conv' fun_eq_iff)
  have "distinct cs" using ok cs(1) by (auto simp: chan_ok_def subscribers_def dest: spec [of _ ch])
  moreover have "subscribers t ch = cs" using cs by (simp add: subscribers_def)
  moreover have "distinct (map fst ?t)" "\<forall>k. map_of ?t k \<noteq> Some []"
    using ok by (auto simp: chan_ok_def AList.distinct_update AList.distinct_delete AList.update_conv' AList.delete_conv'
        simp del: map_of_eq_Some_iff)
  ultimately have "chan_ok ?t (f(c := remove1 ch (f c)))"
    using ok unfolding chan_ok_def sub by (auto simp: distinct_remove1)
  then show ?thesis using that cs by blast
qed

lemma patterns_of_simps [simp]:
  "patterns_of c [] = []" "patterns_of c ((d, p) # xs) = (if d = c then p # patterns_of c xs else patterns_of c xs)"
  "patterns_of c (xs @ ys) = patterns_of c xs @ patterns_of c ys"
  by (auto simp: patterns_of_def)

lemma set_patterns_of: "p \<in> set (patterns_of c pats) \<longleftrightarrow> (c, p) \<in> set pats"
  by (force simp: patterns_of_def)

lemma patterns_of_remove1:
  "patterns_of d (remove1 (c, p) pats) = (if d = c then remove1 p (patterns_of c pats) else patterns_of d pats)"
  by (induction pats) (auto split: if_splits)

lemma pat_ok_add: "pat_ok pats f \<Longrightarrow> p \<notin> set (f c) \<Longrightarrow> pat_ok (pats @ [(c, p)]) (f(c := f c @ [p]))"
  by (auto simp: pat_ok_def)

lemma pat_ok_remove: "pat_ok pats f \<Longrightarrow> pat_ok (remove1 (c, p) pats) (f(c := remove1 p (f c)))"
  by (auto simp: pat_ok_def patterns_of_remove1)

lemma pat_ok_mem: "pat_ok pats f \<Longrightarrow> (c, p) \<in> set pats \<longleftrightarrow> p \<in> set (f c)"
  by (metis pat_ok_def set_patterns_of)

section \<open>Each operation keeps them\<close>

named_theorems pubsub_simps \<open>the state of publish/subscribe\<close>

lemma upd_pclient_simps [pubsub_simps]:
  "pclients (upd_pclient c f ps) = (pclients ps)(c := f (pclients ps c))"
  "pubsub_channels (upd_pclient c f ps) = pubsub_channels ps"
  "pubsub_patterns (upd_pclient c f ps) = pubsub_patterns ps"
  by (simp_all add: upd_pclient_def)

text \<open>\<^term>\<open>acts c g ps ps'\<close>: the step from \<^term>\<open>ps\<close> to \<^term>\<open>ps'\<close> changes client \<^term>\<open>c\<close> as \<^term>\<open>g\<close> does and no other,
  and keeps the tables.\<close>

definition acts :: "nat \<Rightarrow> (pclient \<Rightarrow> pclient) \<Rightarrow> pubsub \<Rightarrow> pubsub \<Rightarrow> bool" where
  "acts c g ps ps' \<longleftrightarrow> pclients ps' = (pclients ps)(c := g (pclients ps c)) \<and> tables_ok ps'"

lemma acts_trans: "acts c g ps ps' \<Longrightarrow> acts c h ps' ps'' \<Longrightarrow> acts c (\<lambda>cl. h (g cl)) ps ps''"
  by (simp add: acts_def)

lemma acts_tables: "acts c g ps ps' \<Longrightarrow> tables_ok ps'"
  by (simp add: acts_def)

lemma acts_client: "acts c g ps ps' \<Longrightarrow> pclients ps' c = g (pclients ps c)"
  by (simp add: acts_def)

lemma acts_cong: "acts c g ps ps' \<Longrightarrow> g (pclients ps c) = h (pclients ps c) \<Longrightarrow> acts c h ps ps'"
  by (simp add: acts_def)

lemma acts_upd:
  assumes "tables_ok ps" "channels (g (pclients ps c)) = channels (pclients ps c)" "patterns (g (pclients ps c)) = patterns (pclients ps c)"
  shows "acts c g ps (upd_pclient c g ps)"
proof -
  have "channels (((pclients ps)(c := g (pclients ps c))) d) = channels (pclients ps d)"
    "patterns (((pclients ps)(c := g (pclients ps c))) d) = patterns (pclients ps d)" for d
    using assms by auto
  then show ?thesis using assms(1) by (simp add: acts_def tables_ok_def pubsub_simps)
qed

text \<open>An operation that sets the channels of a client and the table to match, then tells the client or not.\<close>

lemma acts_channels:
  assumes "tables_ok ps" "chan_ok t ((\<lambda>d. channels (pclients ps d))(c := chs))"
  shows "acts c (\<lambda>cl. cl\<lparr>channels := chs\<rparr>) ps (upd_pclient c (\<lambda>cl. cl\<lparr>channels := chs\<rparr>) ps\<lparr>pubsub_channels := t\<rparr>)"
proof -
  have "(\<lambda>d. channels (((pclients ps)(c := (pclients ps c)\<lparr>channels := chs\<rparr>)) d)) = (\<lambda>d. channels (pclients ps d))(c := chs)"
    "(\<lambda>d. patterns (((pclients ps)(c := (pclients ps c)\<lparr>channels := chs\<rparr>)) d)) = (\<lambda>d. patterns (pclients ps d))" by auto
  then show ?thesis using assms by (simp add: acts_def tables_ok_def pubsub_simps)
qed

lemma acts_patterns:
  assumes "tables_ok ps" "pat_ok t ((\<lambda>d. patterns (pclients ps d))(c := pts))"
  shows "acts c (\<lambda>cl. cl\<lparr>patterns := pts\<rparr>) ps (upd_pclient c (\<lambda>cl. cl\<lparr>patterns := pts\<rparr>) ps\<lparr>pubsub_patterns := t\<rparr>)"
proof -
  have "(\<lambda>d. channels (((pclients ps)(c := (pclients ps c)\<lparr>patterns := pts\<rparr>)) d)) = (\<lambda>d. channels (pclients ps d))"
    "(\<lambda>d. patterns (((pclients ps)(c := (pclients ps c)\<lparr>patterns := pts\<rparr>)) d)) = (\<lambda>d. patterns (pclients ps d))(c := pts)" by auto
  then show ?thesis using assms by (simp add: acts_def tables_ok_def pubsub_simps)
qed

lemma acts_id: "tables_ok ps \<Longrightarrow> acts c (\<lambda>cl. cl) ps ps"
  by (simp add: acts_def)

lemma acts_tell:
  assumes "tables_ok ps"
  shows "acts c (tell kind x) ps
    (send c [R_multibulklen 3, bulk_lit kind, x, R_longlong (int (clientSubscriptionsCount c ps))] ps)"
proof -
  have eq: "send c [R_multibulklen 3, bulk_lit kind, x, R_longlong (int (clientSubscriptionsCount c ps))] ps =
      upd_pclient c (tell kind x) ps"
    by (simp add: send_def upd_pclient_def tell_def clientSubscriptionsCount_def)
  show ?thesis unfolding eq by (rule acts_upd [OF assms]) (simp_all add: tell_def)
qed

lemma pubsubSubscribeChannel_acts:
  assumes "tables_ok ps"
  shows "acts c (cl_subscribe ch) ps (fst (pubsubSubscribeChannel c ch ps))"
proof -
  obtain ps' where ps': "acts c (\<lambda>cl. cl\<lparr>channels := add_new ch (channels (pclients ps c))\<rparr>) ps ps'"
    "fst (pubsubSubscribeChannel c ch ps) =
       send c [R_multibulklen 3, bulk_lit ''subscribe'', R_bulk ch, R_longlong (int (clientSubscriptionsCount c ps'))] ps'"
  proof (cases "ch \<in> set (channels (pclients ps c))")
    case True
    then have "acts c (\<lambda>cl. cl\<lparr>channels := add_new ch (channels (pclients ps c))\<rparr>) ps ps"
      by (intro acts_cong [OF acts_id [OF assms]]) (simp add: add_new_def)
    then show ?thesis using that True by (simp add: pubsubSubscribeChannel_def)
  next
    case False
    have "chan_ok (AList.update ch (subscribers (pubsub_channels ps) ch @ [c]) (pubsub_channels ps))
        ((\<lambda>d. channels (pclients ps d))(c := add_new ch (channels (pclients ps c))))"
      using chan_ok_add [of "pubsub_channels ps" "\<lambda>d. channels (pclients ps d)" ch c] assms False
      by (simp add: tables_ok_def add_new_def)
    from that [OF acts_channels [OF assms this]] show ?thesis using False
      by (simp add: pubsubSubscribeChannel_def Let_def add_new_def subscribers_def upd_pclient_def)
  qed
  show ?thesis unfolding ps'(2)
    by (rule acts_cong [OF acts_trans [OF ps'(1) acts_tell [OF acts_tables [OF ps'(1)]]]]) (simp add: cl_subscribe_def)
qed


lemma pubsubSubscribePattern_acts:
  assumes "tables_ok ps"
  shows "acts c (cl_psubscribe p) ps (fst (pubsubSubscribePattern c p ps))"
proof -
  obtain ps' where ps': "acts c (\<lambda>cl. cl\<lparr>patterns := add_new p (patterns (pclients ps c))\<rparr>) ps ps'"
    "fst (pubsubSubscribePattern c p ps) =
       send c [R_multibulklen 3, bulk_lit ''psubscribe'', R_bulk p, R_longlong (int (clientSubscriptionsCount c ps'))] ps'"
  proof (cases "p \<in> set (patterns (pclients ps c))")
    case True
    then have "acts c (\<lambda>cl. cl\<lparr>patterns := add_new p (patterns (pclients ps c))\<rparr>) ps ps"
      by (intro acts_cong [OF acts_id [OF assms]]) (simp add: add_new_def)
    then show ?thesis using that True by (simp add: pubsubSubscribePattern_def)
  next
    case False
    have "pat_ok (pubsub_patterns ps @ [(c, p)]) ((\<lambda>d. patterns (pclients ps d))(c := add_new p (patterns (pclients ps c))))"
      using pat_ok_add [of "pubsub_patterns ps" "\<lambda>d. patterns (pclients ps d)" p c] assms False
      by (simp add: tables_ok_def add_new_def)
    from that [OF acts_patterns [OF assms this]] show ?thesis using False
      by (simp add: pubsubSubscribePattern_def Let_def add_new_def upd_pclient_def)
  qed
  show ?thesis unfolding ps'(2)
    by (rule acts_cong [OF acts_trans [OF ps'(1) acts_tell [OF acts_tables [OF ps'(1)]]]]) (simp add: cl_psubscribe_def)
qed

text \<open>The reply, when the caller asks for one.\<close>

lemma acts_notify:
  assumes "acts c g ps ps'"
  shows "acts c (\<lambda>cl. (if notify then tell kind x else id) (g cl)) ps
    (if notify then send c [R_multibulklen 3, bulk_lit kind, x, R_longlong (int (clientSubscriptionsCount c ps'))] ps' else ps')"
  using assms acts_trans [OF assms acts_tell [OF acts_tables [OF assms]]] by simp

lemma pubsubUnsubscribeChannel_acts:
  assumes ok: "tables_ok ps"
  obtains ps' where "pubsubUnsubscribeChannel c ch notify ps = Some (ps', ch \<in> set (channels (pclients ps c)))"
    "acts c (cl_unsubscribe notify ch) ps ps'"
proof -
  let ?n = "\<lambda>ps'. if notify then send c [R_multibulklen 3, bulk_lit ''unsubscribe'', R_bulk ch,
      R_longlong (int (clientSubscriptionsCount c ps'))] ps' else ps'"
  obtain ps' where ps': "acts c (\<lambda>cl. cl\<lparr>channels := remove1 ch (channels (pclients ps c))\<rparr>) ps ps'"
    "pubsubUnsubscribeChannel c ch notify ps = Some (?n ps', ch \<in> set (channels (pclients ps c)))"
  proof (cases "ch \<in> set (channels (pclients ps c))")
    case False
    then have "acts c (\<lambda>cl. cl\<lparr>channels := remove1 ch (channels (pclients ps c))\<rparr>) ps ps"
      by (intro acts_cong [OF acts_id [OF ok]]) (simp add: remove1_idem)
    then show ?thesis using that False by (simp add: pubsubUnsubscribeChannel_def)
  next
    case True
    from ok have "chan_ok (pubsub_channels ps) (\<lambda>d. channels (pclients ps d))" by (simp add: tables_ok_def)
    from chan_ok_remove [of _ _ ch c, OF this True] obtain cs where cs: "map_of (pubsub_channels ps) ch = Some cs" "c \<in> set cs"
      and t: "chan_ok (if remove1 c cs = [] then AList.delete ch (pubsub_channels ps)
          else AList.update ch (remove1 c cs) (pubsub_channels ps))
        ((\<lambda>d. channels (pclients ps d))(c := remove1 ch (channels (pclients ps c))))" .
    from that [OF acts_channels [OF ok t]] True cs show ?thesis
      by (simp add: pubsubUnsubscribeChannel_def Let_def upd_pclient_def)
  qed
  have "acts c (cl_unsubscribe notify ch) ps (?n ps')"
    by (rule acts_cong [OF acts_notify [OF ps'(1)]]) (simp add: cl_unsubscribe_def)
  then show ?thesis using that ps'(2) by blast
qed

lemma pubsubUnsubscribePattern_acts:
  assumes ok: "tables_ok ps"
  obtains ps' where "pubsubUnsubscribePattern c p notify ps = Some (ps', p \<in> set (patterns (pclients ps c)))"
    "acts c (cl_punsubscribe notify p) ps ps'"
proof -
  let ?n = "\<lambda>ps'. if notify then send c [R_multibulklen 3, bulk_lit ''punsubscribe'', R_bulk p,
      R_longlong (int (clientSubscriptionsCount c ps'))] ps' else ps'"
  obtain ps' where ps': "acts c (\<lambda>cl. cl\<lparr>patterns := remove1 p (patterns (pclients ps c))\<rparr>) ps ps'"
    "pubsubUnsubscribePattern c p notify ps = Some (?n ps', p \<in> set (patterns (pclients ps c)))"
  proof (cases "p \<in> set (patterns (pclients ps c))")
    case False
    then have "acts c (\<lambda>cl. cl\<lparr>patterns := remove1 p (patterns (pclients ps c))\<rparr>) ps ps"
      by (intro acts_cong [OF acts_id [OF ok]]) (simp add: remove1_idem)
    then show ?thesis using that False by (simp add: pubsubUnsubscribePattern_def)
  next
    case True
    from ok have t: "pat_ok (pubsub_patterns ps) (\<lambda>d. patterns (pclients ps d))" by (simp add: tables_ok_def)
    with True have "(c, p) \<in> set (pubsub_patterns ps)" by (simp add: pat_ok_mem)
    with that [OF acts_patterns [OF ok pat_ok_remove [OF t]]] True show ?thesis
      by (simp add: pubsubUnsubscribePattern_def Let_def upd_pclient_def)
  qed
  have "acts c (cl_punsubscribe notify p) ps (?n ps')"
    by (rule acts_cong [OF acts_notify [OF ps'(1)]]) (simp add: cl_punsubscribe_def)
  then show ?thesis using that ps'(2) by blast
qed

text \<open>Loops over arguments or subscriptions.\<close>

lemma acts_fold:
  assumes "\<And>x ps. tables_ok ps \<Longrightarrow> acts c (g x) ps (op x ps)" "tables_ok ps"
  shows "acts c (fold g xs) ps (fold op xs ps)"
  using assms(2)
proof (induction xs arbitrary: ps)
  case (Cons x xs)
  from assms(1) [OF Cons.prems] have x: "acts c (g x) ps (op x ps)" .
  from acts_trans [OF x Cons.IH [OF acts_tables [OF x]]] show ?case by simp
qed (simp add: acts_def id_def)

lemma unsub_channels_acts:
  "tables_ok ps \<Longrightarrow> \<exists>ps' n. unsub_channels c notify xs k ps = Some (ps', n) \<and>
     acts c (fold (cl_unsubscribe notify) xs) ps ps' \<and> (k < n \<longrightarrow> xs \<noteq> []) \<and> k \<le> n \<and>
     (xs \<noteq> [] \<and> hd xs \<in> set (channels (pclients ps c)) \<longrightarrow> k < n)"
proof (induction xs arbitrary: ps k)
  case (Cons x xs)
  from pubsubUnsubscribeChannel_acts [OF Cons.prems, of c x notify] obtain ps' where
    ps': "pubsubUnsubscribeChannel c x notify ps = Some (ps', x \<in> set (channels (pclients ps c)))"
      "acts c (cl_unsubscribe notify x) ps ps'" by blast
  from Cons.IH [OF acts_tables [OF ps'(2)], of "k + (if x \<in> set (channels (pclients ps c)) then 1 else 0)"] obtain ps'' n where
    "unsub_channels c notify xs (k + (if x \<in> set (channels (pclients ps c)) then 1 else 0)) ps' = Some (ps'', n)"
    "acts c (fold (cl_unsubscribe notify) xs) ps' ps''" "k + (if x \<in> set (channels (pclients ps c)) then 1 else 0) \<le> n" by blast
  with ps'(1) acts_trans [OF ps'(2) this(2)] show ?case by (simp add: comp_def split: if_splits)
qed (simp add: acts_def id_def)

lemma unsub_patterns_acts:
  "tables_ok ps \<Longrightarrow> \<exists>ps' n. unsub_patterns c notify xs k ps = Some (ps', n) \<and>
     acts c (fold (cl_punsubscribe notify) xs) ps ps' \<and> (k < n \<longrightarrow> xs \<noteq> []) \<and> k \<le> n \<and>
     (xs \<noteq> [] \<and> hd xs \<in> set (patterns (pclients ps c)) \<longrightarrow> k < n)"
proof (induction xs arbitrary: ps k)
  case (Cons x xs)
  from pubsubUnsubscribePattern_acts [OF Cons.prems, of c x notify] obtain ps' where
    ps': "pubsubUnsubscribePattern c x notify ps = Some (ps', x \<in> set (patterns (pclients ps c)))"
      "acts c (cl_punsubscribe notify x) ps ps'" by blast
  from Cons.IH [OF acts_tables [OF ps'(2)], of "k + (if x \<in> set (patterns (pclients ps c)) then 1 else 0)"] obtain ps'' n where
    "unsub_patterns c notify xs (k + (if x \<in> set (patterns (pclients ps c)) then 1 else 0)) ps' = Some (ps'', n)"
    "acts c (fold (cl_punsubscribe notify) xs) ps' ps''" "k + (if x \<in> set (patterns (pclients ps c)) then 1 else 0) \<le> n" by blast
  with ps'(1) acts_trans [OF ps'(2) this(2)] show ?case by (simp add: comp_def split: if_splits)
qed (simp add: acts_def id_def)


lemma pubsubUnsubscribeAllChannels_acts:
  assumes "tables_ok ps"
  shows "\<exists>ps' n. pubsubUnsubscribeAllChannels pos c notify ps = Some (ps', n) \<and>
    acts c (\<lambda>cl. if notify \<and> channels cl = [] then tell ''unsubscribe'' R_nullbulk cl
                else fold (cl_unsubscribe notify) (iter_order pos (channels cl)) cl) ps ps'"
proof -
  let ?xs = "iter_order pos (channels (pclients ps c))"
  have xs: "set ?xs = set (channels (pclients ps c))" by simp
  obtain ps' n where u: "unsub_channels c notify ?xs 0 ps = Some (ps', n)" and a: "acts c (fold (cl_unsubscribe notify) ?xs) ps ps'"
    and n: "n = 0 \<longleftrightarrow> ?xs = []"
    using unsub_channels_acts [OF assms, of c notify ?xs 0] xs hd_in_set [of ?xs] by blast
  show ?thesis
  proof (cases "notify \<and> ?xs = []")
    case True
    then have "ps' = ps" "n = 0" using u by simp_all
    moreover have "acts c (\<lambda>cl. if notify \<and> channels cl = [] then tell ''unsubscribe'' R_nullbulk cl
        else fold (cl_unsubscribe notify) (iter_order pos (channels cl)) cl) ps
        (send c [R_multibulklen 3, bulk_lit ''unsubscribe'', R_nullbulk, R_longlong (int (clientSubscriptionsCount c ps))] ps)"
      using True by (intro acts_cong [OF acts_tell [OF assms]]) simp
    ultimately show ?thesis using True u by (simp add: pubsubUnsubscribeAllChannels_def)
  next
    case False
    with u n have "pubsubUnsubscribeAllChannels pos c notify ps = Some (ps', n)"
      by (auto simp: pubsubUnsubscribeAllChannels_def)
    with acts_cong [OF a] False show ?thesis by (auto simp: fun_eq_iff)
  qed
qed

lemma pubsubUnsubscribeAllPatterns_acts:
  assumes "tables_ok ps"
  shows "\<exists>ps' n. pubsubUnsubscribeAllPatterns c notify ps = Some (ps', n) \<and>
    acts c (\<lambda>cl. if notify \<and> patterns cl = [] then tell ''punsubscribe'' R_nullbulk cl
                else fold (cl_punsubscribe notify) (patterns cl) cl) ps ps'"
proof -
  let ?xs = "patterns (pclients ps c)"
  obtain ps' n where u: "unsub_patterns c notify ?xs 0 ps = Some (ps', n)" and a: "acts c (fold (cl_punsubscribe notify) ?xs) ps ps'"
    and n: "n = 0 \<longleftrightarrow> ?xs = []"
    using unsub_patterns_acts [OF assms, of c notify ?xs 0] by (cases ?xs) auto
  show ?thesis
  proof (cases "notify \<and> ?xs = []")
    case True
    then have "ps' = ps" "n = 0" using u by simp_all
    moreover have "acts c (\<lambda>cl. if notify \<and> patterns cl = [] then tell ''punsubscribe'' R_nullbulk cl
        else fold (cl_punsubscribe notify) (patterns cl) cl) ps
        (send c [R_multibulklen 3, bulk_lit ''punsubscribe'', R_nullbulk, R_longlong (int (clientSubscriptionsCount c ps))] ps)"
      using True by (intro acts_cong [OF acts_tell [OF assms]]) simp
    ultimately show ?thesis using True u by (simp add: pubsubUnsubscribeAllPatterns_def)
  next
    case False
    with u n have "pubsubUnsubscribeAllPatterns c notify ps = Some (ps', n)"
      by (auto simp: pubsubUnsubscribeAllPatterns_def)
    with acts_cong [OF a] False show ?thesis by (auto simp: fun_eq_iff)
  qed
qed

lemma acts_set_pubsub: "tables_ok ps \<Longrightarrow> acts c (\<lambda>cl. cl\<lparr>in_pubsub := b\<rparr>) ps (set_pubsub c b ps)"
  unfolding set_pubsub_def by (rule acts_upd) simp_all

lemma acts_leave: "tables_ok ps \<Longrightarrow> acts c cl_leave ps (leave_pubsub c ps)"
  using acts_cong [OF acts_set_pubsub [of ps c False], of cl_leave] acts_cong [OF acts_id [of ps c], of cl_leave]
  by (auto simp: leave_pubsub_def clientSubscriptionsCount_def cl_leave_def)

lemma fold_remove1_mset: "mset ys = mset xs \<Longrightarrow> fold remove1 ys xs = []"
proof (induction ys arbitrary: xs)
  case (Cons y ys)
  from Cons.prems have "mset ys = mset (remove1 y xs)" by (metis add_mset_remove_trivial mset.simps(2) mset_remove1)
  then show ?case by (simp add: Cons.IH)
qed simp

lemma fold_remove1_self [simp]: "fold remove1 xs xs = []" "fold remove1 (iter_order pos xs) xs = []"
  by (simp_all add: fold_remove1_mset)

lemma cl_simps [pubsub_simps]:
  "channels (tell kind x cl) = channels cl" "patterns (tell kind x cl) = patterns cl" "in_pubsub (tell kind x cl) = in_pubsub cl"
  "channels (cl_unsubscribe n ch cl) = remove1 ch (channels cl)" "patterns (cl_unsubscribe n ch cl) = patterns cl"
  "patterns (cl_punsubscribe n p cl) = remove1 p (patterns cl)" "channels (cl_punsubscribe n p cl) = channels cl"
  "in_pubsub (cl_unsubscribe n ch cl) = in_pubsub cl" "in_pubsub (cl_punsubscribe n p cl) = in_pubsub cl"
  "channels (cl_subscribe ch cl) = add_new ch (channels cl)" "patterns (cl_subscribe ch cl) = patterns cl"
  "patterns (cl_psubscribe p cl) = add_new p (patterns cl)" "channels (cl_psubscribe p cl) = channels cl"
  by (simp_all add: tell_def cl_unsubscribe_def cl_punsubscribe_def cl_subscribe_def cl_psubscribe_def)

lemma fold_cl_simps [pubsub_simps]:
  "channels (fold (cl_unsubscribe n) xs cl) = fold remove1 xs (channels cl)" "patterns (fold (cl_unsubscribe n) xs cl) = patterns cl"
  "patterns (fold (cl_punsubscribe n) xs cl) = fold remove1 xs (patterns cl)" "channels (fold (cl_punsubscribe n) xs cl) = channels cl"
  "in_pubsub (fold (cl_unsubscribe n) xs cl) = in_pubsub cl" "in_pubsub (fold (cl_punsubscribe n) xs cl) = in_pubsub cl"
  "channels (fold cl_subscribe xs cl) = fold add_new xs (channels cl)" "patterns (fold cl_subscribe xs cl) = patterns cl"
  "patterns (fold cl_psubscribe xs cl) = fold add_new xs (patterns cl)" "channels (fold cl_psubscribe xs cl) = channels cl"
  by (induction xs arbitrary: cl) (simp_all add: pubsub_simps)

section \<open>Publishing reaches exactly the subscribers\<close>

lemma publish_channel_result:
  assumes "distinct cs" "publish_channel ch msg cs (ps, n) = (ps', n')"
  shows "n' = n + length cs" "pubsub_channels ps' = pubsub_channels ps" "pubsub_patterns ps' = pubsub_patterns ps"
    "pclients ps' d = (pclients ps d)\<lparr>out := out (pclients ps d) @ (if d \<in> set cs then message_to ch msg else [])\<rparr>"
  using assms
proof (induction cs arbitrary: ps n)
  case (Cons c cs)
  {
    case 1 with Cons.IH(1) show ?case by (force simp: publish_channel_def)
  next
    case 2 with Cons.IH(2) show ?case by (force simp: publish_channel_def send_def pubsub_simps)
  next
    case 3 with Cons.IH(3) show ?case by (force simp: publish_channel_def send_def pubsub_simps)
  next
    case 4 with Cons.IH(4) [of "send c (message_to ch msg) ps" "n + 1"] show ?case
      by (auto simp: publish_channel_def send_def pubsub_simps)
  }
qed (simp_all add: publish_channel_def)

lemma publish_patterns_result:
  assumes "publish_patterns ch msg pats (ps, n) = (ps', n')"
  shows "n' = n + length (filter (\<lambda>x. stringmatchlen (snd x) ch False) pats)"
    "pubsub_channels ps' = pubsub_channels ps" "pubsub_patterns ps' = pubsub_patterns ps"
    "pclients ps' d = (pclients ps d)\<lparr>out := out (pclients ps d) @
       concat (map (\<lambda>p. pmessage_to p ch msg) (filter (\<lambda>p. stringmatchlen p ch False) (patterns_of d pats)))\<rparr>"
  using assms
proof (induction pats arbitrary: ps n)
  case (Cons x pats)
  {
    case 1 with Cons.IH(1) show ?case by (force simp: publish_patterns_def split: prod.splits if_splits)
  next
    case 2 with Cons.IH(2) show ?case by (force simp: publish_patterns_def send_def pubsub_simps split: prod.splits if_splits)
  next
    case 3 with Cons.IH(3) show ?case by (force simp: publish_patterns_def send_def pubsub_simps split: prod.splits if_splits)
  next
    case 4
    obtain c p where x: "x = (c, p)" by (cases x)
    from 4 Cons.IH(4) [of "send c (pmessage_to p ch msg) ps" "n + 1"] Cons.IH(4) [of ps n] show ?case
      by (auto simp: x publish_patterns_def send_def pubsub_simps)
  }
qed (simp_all add: publish_patterns_def)

lemma distinct_patterns_of: "(\<And>c. distinct (patterns_of c pats)) \<Longrightarrow> distinct pats"
proof (induction pats)
  case (Cons x pats)
  obtain c p where x: "x = (c, p)" by (cases x)
  have "distinct (patterns_of d pats)" for d
    using Cons.prems [of d] by (simp add: x split: if_splits)
  moreover have "p \<notin> set (patterns_of c pats)" using Cons.prems [of c] by (simp add: x)
  ultimately show ?case using Cons.IH by (simp add: x set_patterns_of)
qed simp

lemma receivers_count:
  assumes "tables_ok ps"
  shows "receivers ch (pclients ps) = length (subscribers (pubsub_channels ps) ch) +
    length (filter (\<lambda>x. stringmatchlen (snd x) ch False) (pubsub_patterns ps))"
proof -
  from assms have c: "distinct (subscribers (pubsub_channels ps) ch)"
      "{c. ch \<in> set (channels (pclients ps c))} = set (subscribers (pubsub_channels ps) ch)"
    by (auto simp: tables_ok_def chan_ok_def)
  have p: "distinct (pubsub_patterns ps)"
    using assms by (intro distinct_patterns_of) (simp add: tables_ok_def pat_ok_def)
  have m: "p \<in> set (patterns (pclients ps c)) \<longleftrightarrow> (c, p) \<in> set (pubsub_patterns ps)" for c p
    using assms pat_ok_mem [of "pubsub_patterns ps" "\<lambda>c. patterns (pclients ps c)" c p] by (simp add: tables_ok_def)
  have "{(c, p). p \<in> set (patterns (pclients ps c)) \<and> stringmatchlen p ch False} =
      set (filter (\<lambda>x. stringmatchlen (snd x) ch False) (pubsub_patterns ps))" by (auto simp: m)
  moreover have "card (set (filter (\<lambda>x. stringmatchlen (snd x) ch False) (pubsub_patterns ps))) =
      length (filter (\<lambda>x. stringmatchlen (snd x) ch False) (pubsub_patterns ps))"
    using p by (intro distinct_card distinct_filter)
  ultimately show ?thesis using c by (simp add: receivers_def distinct_card)
qed

lemma pubsubPublishMessage_result:
  assumes "tables_ok ps" "pubsubPublishMessage ch msg ps = (ps', n)"
  shows "n = receivers ch (pclients ps)" "tables_ok ps'"
    "pclients ps' = (\<lambda>d. (pclients ps d)\<lparr>out := out (pclients ps d) @ deliveries ch msg (pclients ps d)\<rparr>)"
proof -
  let ?cs = "subscribers (pubsub_channels ps) ch"
  obtain ps1 n1 where 1: "publish_channel ch msg ?cs (ps, 0) = (ps1, n1)" by fastforce
  with assms(2) have 2: "publish_patterns ch msg (pubsub_patterns ps) (ps1, n1) = (ps', n)"
    by (simp add: pubsubPublishMessage_def Let_def subscribers_def)
  from assms(1) have d: "distinct ?cs" and m: "d \<in> set ?cs \<longleftrightarrow> ch \<in> set (channels (pclients ps d))"
    and p: "patterns_of d (pubsub_patterns ps) = patterns (pclients ps d)" for d
    by (simp_all add: tables_ok_def chan_ok_def pat_ok_def)
  note r1 = publish_channel_result [OF d 1] and r2 = publish_patterns_result [OF 2]
  show "n = receivers ch (pclients ps)" by (simp add: r1(1) r2(1) receivers_count [OF assms(1)])
  show cl: "pclients ps' = (\<lambda>d. (pclients ps d)\<lparr>out := out (pclients ps d) @ deliveries ch msg (pclients ps d)\<rparr>)"
    by (rule ext) (simp add: r1(4) r2(4) deliveries_def m p)
  show "tables_ok ps'" using assms(1) by (simp add: tables_ok_def r1(2,3) r2(2,3) cl)
qed

section \<open>Refinement\<close>

lemma pubsub_step_refines:
  assumes ok: "tables_ok ps"
  shows "\<exists>ps'. pubsub_step x ps = Some ps' \<and> tables_ok ps' \<and> pclients ps' = spec_step x (pclients ps)"
proof (cases x)
  case (Subscribe c args)
  note f = acts_fold [of c cl_subscribe "\<lambda>ch ps. fst (pubsubSubscribeChannel c ch ps)", OF pubsubSubscribeChannel_acts ok]
  from acts_trans [OF f acts_set_pubsub [OF acts_tables [OF f]]] show ?thesis
    by (simp add: Subscribe subscribeCommand_def acts_def)
next
  case (Psubscribe c args)
  note f = acts_fold [of c cl_psubscribe "\<lambda>p ps. fst (pubsubSubscribePattern c p ps)", OF pubsubSubscribePattern_acts ok]
  from acts_trans [OF f acts_set_pubsub [OF acts_tables [OF f]]] show ?thesis
    by (simp add: Psubscribe psubscribeCommand_def acts_def)
next
  case (Unsubscribe pos c args)
  obtain ps' n where "(if args = [] then pubsubUnsubscribeAllChannels pos c True ps else unsub_channels c True args 0 ps) = Some (ps', n)"
    and a: "acts c (\<lambda>cl. if args = [] \<and> channels cl = [] then tell ''unsubscribe'' R_nullbulk cl
      else fold (cl_unsubscribe True) (if args = [] then iter_order pos (channels cl) else args) cl) ps ps'"
    using pubsubUnsubscribeAllChannels_acts [OF ok, of pos c True] unsub_channels_acts [OF ok, of c True args 0]
    by (cases "args = []") (auto simp: acts_def)
  with acts_trans [OF a acts_leave [OF acts_tables [OF a]]] show ?thesis
    by (simp add: Unsubscribe unsubscribeCommand_def acts_def)
next
  case (Punsubscribe c args)
  obtain ps' n where "(if args = [] then pubsubUnsubscribeAllPatterns c True ps else unsub_patterns c True args 0 ps) = Some (ps', n)"
    and a: "acts c (\<lambda>cl. if args = [] \<and> patterns cl = [] then tell ''punsubscribe'' R_nullbulk cl
      else fold (cl_punsubscribe True) (if args = [] then patterns cl else args) cl) ps ps'"
    using pubsubUnsubscribeAllPatterns_acts [OF ok, of c True] unsub_patterns_acts [OF ok, of c True args 0]
    by (cases "args = []") (auto simp: acts_def)
  with acts_trans [OF a acts_leave [OF acts_tables [OF a]]] show ?thesis
    by (simp add: Punsubscribe punsubscribeCommand_def acts_def)
next
  case (Publish c ch msg)
  obtain ps' n where p: "pubsubPublishMessage ch msg ps = (ps', n)" by fastforce
  note r = pubsubPublishMessage_result [OF ok p]
  have "acts c (\<lambda>cl. cl\<lparr>out := out cl @ [R_longlong (int n)]\<rparr>) ps' (publishCommand c ch msg ps)"
    unfolding publishCommand_def p prod.case send_def by (rule acts_upd [OF r(2)]) simp_all
  then show ?thesis by (simp add: Publish acts_def r Let_def)
next
  case (Leave pos c)
  obtain ps1 n1 where 1: "pubsubUnsubscribeAllChannels pos c False ps = Some (ps1, n1)"
    "acts c (\<lambda>cl. fold (cl_unsubscribe False) (iter_order pos (channels cl)) cl) ps ps1"
    using pubsubUnsubscribeAllChannels_acts [OF ok, of pos c False] by auto
  obtain ps2 n2 where 2: "pubsubUnsubscribeAllPatterns c False ps1 = Some (ps2, n2)"
    "acts c (\<lambda>cl. fold (cl_punsubscribe False) (patterns cl) cl) ps1 ps2"
    using pubsubUnsubscribeAllPatterns_acts [OF acts_tables [OF 1(2)], of c False] by auto
  have "acts c (\<lambda>_. new_pclient) ps2 (upd_pclient c (\<lambda>_. new_pclient) ps2)"
    by (rule acts_upd [OF acts_tables [OF 2(2)]])
      (simp_all add: acts_client [OF 1(2)] acts_client [OF 2(2)] pubsub_simps new_pclient_def)
  from acts_trans [OF acts_trans [OF 1(2) 2(2)] this] show ?thesis
    by (simp add: Leave free_subscriptions_def 1 2 acts_def)
qed


lemma pubsub_run_refines:
  "tables_ok ps \<Longrightarrow> \<exists>ps'. pubsub_run xs ps = Some ps' \<and> tables_ok ps' \<and> pclients ps' = fold spec_step xs (pclients ps)"
proof (induction xs arbitrary: ps)
  case (Cons x xs)
  from pubsub_step_refines [OF Cons.prems, of x] obtain ps1 where
    "pubsub_step x ps = Some ps1" "tables_ok ps1" "pclients ps1 = spec_step x (pclients ps)" by blast
  with Cons.IH [of ps1] show ?case by simp
qed simp

lemma tables_ok_init: "tables_ok pubsub_init"
  by (simp add: tables_ok_def pubsub_init_def chan_ok_def pat_ok_def subscribers_def new_pclient_def)

lemma pclients_init: "pclients pubsub_init = (\<lambda>_. new_pclient)"
  by (simp add: pubsub_init_def)

text \<open>The subscriber flag.\<close>

lemma add_new_nonempty [simp]: "add_new x xs \<noteq> []"
  by (auto simp: add_new_def)

lemma fold_add_new_nonempty: "xs \<noteq> [] \<or> args \<noteq> [] \<Longrightarrow> fold add_new args xs \<noteq> []"
  by (induction args arbitrary: xs) auto

lemma fold_remove1_Nil [simp]: "fold remove1 args [] = []"
  by (induction args) simp_all

lemma cl_leave_flag_ok:
  assumes "flag_ok cl" "in_pubsub cl' = in_pubsub cl" "channels cl = [] \<Longrightarrow> channels cl' = []" "patterns cl = [] \<Longrightarrow> patterns cl' = []"
  shows "flag_ok (cl_leave cl')"
  using assms by (auto simp: flag_ok_def cl_leave_def)

lemma spec_step_flag_ok:
  assumes "\<And>c. flag_ok (f c)" "pcmd_ok x"
  shows "flag_ok (spec_step x f d)"
proof (cases x)
  case (Unsubscribe pos c args)
  then show ?thesis using assms(1)
    by (auto simp: Let_def fun_upd_apply pubsub_simps intro!: cl_leave_flag_ok [of "f c"])
next
  case (Punsubscribe c args)
  then show ?thesis using assms(1)
    by (auto simp: Let_def fun_upd_apply pubsub_simps intro!: cl_leave_flag_ok [of "f c"])
next
  case (Publish c ch msg)
  then show ?thesis using assms(1) by (simp add: flag_ok_def Let_def)
qed (use assms in \<open>auto simp: flag_ok_def pubsub_simps fold_add_new_nonempty new_pclient_def\<close>)

lemma fold_spec_flag_ok:
  "(\<And>c. flag_ok (f c)) \<Longrightarrow> \<forall>x\<in>set xs. pcmd_ok x \<Longrightarrow> flag_ok (fold spec_step xs f d)"
  by (induction xs arbitrary: f) (simp_all add: spec_step_flag_ok)

text \<open>A subscription lasts until the client gives it up.\<close>

fun gives_up :: "nat \<Rightarrow> sds \<Rightarrow> pcmd \<Rightarrow> bool" where
  "gives_up c ch (Unsubscribe pos d args) = (c = d \<and> (args = [] \<or> ch \<in> set args))"
| "gives_up c ch (Leave pos d) = (c = d)"
| "gives_up c ch _ = False"

lemma fold_add_new_keeps: "ch \<in> set xs \<or> ch \<in> set args \<Longrightarrow> ch \<in> set (fold add_new args xs)"
  by (induction args arbitrary: xs) (auto simp: add_new_def)

lemma fold_remove1_keeps: "ch \<in> set xs \<Longrightarrow> ch \<notin> set args \<Longrightarrow> ch \<in> set (fold remove1 args xs)"
  by (induction args arbitrary: xs) auto

lemma channels_cl_leave: "channels (cl_leave cl) = channels cl"
  by (simp add: cl_leave_def)

lemma spec_step_keeps:
  assumes "ch \<in> set (channels (f c))" "\<not> gives_up c ch x"
  shows "ch \<in> set (channels (spec_step x f c))"
proof (cases x)
  case (Unsubscribe pos d args)
  then show ?thesis using assms by (auto simp: channels_cl_leave pubsub_simps intro: fold_remove1_keeps)
next
  case (Punsubscribe d args)
  then show ?thesis using assms by (auto simp: channels_cl_leave pubsub_simps)
next
  case (Publish d ch' msg)
  then show ?thesis using assms by (auto simp: Let_def)
qed (use assms in \<open>auto simp: pubsub_simps intro: fold_add_new_keeps\<close>)

lemma fold_spec_keeps:
  "ch \<in> set (channels (f c)) \<Longrightarrow> \<forall>x\<in>set xs. \<not> gives_up c ch x \<Longrightarrow> ch \<in> set (channels (fold spec_step xs f c))"
  by (induction xs arbitrary: f) (simp_all add: spec_step_keeps)

section \<open>Properties\<close>

text \<open>C13.  Whatever the clients do, subscribe, unsubscribe, publish or disconnect, in any order and with any arguments, and in
  whatever order the iterators of their tables return the channels, no
  assertion of pubsub.c fails, the tables of the server agree with the subscriptions of the clients, and
  subscriptions and replies are those of the specification: a client that gives up all channels is told
  so once for each, in the order of the iteration, with the number of subscriptions left each time, and a message goes, once
  for the channel and once for each matching pattern (in the order in which these were subscribed), to the
  clients that asked for it and to no other, and the publisher is told how many deliveries there were.\<close>

theorem pubsub_refines:
  "\<exists>ps. pubsub_run xs pubsub_init = Some ps \<and> tables_ok ps \<and> pclients ps = fold spec_step xs (\<lambda>_. new_pclient)"
  using pubsub_run_refines [OF tables_ok_init, of xs] by (simp add: pclients_init)

text \<open>After any sequence of commands that the command table's arities admit, a client is in subscriber mode exactly
  when it has a subscription.\<close>

lemma pubsub_mode_correct:
  assumes "\<forall>x\<in>set xs. pcmd_ok x" "pubsub_run xs pubsub_init = Some ps"
  shows "in_pubsub (pclients ps c) \<longleftrightarrow> clientSubscriptionsCount c ps > 0"
proof -
  have "pclients ps = fold spec_step xs (\<lambda>_. new_pclient)"
    using pubsub_run_refines [OF tables_ok_init, of xs] assms(2) by (simp add: pclients_init)
  then have "flag_ok (pclients ps c)"
    using fold_spec_flag_ok [OF _ assms(1), of "\<lambda>_. new_pclient" c] by (simp add: flag_ok_def new_pclient_def)
  then show ?thesis by (auto simp: flag_ok_def clientSubscriptionsCount_def)
qed

text \<open>C34.  A client that subscribed to a channel and has not given the channel up since receives every message published
  there, first in the deliveries of that message.\<close>

theorem subscriber_receives:
  assumes "ch \<in> set args" "\<forall>y\<in>set ys. \<not> gives_up c ch y" "d \<noteq> c"
  shows "\<exists>ps ps' rest. pubsub_run (xs @ Subscribe c args # ys) pubsub_init = Some ps \<and>
    pubsub_step (Publish d ch msg) ps = Some ps' \<and>
    out (pclients ps' c) = out (pclients ps c) @ message_to ch msg @ rest"
proof -
  let ?f = "fold spec_step xs (\<lambda>_. new_pclient)"
  obtain ps where ps: "pubsub_run (xs @ Subscribe c args # ys) pubsub_init = Some ps" "tables_ok ps"
    "pclients ps = fold spec_step ys (spec_step (Subscribe c args) ?f)"
    using pubsub_run_refines [OF tables_ok_init, of "xs @ Subscribe c args # ys"] by (auto simp: pclients_init)
  have "ch \<in> set (channels (spec_step (Subscribe c args) ?f c))"
    using assms(1) by (simp add: pubsub_simps fold_add_new_keeps)
  then have ch: "ch \<in> set (channels (pclients ps c))" unfolding ps(3) by (rule fold_spec_keeps [OF _ assms(2)])
  from pubsub_step_refines [OF ps(2), of "Publish d ch msg"] obtain ps' where
    "pubsub_step (Publish d ch msg) ps = Some ps'" "pclients ps' = spec_step (Publish d ch msg) (pclients ps)" by blast
  with ps(1) ch assms(3) show ?thesis by (auto simp: deliveries_def Let_def)
qed

lemma example_run:
  "\<exists>ps. pubsub_run [Subscribe 1 [[97], [98]], Psubscribe 2 [[42]], Unsubscribe length 1 [[98]], Publish 3 [97] [120]] pubsub_init = Some ps \<and>
    channels (pclients ps 1) = [[97]] \<and> clientSubscriptionsCount 1 ps = 1"
  by (simp add: pubsub_init_def new_pclient_def subscribeCommand_def pubsubSubscribeChannel_def psubscribeCommand_def
      pubsubSubscribePattern_def unsubscribeCommand_def pubsubUnsubscribeChannel_def publishCommand_def pubsubPublishMessage_def
      publish_channel_def publish_patterns_def set_pubsub_def leave_pubsub_def clientSubscriptionsCount_def send_def
      upd_pclient_def Let_def)

theorem subscriber_receives_witness:
  "\<exists>ps ps' rest. pubsub_run [Psubscribe 2 [[42]], Subscribe 1 [[97], [98]], Unsubscribe length 1 [[98]], Leave length 2] pubsub_init = Some ps \<and>
    pubsub_step (Publish 3 [97] [120]) ps = Some ps' \<and>
    out (pclients ps' 1) = out (pclients ps 1) @ message_to [97] [120] @ rest"
  using subscriber_receives [of "[97]" "[[97], [98]]" "[Unsubscribe length 1 [[98]], Leave length 2]" 1 3 "[Psubscribe 2 [[42]]]" "[120]"] by simp

end
