(* ===== verification/Redis_Notify.thy ===== *)
theory Redis_Notify
  imports Redis_Server
begin

unbundle bit_operations_syntax

text \<open>
  The notification classes of keyspace events (\<open>notify.c\<close>): the configuration string and the bit mask.
\<close>

definition NOTIFY_KEYSPACE :: "32 word" where "NOTIFY_KEYSPACE = push_bit 0 1"
definition NOTIFY_KEYEVENT :: "32 word" where "NOTIFY_KEYEVENT = push_bit 1 1"
definition NOTIFY_GENERIC :: "32 word" where "NOTIFY_GENERIC = push_bit 2 1"
definition NOTIFY_STRING :: "32 word" where "NOTIFY_STRING = push_bit 3 1"
definition NOTIFY_LIST :: "32 word" where "NOTIFY_LIST = push_bit 4 1"
definition NOTIFY_SET :: "32 word" where "NOTIFY_SET = push_bit 5 1"
definition NOTIFY_HASH :: "32 word" where "NOTIFY_HASH = push_bit 6 1"
definition NOTIFY_ZSET :: "32 word" where "NOTIFY_ZSET = push_bit 7 1"
definition NOTIFY_EXPIRED :: "32 word" where "NOTIFY_EXPIRED = push_bit 8 1"
definition NOTIFY_EVICTED :: "32 word" where "NOTIFY_EVICTED = push_bit 9 1"
definition NOTIFY_STREAM :: "32 word" where "NOTIFY_STREAM = push_bit 10 1"

definition NOTIFY_ALL :: "32 word" where
  "NOTIFY_ALL = NOTIFY_GENERIC OR NOTIFY_STRING OR NOTIFY_LIST OR NOTIFY_SET OR NOTIFY_HASH OR NOTIFY_ZSET OR
     NOTIFY_EXPIRED OR NOTIFY_EVICTED OR NOTIFY_STREAM"

definition class_flag :: "byte \<Rightarrow> 32 word option" where
  "class_flag c = map_of
     [(of_char CHR ''A'', NOTIFY_ALL), (of_char CHR ''g'', NOTIFY_GENERIC), (of_char CHR ''$'', NOTIFY_STRING),
      (of_char CHR ''l'', NOTIFY_LIST), (of_char CHR ''s'', NOTIFY_SET), (of_char CHR ''h'', NOTIFY_HASH),
      (of_char CHR ''z'', NOTIFY_ZSET), (of_char CHR ''x'', NOTIFY_EXPIRED), (of_char CHR ''e'', NOTIFY_EVICTED),
      (of_char CHR ''K'', NOTIFY_KEYSPACE), (of_char CHR ''E'', NOTIFY_KEYEVENT), (of_char CHR ''t'', NOTIFY_STREAM)] c"

text \<open>\<^const>\<open>None\<close> is the result \<open>-1\<close>; the string ends at its first zero byte.\<close>

fun classes_loop :: "32 word \<Rightarrow> byte list \<Rightarrow> 32 word option" where
  "classes_loop fl [] = Some fl"
| "classes_loop fl (c # p) =
     (if c = 0 then Some fl
      else case class_flag c of None \<Rightarrow> None | Some m \<Rightarrow> classes_loop (fl OR m) p)"

definition keyspaceEventsStringToFlags :: "byte list \<Rightarrow> 32 word option" where
  "keyspaceEventsStringToFlags classes = classes_loop 0 classes"

definition cat_if :: "32 word \<Rightarrow> 32 word \<Rightarrow> char \<Rightarrow> byte list" where
  "cat_if fl m c = (if fl AND m \<noteq> 0 then [of_char c] else [])"

definition keyspaceEventsFlagsToString :: "32 word \<Rightarrow> byte list" where
  "keyspaceEventsFlagsToString fl =
     (if fl AND NOTIFY_ALL = NOTIFY_ALL then [of_char CHR ''A'']
      else cat_if fl NOTIFY_GENERIC CHR ''g'' @ cat_if fl NOTIFY_STRING CHR ''$'' @ cat_if fl NOTIFY_LIST CHR ''l'' @
        cat_if fl NOTIFY_SET CHR ''s'' @ cat_if fl NOTIFY_HASH CHR ''h'' @ cat_if fl NOTIFY_ZSET CHR ''z'' @
        cat_if fl NOTIFY_EXPIRED CHR ''x'' @ cat_if fl NOTIFY_EVICTED CHR ''e'' @ cat_if fl NOTIFY_STREAM CHR ''t'') @
     cat_if fl NOTIFY_KEYSPACE CHR ''K'' @ cat_if fl NOTIFY_KEYEVENT CHR ''E''"

section \<open>Round trip\<close>

lemmas notify_defs = NOTIFY_KEYSPACE_def NOTIFY_KEYEVENT_def NOTIFY_GENERIC_def NOTIFY_STRING_def NOTIFY_LIST_def
  NOTIFY_SET_def NOTIFY_HASH_def NOTIFY_ZSET_def NOTIFY_EXPIRED_def NOTIFY_EVICTED_def NOTIFY_STREAM_def

lemma class_flag_simps:
  "class_flag (of_char CHR ''A'') = Some NOTIFY_ALL" "class_flag (of_char CHR ''g'') = Some NOTIFY_GENERIC"
  "class_flag (of_char CHR ''$'') = Some NOTIFY_STRING" "class_flag (of_char CHR ''l'') = Some NOTIFY_LIST"
  "class_flag (of_char CHR ''s'') = Some NOTIFY_SET" "class_flag (of_char CHR ''h'') = Some NOTIFY_HASH"
  "class_flag (of_char CHR ''z'') = Some NOTIFY_ZSET" "class_flag (of_char CHR ''x'') = Some NOTIFY_EXPIRED"
  "class_flag (of_char CHR ''e'') = Some NOTIFY_EVICTED" "class_flag (of_char CHR ''K'') = Some NOTIFY_KEYSPACE"
  "class_flag (of_char CHR ''E'') = Some NOTIFY_KEYEVENT" "class_flag (of_char CHR ''t'') = Some NOTIFY_STREAM"
  by (simp_all add: class_flag_def)

definition keep :: "32 word \<Rightarrow> 32 word \<Rightarrow> 32 word" where
  "keep fl m = (if fl AND m \<noteq> 0 then m else 0)"

lemma loop_cat_if:
  assumes "class_flag (of_char c) = Some m" "of_char c \<noteq> (0 :: byte)"
  shows "classes_loop f (cat_if fl m c @ p) = classes_loop (f OR keep fl m) p"
  using assms by (simp add: cat_if_def keep_def)

lemma and_bit: "(w :: 32 word) AND 2 ^ n = (if bit w n then 2 ^ n else 0)"
  by (rule bit_eqI) (auto simp: bit_and_iff bit_exp_iff)

lemma keep_bit: "n < 32 \<Longrightarrow> keep w (push_bit n 1) = w AND push_bit n 1"
  by (auto simp: keep_def and_bit)

lemma keep_flags:
  "keep fl NOTIFY_KEYSPACE = fl AND NOTIFY_KEYSPACE" "keep fl NOTIFY_KEYEVENT = fl AND NOTIFY_KEYEVENT"
  "keep fl NOTIFY_GENERIC = fl AND NOTIFY_GENERIC" "keep fl NOTIFY_STRING = fl AND NOTIFY_STRING"
  "keep fl NOTIFY_LIST = fl AND NOTIFY_LIST" "keep fl NOTIFY_SET = fl AND NOTIFY_SET" "keep fl NOTIFY_HASH = fl AND NOTIFY_HASH"
  "keep fl NOTIFY_ZSET = fl AND NOTIFY_ZSET" "keep fl NOTIFY_EXPIRED = fl AND NOTIFY_EXPIRED"
  "keep fl NOTIFY_EVICTED = fl AND NOTIFY_EVICTED" "keep fl NOTIFY_STREAM = fl AND NOTIFY_STREAM"
  unfolding notify_defs by (rule keep_bit, simp)+

lemmas loop_steps = loop_cat_if [OF class_flag_simps(2)] loop_cat_if [OF class_flag_simps(3)] loop_cat_if [OF class_flag_simps(4)]
  loop_cat_if [OF class_flag_simps(5)] loop_cat_if [OF class_flag_simps(6)] loop_cat_if [OF class_flag_simps(7)]
  loop_cat_if [OF class_flag_simps(8)] loop_cat_if [OF class_flag_simps(9)] loop_cat_if [OF class_flag_simps(10)]
  loop_cat_if [OF class_flag_simps(11)] loop_cat_if [OF class_flag_simps(12)]
  loop_cat_if [OF class_flag_simps(11), where p = "[]", unfolded append_Nil2]

text \<open>The two conversions of the notification classes are inverse, as the comment says: reading back the string
  printed for a mask gives the mask, restricted to the eleven defined classes.\<close>

lemma keyspaceEvents_roundtrip:
  "keyspaceEventsStringToFlags (keyspaceEventsFlagsToString fl) = Some (fl AND (NOTIFY_ALL OR NOTIFY_KEYSPACE OR NOTIFY_KEYEVENT))"
proof (cases "fl AND NOTIFY_ALL = NOTIFY_ALL")
  case True
  have "keyspaceEventsStringToFlags (keyspaceEventsFlagsToString fl) =
      Some (NOTIFY_ALL OR keep fl NOTIFY_KEYSPACE OR keep fl NOTIFY_KEYEVENT)"
    using True class_flag_simps(1)
    by (simp add: keyspaceEventsStringToFlags_def keyspaceEventsFlagsToString_def loop_steps [simplified] or.assoc)
  then show ?thesis using True by (simp add: keep_flags bit.conj_disj_distrib)
next
  case False
  have "keyspaceEventsStringToFlags (keyspaceEventsFlagsToString fl) =
      Some (keep fl NOTIFY_GENERIC OR keep fl NOTIFY_STRING OR keep fl NOTIFY_LIST OR keep fl NOTIFY_SET OR keep fl NOTIFY_HASH OR
        keep fl NOTIFY_ZSET OR keep fl NOTIFY_EXPIRED OR keep fl NOTIFY_EVICTED OR keep fl NOTIFY_STREAM OR
        keep fl NOTIFY_KEYSPACE OR keep fl NOTIFY_KEYEVENT)"
    using False
    by (simp add: keyspaceEventsStringToFlags_def keyspaceEventsFlagsToString_def loop_steps [simplified] or.assoc)
  then show ?thesis by (simp add: keep_flags NOTIFY_ALL_def bit.conj_disj_distrib or.assoc)
qed

end
