(* ===== verification/Redis_List.thy ===== *)
theory Redis_List
  imports Redis_Server
begin

text \<open>
  Doubly linked lists (\<open>adlist.c\<close>) on an explicit heap of nodes.  A pointer is an address or \<^const>\<open>None\<close> for
  \<open>NULL\<close>; following \<open>NULL\<close> or a pointer to a freed node is the result \<^const>\<open>None\<close> of the whole operation.  Addresses
  are handed out in order and not used again.  The \<open>free\<close> method of a list is a log of the values given to it.
\<close>

section \<open>Heap and structures\<close>

record 'v listNode =
  nprev :: "nat option"
  nnext :: "nat option"
  nvalue :: 'v

record 'v list_heap =
  nodes :: "nat \<rightharpoonup> 'v listNode"
  brk :: nat
  freed :: "'v list"

record 'v adlist =
  lhead :: "nat option"
  ltail :: "nat option"
  dup :: "('v \<Rightarrow> 'v option) option"
  free_method :: bool
  match :: "('v \<Rightarrow> 'v \<Rightarrow> bool) option"
  llen :: nat

datatype direction = AL_START_HEAD | AL_START_TAIL

record listIter =
  inext :: "nat option"
  direction :: direction

text \<open>Reading and writing through a pointer, \<open>zmalloc\<close> of a node and \<open>zfree\<close>.\<close>

definition deref_node :: "'v list_heap \<Rightarrow> nat option \<Rightarrow> 'v listNode option" where
  "deref_node h p = Option.bind p (nodes h)"

definition set_node :: "nat option \<Rightarrow> ('v listNode \<Rightarrow> 'v listNode) \<Rightarrow> 'v list_heap \<Rightarrow> 'v list_heap option" where
  "set_node p f h = do { a \<leftarrow> p; n \<leftarrow> nodes h a; Some (h\<lparr>nodes := (nodes h)(a \<mapsto> f n)\<rparr>) }"

definition new_node :: "'v \<Rightarrow> 'v list_heap \<Rightarrow> 'v list_heap \<times> nat" where
  "new_node v h = (h\<lparr>nodes := (nodes h)(brk h \<mapsto> \<lparr>nprev = None, nnext = None, nvalue = v\<rparr>), brk := brk h + 1\<rparr>, brk h)"

definition free_node :: "nat option \<Rightarrow> 'v list_heap \<Rightarrow> 'v list_heap option" where
  "free_node p h = do { a \<leftarrow> p; _ \<leftarrow> nodes h a; Some (h\<lparr>nodes := (nodes h)(a := None)\<rparr>) }"

definition free_value :: "'v adlist \<Rightarrow> 'v \<Rightarrow> 'v list_heap \<Rightarrow> 'v list_heap" where
  "free_value l v h = (if free_method l then h\<lparr>freed := freed h @ [v]\<rparr> else h)"

section \<open>Operations\<close>

definition listCreate :: "'v adlist" where
  "listCreate = \<lparr>lhead = None, ltail = None, dup = None, free_method = False, match = None, llen = 0\<rparr>"

fun empty_loop :: "'v adlist \<Rightarrow> nat \<Rightarrow> nat option \<Rightarrow> 'v list_heap \<Rightarrow> 'v list_heap option" where
  "empty_loop l 0 current h = Some h"
| "empty_loop l (Suc len) current h = do {
     n \<leftarrow> deref_node h current;
     h \<leftarrow> free_node current (free_value l (nvalue n) h);
     empty_loop l len (nnext n) h }"

definition listEmpty :: "'v adlist \<Rightarrow> 'v list_heap \<Rightarrow> ('v list_heap \<times> 'v adlist) option" where
  "listEmpty l h = do {
     h \<leftarrow> empty_loop l (llen l) (lhead l) h;
     Some (h, l\<lparr>lhead := None, ltail := None, llen := 0\<rparr>) }"

definition listRelease :: "'v adlist \<Rightarrow> 'v list_heap \<Rightarrow> 'v list_heap option" where
  "listRelease l h = map_option fst (listEmpty l h)"

definition listAddNodeHead :: "'v adlist \<Rightarrow> 'v \<Rightarrow> 'v list_heap \<Rightarrow> ('v list_heap \<times> 'v adlist) option" where
  "listAddNodeHead l v h =
     (case new_node v h of (h, a) \<Rightarrow>
        if llen l = 0 then do {
          h \<leftarrow> set_node (Some a) (\<lambda>n. n\<lparr>nprev := None, nnext := None\<rparr>) h;
          Some (h, l\<lparr>lhead := Some a, ltail := Some a, llen := llen l + 1\<rparr>) }
        else do {
          h \<leftarrow> set_node (Some a) (\<lambda>n. n\<lparr>nprev := None, nnext := lhead l\<rparr>) h;
          h \<leftarrow> set_node (lhead l) (\<lambda>n. n\<lparr>nprev := Some a\<rparr>) h;
          Some (h, l\<lparr>lhead := Some a, llen := llen l + 1\<rparr>) })"

definition listAddNodeTail :: "'v adlist \<Rightarrow> 'v \<Rightarrow> 'v list_heap \<Rightarrow> ('v list_heap \<times> 'v adlist) option" where
  "listAddNodeTail l v h =
     (case new_node v h of (h, a) \<Rightarrow>
        if llen l = 0 then do {
          h \<leftarrow> set_node (Some a) (\<lambda>n. n\<lparr>nprev := None, nnext := None\<rparr>) h;
          Some (h, l\<lparr>lhead := Some a, ltail := Some a, llen := llen l + 1\<rparr>) }
        else do {
          h \<leftarrow> set_node (Some a) (\<lambda>n. n\<lparr>nprev := ltail l, nnext := None\<rparr>) h;
          h \<leftarrow> set_node (ltail l) (\<lambda>n. n\<lparr>nnext := Some a\<rparr>) h;
          Some (h, l\<lparr>ltail := Some a, llen := llen l + 1\<rparr>) })"

definition listInsertNode :: "'v adlist \<Rightarrow> nat option \<Rightarrow> 'v \<Rightarrow> bool \<Rightarrow> 'v list_heap \<Rightarrow> ('v list_heap \<times> 'v adlist) option" where
  "listInsertNode l old_node v after h =
     (case new_node v h of (h, a) \<Rightarrow> do {
        old \<leftarrow> deref_node h old_node;
        let (p, q) = (if after then (old_node, nnext old) else (nprev old, old_node));
        let l = (if after then (if ltail l = old_node then l\<lparr>ltail := Some a\<rparr> else l)
                 else (if lhead l = old_node then l\<lparr>lhead := Some a\<rparr> else l));
        h \<leftarrow> set_node (Some a) (\<lambda>n. n\<lparr>nprev := p, nnext := q\<rparr>) h;
        h \<leftarrow> (if p \<noteq> None then set_node p (\<lambda>n. n\<lparr>nnext := Some a\<rparr>) h else Some h);
        h \<leftarrow> (if q \<noteq> None then set_node q (\<lambda>n. n\<lparr>nprev := Some a\<rparr>) h else Some h);
        Some (h, l\<lparr>llen := llen l + 1\<rparr>) })"

definition listDelNode :: "'v adlist \<Rightarrow> nat option \<Rightarrow> 'v list_heap \<Rightarrow> ('v list_heap \<times> 'v adlist) option" where
  "listDelNode l node h = do {
     n \<leftarrow> deref_node h node;
     (h, l) \<leftarrow> (if nprev n \<noteq> None then map_option (\<lambda>h. (h, l)) (set_node (nprev n) (\<lambda>m. m\<lparr>nnext := nnext n\<rparr>) h)
                else Some (h, l\<lparr>lhead := nnext n\<rparr>));
     n \<leftarrow> deref_node h node;
     (h, l) \<leftarrow> (if nnext n \<noteq> None then map_option (\<lambda>h. (h, l)) (set_node (nnext n) (\<lambda>m. m\<lparr>nprev := nprev n\<rparr>) h)
                else Some (h, l\<lparr>ltail := nprev n\<rparr>));
     h \<leftarrow> free_node node (free_value l (nvalue n) h);
     Some (h, l\<lparr>llen := llen l - 1\<rparr>) }"

definition listGetIterator :: "'v adlist \<Rightarrow> direction \<Rightarrow> listIter" where
  "listGetIterator l dir = \<lparr>inext = (if dir = AL_START_HEAD then lhead l else ltail l), direction = dir\<rparr>"

definition listRewind :: "'v adlist \<Rightarrow> listIter" where
  "listRewind l = \<lparr>inext = lhead l, direction = AL_START_HEAD\<rparr>"

definition listRewindTail :: "'v adlist \<Rightarrow> listIter" where
  "listRewindTail l = \<lparr>inext = ltail l, direction = AL_START_TAIL\<rparr>"

definition listNext :: "'v list_heap \<Rightarrow> listIter \<Rightarrow> (listIter \<times> nat option) option" where
  "listNext h it =
     (case inext it of
        None \<Rightarrow> Some (it, None)
      | Some a \<Rightarrow> do {
          n \<leftarrow> deref_node h (Some a);
          Some (it\<lparr>inext := (if direction it = AL_START_HEAD then nnext n else nprev n)\<rparr>, Some a) })"

text \<open>A loop over a list whose body may return early (\<^const>\<open>Inr\<close>).\<close>

partial_function (option) list_foreach ::
  "(nat \<Rightarrow> 'v list_heap \<Rightarrow> 's \<Rightarrow> ('v list_heap \<times> ('s + 'r)) option) \<Rightarrow> 'v list_heap \<Rightarrow> listIter \<Rightarrow> 's \<Rightarrow>
   ('v list_heap \<times> ('s + 'r)) option" where
  "list_foreach body h it s = do {
     (it, r) \<leftarrow> listNext h it;
     case r of
       None \<Rightarrow> Some (h, Inl s)
     | Some a \<Rightarrow> do {
         (h, o') \<leftarrow> body a h s;
         case o' of Inl s \<Rightarrow> list_foreach body h it s | Inr x \<Rightarrow> Some (h, Inr x) } }"

definition search_body :: "'v adlist \<Rightarrow> 'v \<Rightarrow> nat \<Rightarrow> 'v list_heap \<Rightarrow> unit \<Rightarrow> ('v list_heap \<times> (unit + nat)) option" where
  "search_body l key a h _ = do {
     n \<leftarrow> deref_node h (Some a);
     let hit = (case match l of Some m \<Rightarrow> m (nvalue n) key | None \<Rightarrow> key = nvalue n);
     Some (h, if hit then Inr a else Inl ()) }"

definition listSearchKey :: "'v adlist \<Rightarrow> 'v \<Rightarrow> 'v list_heap \<Rightarrow> nat option option" where
  "listSearchKey l key h = do {
     (_, r) \<leftarrow> list_foreach (search_body l key) h (listRewind l) ();
     Some (case r of Inl _ \<Rightarrow> None | Inr a \<Rightarrow> Some a) }"

text \<open>Failing to copy a value releases the copy and returns \<open>NULL\<close> (\<^const>\<open>Inr\<close>).\<close>

definition copied :: "'v adlist \<Rightarrow> 'v \<Rightarrow> 'v option" where
  "copied l v = (case dup l of Some d \<Rightarrow> d v | None \<Rightarrow> Some v)"

definition dup_body :: "nat \<Rightarrow> 'v list_heap \<Rightarrow> 'v adlist \<Rightarrow> ('v list_heap \<times> ('v adlist + unit)) option" where
  "dup_body a h copy = do {
     n \<leftarrow> deref_node h (Some a);
     case copied copy (nvalue n) of
       None \<Rightarrow> do { h \<leftarrow> listRelease copy h; Some (h, Inr ()) }
     | Some v \<Rightarrow> do { (h, copy) \<leftarrow> listAddNodeTail copy v h; Some (h, Inl copy) } }"

definition listDup :: "'v adlist \<Rightarrow> 'v list_heap \<Rightarrow> ('v list_heap \<times> 'v adlist option) option" where
  "listDup orig h = do {
     let copy = listCreate\<lparr>dup := dup orig, free_method := free_method orig, match := match orig\<rparr>;
     (h, r) \<leftarrow> list_foreach dup_body h (listRewind orig) copy;
     Some (h, case r of Inl copy \<Rightarrow> Some copy | Inr _ \<Rightarrow> None) }"

fun walk :: "('v listNode \<Rightarrow> nat option) \<Rightarrow> nat \<Rightarrow> nat option \<Rightarrow> 'v list_heap \<Rightarrow> nat option option" where
  "walk step 0 n h = Some n"
| "walk step (Suc i) n h = (if n = None then Some n else do { nd \<leftarrow> deref_node h n; walk step i (step nd) h })"

definition listIndex :: "'v adlist \<Rightarrow> int \<Rightarrow> 'v list_heap \<Rightarrow> nat option option" where
  "listIndex l index h =
     (if index < 0 then walk nprev (nat (ll_wrap (ll_wrap (- index) - 1))) (ltail l) h
      else walk nnext (nat index) (lhead l) h)"

definition listRotate :: "'v adlist \<Rightarrow> 'v list_heap \<Rightarrow> ('v list_heap \<times> 'v adlist) option" where
  "listRotate l h =
     (if llen l \<le> 1 then Some (h, l)
      else do {
        let tail = ltail l;
        t \<leftarrow> deref_node h tail;
        let l = l\<lparr>ltail := nprev t\<rparr>;
        h \<leftarrow> set_node (ltail l) (\<lambda>n. n\<lparr>nnext := None\<rparr>) h;
        h \<leftarrow> set_node (lhead l) (\<lambda>n. n\<lparr>nprev := tail\<rparr>) h;
        h \<leftarrow> set_node tail (\<lambda>n. n\<lparr>nprev := None, nnext := lhead l\<rparr>) h;
        Some (h, l\<lparr>lhead := tail\<rparr>) })"

definition listJoin :: "'v adlist \<Rightarrow> 'v adlist \<Rightarrow> 'v list_heap \<Rightarrow> ('v list_heap \<times> 'v adlist \<times> 'v adlist) option" where
  "listJoin l o' h = do {
     h \<leftarrow> (if lhead o' \<noteq> None then set_node (lhead o') (\<lambda>n. n\<lparr>nprev := ltail l\<rparr>) h else Some h);
     (h, l) \<leftarrow> (if ltail l \<noteq> None then map_option (\<lambda>h. (h, l)) (set_node (ltail l) (\<lambda>n. n\<lparr>nnext := lhead o'\<rparr>) h)
                else Some (h, l\<lparr>lhead := lhead o'\<rparr>));
     let l = (if ltail o' \<noteq> None then l\<lparr>ltail := ltail o'\<rparr> else l);
     Some (h, l\<lparr>llen := llen l + llen o'\<rparr>, o'\<lparr>lhead := None, ltail := None, llen := 0\<rparr>) }"

section \<open>Lists on the heap\<close>

definition first_ptr :: "(nat \<times> 'v) list \<Rightarrow> nat option \<Rightarrow> nat option" where
  "first_ptr xs n = (case xs of [] \<Rightarrow> n | x # _ \<Rightarrow> Some (fst x))"

definition last_ptr :: "nat option \<Rightarrow> (nat \<times> 'v) list \<Rightarrow> nat option" where
  "last_ptr p xs = (if xs = [] then p else Some (fst (last xs)))"

text \<open>A chain of nodes with the given addresses and values, between a predecessor and a successor.\<close>

fun linked :: "(nat \<rightharpoonup> 'v listNode) \<Rightarrow> nat option \<Rightarrow> (nat \<times> 'v) list \<Rightarrow> nat option \<Rightarrow> bool" where
  "linked m p [] n = True"
| "linked m p ((a, v) # xs) n \<longleftrightarrow> m a = Some \<lparr>nprev = p, nnext = first_ptr xs n, nvalue = v\<rparr> \<and> linked m (Some a) xs n"

named_theorems list_simps \<open>lists on the heap\<close>

lemma ptr_simps [simp, list_simps]:
  "first_ptr [] n = n" "first_ptr (x # xs) n = Some (fst x)" "last_ptr p [] = p" "last_ptr p (xs @ [x]) = Some (fst x)"
  "first_ptr (xs @ ys) n = first_ptr xs (first_ptr ys n)" "last_ptr p (x # xs) = last_ptr (Some (fst x)) xs"
  "last_ptr p (xs @ ys) = last_ptr (last_ptr p xs) ys"
  by (simp_all add: first_ptr_def last_ptr_def split: list.splits)

lemma linked_append [simp]: "linked m p (xs @ ys) n \<longleftrightarrow> linked m p xs (first_ptr ys n) \<and> linked m (last_ptr p xs) ys n"
  by (induction xs arbitrary: p) (auto simp: last_ptr_def)

lemma linked_fun_upd [simp]: "a \<notin> fst ` set xs \<Longrightarrow> linked (m(a := x)) p xs n = linked m p xs n"
  by (induction xs arbitrary: p) auto

lemma linked_cong: "(\<And>a. a \<in> fst ` set xs \<Longrightarrow> m' a = m a) \<Longrightarrow> linked m p xs n \<Longrightarrow> linked m' p xs n"
  by (induction xs arbitrary: p) auto

lemma linked_dom: "linked m p xs n \<Longrightarrow> x \<in> set xs \<Longrightarrow> \<exists>nd. m (fst x) = Some nd \<and> nvalue nd = snd x"
  by (induction xs arbitrary: p) auto

definition heap_ok :: "'v list_heap \<Rightarrow> bool" where
  "heap_ok h \<longleftrightarrow> (\<forall>a. brk h \<le> a \<longrightarrow> nodes h a = None)"

definition list_rep :: "'v list_heap \<Rightarrow> 'v adlist \<Rightarrow> (nat \<times> 'v) list \<Rightarrow> bool" where
  "list_rep h l xs \<longleftrightarrow> linked (nodes h) None xs None \<and> distinct (map fst xs) \<and>
     lhead l = first_ptr xs None \<and> ltail l = last_ptr None xs \<and> llen l = length xs \<and> heap_ok h"

definition same_methods :: "'v adlist \<Rightarrow> 'v adlist \<Rightarrow> bool" where
  "same_methods l l' \<longleftrightarrow> dup l' = dup l \<and> free_method l' = free_method l \<and> match l' = match l"

text \<open>Nothing but the addresses in \<open>A\<close> changes.\<close>

definition frame :: "nat set \<Rightarrow> 'v list_heap \<Rightarrow> 'v list_heap \<Rightarrow> bool" where
  "frame A h h' \<longleftrightarrow> (\<forall>a. a \<notin> A \<longrightarrow> nodes h' a = nodes h a)"

lemma list_rep_frame:
  assumes "list_rep h l xs" "frame A h h'" "A \<inter> fst ` set xs = {}" "heap_ok h'"
  shows "list_rep h' l xs"
  using assms linked_cong [of xs "nodes h'" "nodes h" None None] by (auto simp: list_rep_def frame_def)

lemma frame_trans: "frame A h h' \<Longrightarrow> frame B h' h'' \<Longrightarrow> frame (A \<union> B) h h''"
  by (simp add: frame_def)

lemma brk_fresh: "heap_ok h \<Longrightarrow> linked (nodes h) p xs n \<Longrightarrow> brk h \<notin> fst ` set xs"
  using linked_dom by (fastforce simp: heap_ok_def)

lemma set_node_Some [list_simps]: "nodes h a = Some n \<Longrightarrow> set_node (Some a) f h = Some (h\<lparr>nodes := (nodes h)(a \<mapsto> f n)\<rparr>)"
  by (simp add: set_node_def)

lemma list_repD:
  assumes "list_rep h l xs"
  shows "linked (nodes h) None xs None" "distinct (map fst xs)" "lhead l = first_ptr xs None" "ltail l = last_ptr None xs"
    "llen l = length xs" "heap_ok h" "brk h \<notin> fst ` set xs" "nodes h (brk h) = None"
  using assms brk_fresh [of h None xs None] by (simp_all add: list_rep_def heap_ok_def)

lemmas list_defs = new_node_def set_node_def list_rep_def same_methods_def frame_def heap_ok_def

section \<open>The operations\<close>

lemma listAddNodeTail_spec:
  assumes "list_rep h l xs"
  shows "\<exists>h' l'. listAddNodeTail l v h = Some (h', l') \<and> list_rep h' l' (xs @ [(brk h, v)]) \<and> same_methods l l' \<and>
    frame (insert (brk h) (fst ` set xs)) h h' \<and> freed h' = freed h \<and> brk h' = brk h + 1"
proof -
  note r = list_repD [OF assms]
  show ?thesis
  proof (cases xs rule: rev_cases)
    case Nil
    then show ?thesis using r
      by (auto simp: listAddNodeTail_def list_defs)
  next
    case (snoc ys x)
    obtain b w where x: "x = (b, w)" by (cases x)
    show ?thesis using r
      by (auto simp: listAddNodeTail_def list_defs snoc x)
  qed
qed

lemma listAddNodeHead_spec:
  assumes "list_rep h l xs"
  shows "\<exists>h' l'. listAddNodeHead l v h = Some (h', l') \<and> list_rep h' l' ((brk h, v) # xs) \<and> same_methods l l' \<and>
    frame (insert (brk h) (fst ` set xs)) h h' \<and> freed h' = freed h \<and> brk h' = brk h + 1"
proof -
  note r = list_repD [OF assms]
  show ?thesis
  proof (cases xs)
    case Nil
    then show ?thesis using r
      by (auto simp: listAddNodeHead_def list_defs)
  next
    case (Cons x ys)
    obtain b w where x: "x = (b, w)" by (cases x)
    show ?thesis using r
      by (auto simp: listAddNodeHead_def list_defs Cons x)
  qed
qed


text \<open>Inserting next to a node, before or after it, wherever it is in the list.\<close>

lemma listInsertNode_spec:
  assumes "list_rep h l (ys @ (a, w) # zs)"
  shows "\<exists>h' l'. listInsertNode l (Some a) v after h = Some (h', l') \<and>
    list_rep h' l' (if after then ys @ (a, w) # (brk h, v) # zs else ys @ (brk h, v) # (a, w) # zs) \<and> same_methods l l' \<and>
    frame (insert (brk h) (fst ` set (ys @ (a, w) # zs))) h h' \<and> freed h' = freed h \<and> brk h' = brk h + 1"
proof -
  note r = list_repD [OF assms]
  have a: "a \<noteq> brk h" using r(7) by auto
  show ?thesis
  proof (cases after)
    case True
    show ?thesis
    proof (cases zs)
      case Nil
      then show ?thesis using r a True by (auto simp: listInsertNode_def deref_node_def list_defs image_Un)
    next
      case (Cons z zs')
      obtain b u where z: "z = (b, u)" by (cases z)
      have "last_ptr (Some b) zs' \<noteq> Some a" using r(2) by (auto simp: Cons z last_ptr_def split: if_splits)
      then show ?thesis using r a True by (auto simp: listInsertNode_def deref_node_def list_defs image_Un Cons z)
    qed
  next
    case False
    show ?thesis
    proof (cases ys rule: rev_cases)
      case Nil
      then show ?thesis using r a False by (auto simp: listInsertNode_def deref_node_def list_defs image_Un)
    next
      case (snoc ys' y)
      obtain b u where y: "y = (b, u)" by (cases y)
      have "first_ptr ys' (Some b) \<noteq> Some a" using r(2) by (auto simp: snoc y first_ptr_def split: list.splits)
      then show ?thesis using r a False by (auto simp: listInsertNode_def deref_node_def list_defs image_Un snoc y)
    qed
  qed
qed

lemma listDelNode_spec:
  assumes "list_rep h l (ys @ (a, w) # zs)"
  shows "\<exists>h' l'. listDelNode l (Some a) h = Some (h', l') \<and> list_rep h' l' (ys @ zs) \<and> same_methods l l' \<and>
    frame (fst ` set (ys @ (a, w) # zs)) h h' \<and> nodes h' a = None \<and> brk h' = brk h \<and>
    freed h' = freed h @ (if free_method l then [w] else [])"
proof -
  note r = list_repD [OF assms]
  note d = listDelNode_def deref_node_def free_node_def free_value_def list_defs image_Un
  show ?thesis
  proof (cases ys rule: rev_cases)
    case ys: Nil
    show ?thesis
    proof (cases zs)
      case Nil
      then show ?thesis using r ys by (auto simp: d)
    next
      case (Cons z zs')
      obtain b u where "z = (b, u)" by (cases z)
      then show ?thesis using r ys by (auto simp: d Cons)
    qed
  next
    case ys: (snoc ys' y)
    obtain c t where y: "y = (c, t)" by (cases y)
    show ?thesis
    proof (cases zs)
      case Nil
      then show ?thesis using r by (auto simp: d ys y)
    next
      case (Cons z zs')
      obtain b u where "z = (b, u)" by (cases z)
      then show ?thesis using r by (auto simp: d Cons ys y)
    qed
  qed
qed

lemma empty_loop_spec:
  assumes "linked (nodes h) p xs None" "distinct (map fst xs)" "heap_ok h"
  shows "\<exists>h'. empty_loop l (length xs) (first_ptr xs None) h = Some h' \<and> heap_ok h' \<and> frame (fst ` set xs) h h' \<and>
    (\<forall>a \<in> fst ` set xs. nodes h' a = None) \<and> brk h' = brk h \<and> freed h' = freed h @ (if free_method l then map snd xs else [])"
  using assms
proof (induction xs arbitrary: h p)
  case (Cons x xs)
  obtain a v where x: "x = (a, v)" by (cases x)
  let ?h = "(free_value l v h)\<lparr>nodes := (nodes h)(a := None)\<rparr>"
  have n: "nodes h a = Some \<lparr>nprev = p, nnext = first_ptr xs None, nvalue = v\<rparr>" using Cons.prems(1) by (simp add: x)
  have "linked (nodes ?h) (Some a) xs None" "heap_ok ?h" using Cons.prems by (auto simp: x heap_ok_def free_value_def)
  from Cons.IH [OF this(1) _ this(2)] Cons.prems(2) obtain h' where h': "empty_loop l (length xs) (first_ptr xs None) ?h = Some h'"
    "heap_ok h'" "frame (fst ` set xs) ?h h'" "\<forall>a \<in> fst ` set xs. nodes h' a = None" "brk h' = brk ?h"
    "freed h' = freed ?h @ (if free_method l then map snd xs else [])" by auto
  have "free_node (Some a) (free_value l v h) = Some ?h" using n by (simp add: free_node_def free_value_def)
  moreover have "nodes h' a = None" using h'(3) Cons.prems(2) by (auto simp: frame_def x)
  ultimately show ?case using h' n by (auto simp: x deref_node_def frame_def free_value_def)
qed (simp add: frame_def)

lemma listEmpty_spec:
  assumes "list_rep h l xs"
  shows "\<exists>h' l'. listEmpty l h = Some (h', l') \<and> list_rep h' l' [] \<and> same_methods l l' \<and> frame (fst ` set xs) h h' \<and>
    (\<forall>a \<in> fst ` set xs. nodes h' a = None) \<and> brk h' = brk h \<and> freed h' = freed h @ (if free_method l then map snd xs else [])"
  using list_repD [OF assms] empty_loop_spec [of h None xs l] by (auto simp: listEmpty_def list_rep_def same_methods_def)

lemma listRotate_spec:
  assumes "list_rep h l xs"
  shows "\<exists>h' l'. listRotate l h = Some (h', l') \<and> list_rep h' l' (if xs = [] then [] else last xs # butlast xs) \<and> same_methods l l' \<and>
    frame (fst ` set xs) h h' \<and> freed h' = freed h \<and> brk h' = brk h"
proof -
  note r = list_repD [OF assms]
  note d = listRotate_def deref_node_def list_defs Let_def image_Un
  consider "xs = []" | a v where "xs = [(a, v)]" | a v ys b w where "xs = (a, v) # ys @ [(b, w)]"
    by (cases xs; cases "tl xs" rule: rev_cases) auto
  then show ?thesis
  proof cases
    case 3
    show ?thesis
    proof (cases ys rule: rev_cases)
      case Nil
      then show ?thesis using r 3 by (auto simp: d)
    next
      case (snoc zs z)
      obtain c u where "z = (c, u)" by (cases z)
      then show ?thesis using r 3 by (auto simp: d snoc butlast_append)
    qed
  qed (use r in \<open>auto simp: d\<close>)
qed

lemma listJoin_spec:
  assumes "list_rep h l xs" "list_rep h o' ys" "fst ` set xs \<inter> fst ` set ys = {}"
  shows "\<exists>h' l' o''. listJoin l o' h = Some (h', l', o'') \<and> list_rep h' l' (xs @ ys) \<and> list_rep h' o'' [] \<and> same_methods l l' \<and>
    same_methods o' o'' \<and> frame (fst ` set (xs @ ys)) h h' \<and> freed h' = freed h \<and> brk h' = brk h"
proof -
  note r = list_repD [OF assms(1)] list_repD [OF assms(2)] assms(3)
  note d = listJoin_def deref_node_def list_defs Let_def image_Un
  show ?thesis
  proof (cases xs rule: rev_cases)
    case xs: Nil
    show ?thesis
    proof (cases ys)
      case Nil
      then show ?thesis using r xs by (auto simp: d)
    next
      case (Cons y ys')
      obtain b u where "y = (b, u)" by (cases y)
      then show ?thesis using r xs by (auto simp: d Cons last_ptr_def)
    qed
  next
    case xs: (snoc xs' x)
    obtain c t where x: "x = (c, t)" by (cases x)
    show ?thesis
    proof (cases ys)
      case Nil
      then show ?thesis using r by (auto simp: d xs x)
    next
      case (Cons y ys')
      obtain b u where "y = (b, u)" by (cases y)
      then show ?thesis using r by (auto simp: d Cons xs x last_ptr_def)
    qed
  qed
qed


section \<open>Positions, searching, iterating, copying\<close>

lemma walk_next:
  "linked (nodes h) p xs None \<Longrightarrow> walk nnext i (first_ptr xs None) h = Some (if i < length xs then Some (fst (xs ! i)) else None)"
proof (induction xs arbitrary: i p)
  case (Cons x xs)
  obtain a v where x: "x = (a, v)" by (cases x)
  show ?case using Cons by (cases i) (auto simp: x deref_node_def)
qed (case_tac i; simp)

lemma walk_prev:
  "linked (nodes h) None xs n \<Longrightarrow> walk nprev i (last_ptr None xs) h = Some (if i < length xs then Some (fst (rev xs ! i)) else None)"
proof (induction xs arbitrary: i n rule: rev_induct)
  case (snoc x xs)
  obtain a v where x: "x = (a, v)" by (cases x)
  show ?case using snoc by (cases i) (auto simp: x deref_node_def)
qed (case_tac i; simp)

lemma index_wrap: "int64 i \<Longrightarrow> i < 0 \<Longrightarrow> ll_wrap (ll_wrap (- i) - 1) = - i - 1"
proof (cases "i = - (2 ^ 63)")
  case True
  then show ?thesis by (simp add: ll_wrap_def to_signed_def)
next
  case False
  assume "int64 i" "i < 0"
  with False have "0 < - i" "- i < 2 ^ 63" by (simp_all add: int_fits_def)
  then show ?thesis by (simp add: ll_wrap_def to_signed_def)
qed

lemma listIndex_spec:
  assumes "list_rep h l xs" "int64 i"
  shows "listIndex l i h = Some (if 0 \<le> i \<and> i < int (length xs) then Some (fst (xs ! nat i))
    else if i < 0 \<and> - i \<le> int (length xs) then Some (fst (xs ! nat (int (length xs) + i))) else None)"
proof (cases "i < 0")
  case True
  have "rev xs ! nat (- i - 1) = xs ! nat (int (length xs) + i)" if "- i \<le> int (length xs)"
    using that True by (subst rev_nth) (auto simp: nat_less_iff intro!: arg_cong [of _ _ "(!) xs"])
  with True list_repD [OF assms(1)] show ?thesis
    by (auto simp: listIndex_def index_wrap [OF assms(2)] walk_prev nat_less_iff)
next
  case False
  with list_repD [OF assms(1)] show ?thesis by (auto simp: listIndex_def walk_next nat_less_iff)
qed

text \<open>One step of a loop from the head.\<close>

lemma list_foreach_step:
  assumes "nodes h a = Some nd"
  shows "list_foreach body h \<lparr>inext = Some a, direction = AL_START_HEAD\<rparr> s = do {
    (h, o') \<leftarrow> body a h s;
    case o' of Inl s \<Rightarrow> list_foreach body h \<lparr>inext = nnext nd, direction = AL_START_HEAD\<rparr> s | Inr x \<Rightarrow> Some (h, Inr x) }"
  using assms by (subst list_foreach.simps) (simp add: listNext_def deref_node_def)

lemma list_foreach_end: "list_foreach body h \<lparr>inext = None, direction = dir\<rparr> s = Some (h, Inl s)"
  by (subst list_foreach.simps) (simp add: listNext_def)

definition hits :: "'v adlist \<Rightarrow> 'v \<Rightarrow> 'v \<Rightarrow> bool" where
  "hits l key v = (case match l of Some m \<Rightarrow> m v key | None \<Rightarrow> key = v)"

lemma search_run:
  "linked (nodes h) p xs None \<Longrightarrow>
   list_foreach (search_body l key) h \<lparr>inext = first_ptr xs None, direction = AL_START_HEAD\<rparr> () =
     Some (h, case List.find (\<lambda>x. hits l key (snd x)) xs of None \<Rightarrow> Inl () | Some x \<Rightarrow> Inr (fst x))"
proof (induction xs arbitrary: p)
  case (Cons x xs)
  obtain a v where x: "x = (a, v)" by (cases x)
  with Cons show ?case by (auto simp: list_foreach_step search_body_def deref_node_def hits_def Let_def split: option.splits)
qed (simp add: list_foreach_end)

lemma listSearchKey_spec:
  "list_rep h l xs \<Longrightarrow> listSearchKey l key h = Some (map_option fst (List.find (\<lambda>x. hits l key (snd x)) xs))"
  using list_repD [of h l xs] search_run [of h None xs l key]
  by (auto simp: listSearchKey_def listRewind_def split: option.splits)

text \<open>The use the code makes of iterators: deleting the node last returned.\<close>

definition delete_body :: "('v \<Rightarrow> bool) \<Rightarrow> nat \<Rightarrow> 'v list_heap \<Rightarrow> 'v adlist \<Rightarrow> ('v list_heap \<times> ('v adlist + unit)) option" where
  "delete_body P a h l = do {
     n \<leftarrow> deref_node h (Some a);
     if P (nvalue n) then do { (h, l) \<leftarrow> listDelNode l (Some a) h; Some (h, Inl l) } else Some (h, Inl l) }"

lemma delete_run:
  assumes "list_rep h l (ys @ zs)"
  shows "\<exists>h' l'. list_foreach (delete_body P) h \<lparr>inext = first_ptr zs None, direction = AL_START_HEAD\<rparr> l = Some (h', Inl l') \<and>
    list_rep h' l' (ys @ filter (\<lambda>x. \<not> P (snd x)) zs) \<and> same_methods l l' \<and> frame (fst ` set (ys @ zs)) h h' \<and> brk h' = brk h \<and>
    freed h' = freed h @ (if free_method l then map snd (filter (\<lambda>x. P (snd x)) zs) else [])"
  using assms
proof (induction zs arbitrary: h l ys)
  case (Cons x zs)
  obtain a v where x: "x = (a, v)" by (cases x)
  have n: "nodes h a = Some \<lparr>nprev = last_ptr None ys, nnext = first_ptr zs None, nvalue = v\<rparr>"
    using list_repD(1) [OF Cons.prems] by (simp add: x)
  show ?case
  proof (cases "P v")
    case True
    from listDelNode_spec [of h l ys a v zs] Cons.prems obtain h1 l1 where
      d: "listDelNode l (Some a) h = Some (h1, l1)" "list_rep h1 l1 (ys @ zs)" "same_methods l l1"
        "frame (fst ` set (ys @ (a, v) # zs)) h h1" "brk h1 = brk h" "freed h1 = freed h @ (if free_method l then [v] else [])"
      by (auto simp: x)
    from Cons.IH [OF d(2)] d show ?thesis
      by (auto simp: x n list_foreach_step [OF n] delete_body_def [of P a] deref_node_def True same_methods_def frame_def)
  next
    case False
    from Cons.IH [of h l "ys @ [x]"] Cons.prems False show ?thesis
      by (auto simp: x n list_foreach_step [OF n] delete_body_def [of P a] deref_node_def)
  qed
qed (simp add: list_foreach_end same_methods_def frame_def)

text \<open>Copying: the nodes of the copy are new, so the original is not touched.\<close>

lemma dup_run:
  assumes "list_rep h orig (us @ zs)" "list_rep h copy ys" "\<forall>y \<in> set ys. b \<le> fst y" "\<forall>x \<in> set (us @ zs). fst x < b" "b \<le> brk h"
  shows "\<exists>h' r. list_foreach dup_body h \<lparr>inext = first_ptr zs None, direction = AL_START_HEAD\<rparr> copy = Some (h', r) \<and>
    list_rep h' orig (us @ zs) \<and>
    (if \<exists>z \<in> set zs. copied copy (snd z) = None then r = Inr ()
     else \<exists>copy' ws. r = Inl copy' \<and> list_rep h' copy' (ys @ ws) \<and> same_methods copy copy' \<and>
       map (Some \<circ> snd) ws = map (copied copy \<circ> snd) zs \<and> (\<forall>y \<in> set ws. b \<le> fst y))"
  using assms
proof (induction zs arbitrary: h copy us ys)
  case (Cons x zs)
  obtain a v where x: "x = (a, v)" by (cases x)
  have n: "nodes h a = Some \<lparr>nprev = last_ptr None us, nnext = first_ptr zs None, nvalue = v\<rparr>"
    using list_repD(1) [OF Cons.prems(1)] by (simp add: x)
  have dis: "A \<inter> fst ` set (us @ x # zs) = {}" if "\<forall>c \<in> A. b \<le> c" for A using Cons.prems(4) that by fastforce
  show ?case
  proof (cases "copied copy v")
    case None
    obtain h1 l1 where e: "listEmpty copy h = Some (h1, l1)" "list_rep h1 l1 []" "frame (fst ` set ys) h h1"
      using listEmpty_spec [OF Cons.prems(2)] by blast
    have "list_rep h1 orig (us @ x # zs)"
      using list_rep_frame [OF Cons.prems(1) e(3) dis] list_repD(6) [OF e(2)] Cons.prems(3) by auto
    moreover have "dup_body a h copy = Some (h1, Inr ())"
      using n None e(1) by (simp add: dup_body_def deref_node_def listRelease_def)
    ultimately show ?thesis using n None by (auto simp: x list_foreach_step [OF n])
  next
    case (Some w)
    obtain h1 c1 where t: "listAddNodeTail copy w h = Some (h1, c1)" "list_rep h1 c1 (ys @ [(brk h, w)])" "same_methods copy c1"
      "frame (insert (brk h) (fst ` set ys)) h h1" "brk h1 = brk h + 1"
      using listAddNodeTail_spec [OF Cons.prems(2), of w] by blast
    have "list_rep h1 orig ((us @ [x]) @ zs)"
      using list_rep_frame [OF Cons.prems(1) t(4) dis] list_repD(6) [OF t(2)] Cons.prems(3,5) by auto
    from Cons.IH [OF this t(2)] Cons.prems(3-5) t(5) obtain h' r where ih:
      "list_foreach dup_body h1 \<lparr>inext = first_ptr zs None, direction = AL_START_HEAD\<rparr> c1 = Some (h', r)"
      "list_rep h' orig ((us @ [x]) @ zs)" "if \<exists>z \<in> set zs. copied c1 (snd z) = None then r = Inr ()
       else \<exists>copy' ws. r = Inl copy' \<and> list_rep h' copy' ((ys @ [(brk h, w)]) @ ws) \<and> same_methods c1 copy' \<and>
         map (Some \<circ> snd) ws = map (copied c1 \<circ> snd) zs \<and> (\<forall>y \<in> set ws. b \<le> fst y)" by auto
    have c: "copied c1 = copied copy" using t(3) by (simp add: copied_def same_methods_def fun_eq_iff)
    have run: "list_foreach dup_body h \<lparr>inext = first_ptr (x # zs) None, direction = AL_START_HEAD\<rparr> copy = Some (h', r)"
      using n Some t(1) ih(1) by (simp add: x list_foreach_step [OF n] dup_body_def [of a] deref_node_def)
    show ?thesis
    proof (cases "\<exists>z \<in> set zs. copied copy (snd z) = None")
      case True
      then show ?thesis using run ih(2,3) by (auto simp: c)
    next
      case False
      then obtain copy' ws where "r = Inl copy'" "list_rep h' copy' (ys @ (brk h, w) # ws)" "same_methods c1 copy'"
        "map (Some \<circ> snd) ws = map (copied copy \<circ> snd) zs" "\<forall>y \<in> set ws. b \<le> fst y" using ih(3) unfolding c if_not_P [OF False] by auto
      then show ?thesis using run ih(2) False Some Cons.prems(5) t(3)
        by (auto simp: x same_methods_def intro!: exI [of _ "(brk h, w) # ws"])
    qed
  qed
qed (auto simp: list_foreach_end same_methods_def intro!: exI [of _ "[]"])


lemma listDup_spec:
  assumes "list_rep h l xs"
  shows "\<exists>h' r. listDup l h = Some (h', r) \<and> list_rep h' l xs \<and>
    (if \<exists>x \<in> set xs. copied l (snd x) = None then r = None
     else \<exists>copy ws. r = Some copy \<and> list_rep h' copy ws \<and> same_methods l copy \<and> map (Some \<circ> snd) ws = map (copied l \<circ> snd) xs \<and>
       fst ` set ws \<inter> fst ` set xs = {})"
proof -
  let ?c = "listCreate\<lparr>dup := dup l, free_method := free_method l, match := match l\<rparr>"
  have c: "list_rep h ?c []" "copied ?c = copied l" "same_methods l ?c"
    using list_repD(6) [OF assms] by (simp_all add: list_rep_def listCreate_def copied_def same_methods_def fun_eq_iff)
  have lt: "\<forall>x \<in> set xs. fst x < brk h"
    using linked_dom [OF list_repD(1) [OF assms]] list_repD(6) [OF assms] by (force simp: heap_ok_def not_le [symmetric])
  obtain h' r where r: "list_foreach dup_body h (listRewind l) ?c = Some (h', r)" "list_rep h' l xs"
    "if \<exists>z \<in> set xs. copied l (snd z) = None then r = Inr ()
     else \<exists>copy' ws. r = Inl copy' \<and> list_rep h' copy' ws \<and> same_methods ?c copy' \<and>
       map (Some \<circ> snd) ws = map (copied l \<circ> snd) xs \<and> (\<forall>y \<in> set ws. brk h \<le> fst y)"
    using dup_run [of h l "[]" xs ?c "[]" "brk h", unfolded c(2) append_Nil] assms c(1) lt list_repD(3) [OF assms]
    by (auto simp: listRewind_def)
  have run: "listDup l h = Some (h', case r of Inl copy \<Rightarrow> Some copy | Inr _ \<Rightarrow> None)"
    using r(1) by (simp add: listDup_def Let_def)
  show ?thesis
  proof (cases "\<exists>z \<in> set xs. copied l (snd z) = None")
    case True
    with run r show ?thesis by simp
  next
    case False
    with r(3) obtain copy ws where w: "r = Inl copy" "list_rep h' copy ws" "same_methods ?c copy"
      "map (Some \<circ> snd) ws = map (copied l \<circ> snd) xs" "\<forall>y \<in> set ws. brk h \<le> fst y" unfolding if_not_P [OF False] by blast
    then have "fst ` set ws \<inter> fst ` set xs = {}" using lt by fastforce
    with run r(2) w False show ?thesis by (auto simp: same_methods_def)
  qed
qed

section \<open>Sequences of operations\<close>

text \<open>What callers do with a list: nodes are addressed by their position.\<close>

datatype 'v list_op = L_add_head 'v | L_add_tail 'v | L_insert int 'v bool | L_del int | L_rotate | L_empty

definition at_index :: "'v adlist \<Rightarrow> int \<Rightarrow> 'v list_heap \<Rightarrow> (nat option \<Rightarrow> ('v list_heap \<times> 'v adlist) option) \<Rightarrow>
  ('v list_heap \<times> 'v adlist) option" where
  "at_index l i h f = do { n \<leftarrow> listIndex l i h; if n = None then Some (h, l) else f n }"

fun exec_list_op :: "'v list_op \<Rightarrow> 'v list_heap \<times> 'v adlist \<Rightarrow> ('v list_heap \<times> 'v adlist) option" where
  "exec_list_op (L_add_head v) (h, l) = listAddNodeHead l v h"
| "exec_list_op (L_add_tail v) (h, l) = listAddNodeTail l v h"
| "exec_list_op (L_insert i v after) (h, l) = at_index l i h (\<lambda>n. listInsertNode l n v after h)"
| "exec_list_op (L_del i) (h, l) = at_index l i h (\<lambda>n. listDelNode l n h)"
| "exec_list_op L_rotate (h, l) = listRotate l h"
| "exec_list_op L_empty (h, l) = listEmpty l h"

fun list_run :: "'v list_op list \<Rightarrow> 'v list_heap \<times> 'v adlist \<Rightarrow> ('v list_heap \<times> 'v adlist) option" where
  "list_run [] st = Some st"
| "list_run (x # xs) st = do { st \<leftarrow> exec_list_op x st; list_run xs st }"

definition spec_index :: "int \<Rightarrow> 'v list \<Rightarrow> nat option" where
  "spec_index i vs = (if 0 \<le> i \<and> i < int (length vs) then Some (nat i)
     else if i < 0 \<and> - i \<le> int (length vs) then Some (nat (int (length vs) + i)) else None)"

fun spec_list_op :: "'v list_op \<Rightarrow> 'v list \<Rightarrow> 'v list" where
  "spec_list_op (L_add_head v) vs = v # vs"
| "spec_list_op (L_add_tail v) vs = vs @ [v]"
| "spec_list_op (L_insert i v after) vs = (case spec_index i vs of None \<Rightarrow> vs
    | Some k \<Rightarrow> let k = (if after then k + 1 else k) in take k vs @ v # drop k vs)"
| "spec_list_op (L_del i) vs = (case spec_index i vs of None \<Rightarrow> vs | Some k \<Rightarrow> take k vs @ drop (k + 1) vs)"
| "spec_list_op L_rotate vs = (if vs = [] then [] else last vs # butlast vs)"
| "spec_list_op L_empty vs = []"

fun op_ok :: "'v list_op \<Rightarrow> bool" where
  "op_ok (L_insert i v after) = int64 i"
| "op_ok (L_del i) = int64 i"
| "op_ok _ = True"

lemma spec_index_less: "spec_index i vs = Some k \<Longrightarrow> k < length vs"
  by (auto simp: spec_index_def split: if_splits)

lemma listIndex_spec_index:
  "list_rep h l xs \<Longrightarrow> int64 i \<Longrightarrow> listIndex l i h = Some (map_option (\<lambda>k. fst (xs ! k)) (spec_index i (map snd xs)))"
  by (auto simp: listIndex_spec spec_index_def)

text \<open>Other lists keep their contents: an operation changes its own nodes and new ones only.\<close>

definition op_frame :: "(nat \<times> 'v) list \<Rightarrow> 'v list_heap \<Rightarrow> (nat \<times> 'v) list \<Rightarrow> 'v list_heap \<Rightarrow> bool" where
  "op_frame xs h xs' h' \<longleftrightarrow> brk h \<le> brk h' \<and> frame (fst ` set xs \<union> {brk h..}) h h' \<and> fst ` set xs' \<subseteq> fst ` set xs \<union> {brk h..}"

lemma frame_mono: "frame A h h' \<Longrightarrow> A \<subseteq> B \<Longrightarrow> frame B h h'"
  by (auto simp: frame_def)

lemma split_at:
  assumes "list_rep h l xs" "int64 i \<Longrightarrow> listIndex l i h = Some (map_option (\<lambda>k. fst (xs ! k)) (spec_index i (map snd xs)))"
    "spec_index i (map snd xs) = Some k" "int64 i"
  obtains ys a w zs where "list_rep h l (ys @ (a, w) # zs)" "xs = ys @ (a, w) # zs" "k = length ys" "listIndex l i h = Some (Some a)"
proof -
  have k: "k < length xs" using spec_index_less [OF assms(3)] by simp
  then have x: "xs = take k xs @ (fst (xs ! k), snd (xs ! k)) # drop (Suc k) xs" by (simp add: id_take_nth_drop)
  show thesis
  proof (rule that)
    show "list_rep h l (take k xs @ (fst (xs ! k), snd (xs ! k)) # drop (Suc k) xs)" using assms(1) x by simp
    show "xs = take k xs @ (fst (xs ! k), snd (xs ! k)) # drop (Suc k) xs" by (rule x)
  qed (use assms k in auto)
qed

lemma list_op_refines:
  assumes rep: "list_rep h l xs" and ok: "op_ok x"
  shows "\<exists>h' l' xs'. exec_list_op x (h, l) = Some (h', l') \<and> list_rep h' l' xs' \<and> map snd xs' = spec_list_op x (map snd xs) \<and> op_frame xs h xs' h'"
proof (cases x)
  case (L_add_head v)
  from listAddNodeHead_spec [OF rep, of v] show ?thesis
    by (force simp: L_add_head op_frame_def elim: frame_mono)
next
  case (L_add_tail v)
  from listAddNodeTail_spec [OF rep, of v] show ?thesis
    by (force simp: L_add_tail op_frame_def elim: frame_mono)
next
  case (L_insert i v after)
  note ix = listIndex_spec_index [OF rep, of i]
  show ?thesis
  proof (cases "spec_index i (map snd xs)")
    case None
    then show ?thesis using ix ok rep by (auto simp: L_insert at_index_def op_frame_def frame_def)
  next
    case (Some k)
    have "int64 i" using ok by (simp add: L_insert)
    from split_at [OF rep ix Some this] obtain ys a w zs where
      s: "list_rep h l (ys @ (a, w) # zs)" "xs = ys @ (a, w) # zs" "k = length ys" "listIndex l i h = Some (Some a)" .
    from listInsertNode_spec [OF s(1), of v after] s Some show ?thesis
      by (cases after) (force simp: L_insert at_index_def op_frame_def elim: frame_mono)+
  qed
next
  case (L_del i)
  note ix = listIndex_spec_index [OF rep, of i]
  show ?thesis
  proof (cases "spec_index i (map snd xs)")
    case None
    then show ?thesis using ix ok rep by (auto simp: L_del at_index_def op_frame_def frame_def)
  next
    case (Some k)
    have "int64 i" using ok by (simp add: L_del)
    from split_at [OF rep ix Some this] obtain ys a w zs where
      s: "list_rep h l (ys @ (a, w) # zs)" "xs = ys @ (a, w) # zs" "k = length ys" "listIndex l i h = Some (Some a)" .
    from listDelNode_spec [OF s(1)] s Some show ?thesis
      by (force simp: L_del at_index_def op_frame_def elim: frame_mono)
  qed
next
  case L_rotate
  from listRotate_spec [OF rep] show ?thesis
    by (force simp: L_rotate op_frame_def last_map map_butlast in_set_butlastD elim: frame_mono)
next
  case L_empty
  from listEmpty_spec [OF rep] show ?thesis by (force simp: L_empty op_frame_def elim: frame_mono)
qed


section \<open>Properties\<close>

text \<open>C18.  Any sequence of insertions at either end or next to a node, deletions, rotations and clearing follows no freed and no
  \<open>NULL\<close> pointer, changes the list as the same operations on a sequence of values would, and leaves every
  other list on the heap as it was.\<close>

theorem adlist_refines:
  assumes "list_rep h l xs" "list_rep h other zs" "fst ` set xs \<inter> fst ` set zs = {}" "\<forall>x \<in> set ops. op_ok x"
  shows "\<exists>h' l' xs'. list_run ops (h, l) = Some (h', l') \<and> list_rep h' l' xs' \<and> map snd xs' = fold spec_list_op ops (map snd xs) \<and>
    list_rep h' other zs"
  using assms
proof (induction ops arbitrary: h l xs)
  case (Cons x ops)
  from list_op_refines [OF Cons.prems(1), of x] Cons.prems(4) obtain h1 l1 ys where
    s: "exec_list_op x (h, l) = Some (h1, l1)" "list_rep h1 l1 ys" "map snd ys = spec_list_op x (map snd xs)" "op_frame xs h ys h1" by auto
  have "\<forall>z \<in> set zs. fst z < brk h"
    using linked_dom [OF list_repD(1) [OF Cons.prems(2)]] list_repD(6) [OF Cons.prems(1)] by (force simp: heap_ok_def not_le [symmetric])
  then have d: "(fst ` set xs \<union> {brk h..}) \<inter> fst ` set zs = {}" using Cons.prems(3) by fastforce
  have o1: "list_rep h1 other zs"
    using list_rep_frame [OF Cons.prems(2) _ d] list_repD(6) [OF s(2)] s(4) by (auto simp: op_frame_def)
  have d1: "fst ` set ys \<inter> fst ` set zs = {}" using s(4) d unfolding op_frame_def by blast
  from Cons.IH [OF s(2) o1 d1] Cons.prems(4) s show ?case by auto
qed auto

text \<open>C36.  A loop with an iterator that deletes some of the nodes it is given visits every node once, follows no freed pointer
  and leaves exactly the other nodes, in order; the values deleted go to the free method in order.\<close>

theorem list_iteration_delete:
  assumes "list_rep h l xs"
  shows "\<exists>h' l'. list_foreach (delete_body P) h (listRewind l) l = Some (h', Inl l') \<and>
    list_rep h' l' (filter (\<lambda>x. \<not> P (snd x)) xs) \<and>
    freed h' = freed h @ (if free_method l then map snd (filter (\<lambda>x. P (snd x)) xs) else [])"
  using delete_run [of h l "[]" xs P] assms list_repD(3) [OF assms] by (auto simp: listRewind_def)

definition heap_example :: "nat list_heap" where
  "heap_example = \<lparr>nodes = [0 \<mapsto> \<lparr>nprev = None, nnext = Some 1, nvalue = 10\<rparr>, 1 \<mapsto> \<lparr>nprev = Some 0, nnext = None, nvalue = 11\<rparr>],
     brk = 2, freed = []\<rparr>"

definition list_example :: "nat adlist" where
  "list_example = \<lparr>lhead = Some 0, ltail = Some 1, dup = None, free_method = True, match = None, llen = 2\<rparr>"

lemma list_example_rep: "list_rep heap_example list_example [(0, 10), (1, 11)]" "list_rep heap_example listCreate []"
  by (auto simp: list_rep_def heap_example_def list_example_def heap_ok_def listCreate_def)

theorem adlist_refines_witness:
  "\<exists>h' l' xs'. list_run [L_add_tail 12, L_del (- 2), L_rotate] (heap_example, list_example) = Some (h', l') \<and> list_rep h' l' xs' \<and>
    map snd xs' = [12, 10]"
proof -
  have "\<forall>x \<in> set [L_add_tail 12, L_del (- 2), L_rotate]. op_ok x" by (simp add: int_fits_def)
  moreover have "fold spec_list_op [L_add_tail 12, L_del (- 2), L_rotate] (map snd [(0 :: nat, 10), (1, 11)]) = [12, 10 :: nat]"
    by (simp add: spec_index_def)
  ultimately show ?thesis using adlist_refines [OF list_example_rep, of "[L_add_tail 12, L_del (- 2), L_rotate]"] by fastforce
qed

theorem list_iteration_delete_witness:
  "\<exists>h' l'. list_foreach (delete_body even) heap_example (listRewind list_example) list_example = Some (h', Inl l') \<and>
    list_rep h' l' [(1, 11)] \<and> freed h' = [10]"
  using list_iteration_delete [OF list_example_rep(1), of even] by (simp add: list_example_def heap_example_def)

end
