(* ===== verification/Redis_Skiplist.thy ===== *)
theory Redis_Skiplist
  imports Redis_Server
begin

text \<open>
  The skip list of sorted sets (\<open>t_zset.c\<close>) on an explicit heap of nodes.  A pointer is an address or
  \<^const>\<open>None\<close> for \<open>NULL\<close>; following \<open>NULL\<close>, a freed node or an index outside an array is the result
  \<^const>\<open>None\<close> of the whole operation, as is a failed \<open>serverAssert\<close>.  A score is a \<open>double\<close>: \<open>NaN\<close>, which no
  comparison accepts, or a number of some linear order, where \<open>==\<close> of C is equality (so
  that the two zeros, which compare as equal, are one number).  Spans and lengths are
  64-bit words and the ranks of \<open>zslInsert\<close> 32-bit words, as declared.
\<close>

unbundle bit_operations_syntax

section \<open>Scores and elements\<close>

datatype 's double = NaN | Num 's

fun fless :: "'s::linorder double \<Rightarrow> 's double \<Rightarrow> bool" where
  "fless (Num a) (Num b) = (a < b)"
| "fless _ _ = False"

fun fleq :: "'s::linorder double \<Rightarrow> 's double \<Rightarrow> bool" where
  "fleq (Num a) (Num b) = (a \<le> b)"
| "fleq _ _ = False"

fun feq :: "'s double \<Rightarrow> 's double \<Rightarrow> bool" where
  "feq (Num a) (Num b) = (a = b)"
| "feq _ _ = False"

definition isnan :: "'s double \<Rightarrow> bool" where
  "isnan x = (x = NaN)"

text \<open>The first difference of two blocks, of which \<open>memcmp\<close> returns the sign.\<close>

fun memcmp :: "byte list \<Rightarrow> byte list \<Rightarrow> nat \<Rightarrow> int" where
  "memcmp (a # as) (b # bs) (Suc n) = (if a = b then memcmp as bs n else uint a - uint b)"
| "memcmp _ _ _ = 0"

definition sdscmp :: "sds \<Rightarrow> sds \<Rightarrow> int" where
  "sdscmp s1 s2 =
     (let l1 = length s1; l2 = length s2;
          minlen = (if l1 < l2 then l1 else l2);
          cmp = memcmp s1 s2 minlen in
      if cmp = 0 then (if l1 > l2 then 1 else if l1 < l2 then -1 else 0) else cmp)"

section \<open>Nodes, lists and the heap\<close>

record zskiplistLevel =
  forward :: "nat option"
  span :: u64

record 's zskiplistNode =
  ele :: "sds option"
  score :: "'s double"
  backward :: "nat option"
  levels :: "zskiplistLevel list"

record zskiplist =
  header :: nat
  tail :: "nat option"
  zlength :: u64
  level :: nat

text \<open>The nodes that are allocated, the next address, and what fresh memory holds.\<close>

record 's zheap =
  znodes :: "nat \<rightharpoonup> 's zskiplistNode"
  zbrk :: nat
  fresh_level :: "nat \<Rightarrow> zskiplistLevel"
  fresh_backward :: "nat option"

definition ZSKIPLIST_MAXLEVEL :: nat where
  "ZSKIPLIST_MAXLEVEL = 64"

definition get_level :: "'s zheap \<Rightarrow> nat \<Rightarrow> nat \<Rightarrow> zskiplistLevel option" where
  "get_level h a i = do { n \<leftarrow> znodes h a; if i < length (levels n) then Some (levels n ! i) else None }"

definition set_znode :: "nat \<Rightarrow> ('s zskiplistNode \<Rightarrow> 's zskiplistNode) \<Rightarrow> 's zheap \<Rightarrow> 's zheap option" where
  "set_znode a f h = do { n \<leftarrow> znodes h a; Some (h\<lparr>znodes := (znodes h)(a \<mapsto> f n)\<rparr>) }"

definition set_level :: "nat \<Rightarrow> nat \<Rightarrow> (zskiplistLevel \<Rightarrow> zskiplistLevel) \<Rightarrow> 's zheap \<Rightarrow> 's zheap option" where
  "set_level a i f h = do {
     l \<leftarrow> get_level h a i;
     set_znode a (\<lambda>n. n\<lparr>levels := (levels n)[i := f l]\<rparr>) h }"

text \<open>Reading a local array: \<^const>\<open>None\<close> outside the part that has been written.\<close>

definition elem_at :: "'a list \<Rightarrow> nat \<Rightarrow> 'a option" where
  "elem_at xs i = (if i < length xs then Some (xs ! i) else None)"

text \<open>\<open>for (i = a; i < a + n; i++)\<close>\<close>

fun for_up :: "nat \<Rightarrow> nat \<Rightarrow> (nat \<Rightarrow> 'h \<Rightarrow> 'h option) \<Rightarrow> 'h \<Rightarrow> 'h option" where
  "for_up i 0 body h = Some h"
| "for_up i (Suc n) body h = do { h \<leftarrow> body i h; for_up (Suc i) n body h }"

section \<open>Creation\<close>

definition zslCreateNode :: "nat \<Rightarrow> 's double \<Rightarrow> sds option \<Rightarrow> 's zheap \<Rightarrow> 's zheap \<times> nat" where
  "zslCreateNode lv s e h =
     (h\<lparr>znodes := (znodes h)(zbrk h \<mapsto>
          \<lparr>ele = e, score = s, backward = fresh_backward h, levels = map (fresh_level h) [0..<lv]\<rparr>),
        zbrk := zbrk h + 1\<rparr>,
      zbrk h)"

definition zslCreate :: "'s double \<Rightarrow> 's zheap \<Rightarrow> ('s zheap \<times> zskiplist) option" where
  "zslCreate zero h =
     (case zslCreateNode ZSKIPLIST_MAXLEVEL zero None h of (h, a) \<Rightarrow> do {
        h \<leftarrow> for_up 0 ZSKIPLIST_MAXLEVEL (\<lambda>j. set_level a j (\<lambda>l. l\<lparr>forward := None, span := 0\<rparr>)) h;
        h \<leftarrow> set_znode a (\<lambda>n. n\<lparr>backward := None\<rparr>) h;
        Some (h, \<lparr>header = a, tail = None, zlength = 0, level = 1\<rparr>) })"

definition zslFreeNode :: "nat \<Rightarrow> 's zheap \<Rightarrow> 's zheap option" where
  "zslFreeNode a h = do { _ \<leftarrow> znodes h a; Some (h\<lparr>znodes := (znodes h)(a := None)\<rparr>) }"

partial_function (option) free_loop :: "nat option \<Rightarrow> 's zheap \<Rightarrow> 's zheap option" where
  "free_loop node h =
     (case node of
        None \<Rightarrow> Some h
      | Some a \<Rightarrow> do {
          l \<leftarrow> get_level h a 0;
          h \<leftarrow> zslFreeNode a h;
          free_loop (forward l) h })"

definition zslFree :: "zskiplist \<Rightarrow> 's zheap \<Rightarrow> 's zheap option" where
  "zslFree zsl h = do {
     l \<leftarrow> get_level h (header zsl) 0;
     h \<leftarrow> zslFreeNode (header zsl) h;
     free_loop (forward l) h }"

text \<open>The level of a new node, from the numbers that \<open>random()\<close> returns.\<close>

fun random_loop :: "nat \<Rightarrow> u64 list \<Rightarrow> nat option" where
  "random_loop lv [] = None"
| "random_loop lv (r # rs) = (if uint (r AND 0xFFFF) * 4 < 0xFFFF then random_loop (lv + 1) rs else Some lv)"

definition zslRandomLevel :: "u64 list \<Rightarrow> nat option" where
  "zslRandomLevel rs = do {
     lv \<leftarrow> random_loop 1 rs;
     Some (if lv < ZSKIPLIST_MAXLEVEL then lv else ZSKIPLIST_MAXLEVEL) }"

section \<open>The search loop\<close>

text \<open>
  Every search is a \<open>while\<close> loop along the level \<open>i\<close> inside a \<open>for\<close> loop over the levels, from the top.  The
  loops differ in the condition on the node ahead and in what they sum up of the spans that they pass;
  \<open>descend\<close> collects \<open>update[i]\<close> and the sum at every level.
\<close>

partial_function (option) forward_loop ::
  "('r \<Rightarrow> u64 \<Rightarrow> 'r) \<Rightarrow> ('r \<Rightarrow> 's zskiplistNode \<Rightarrow> bool) \<Rightarrow> 's zheap \<Rightarrow> nat \<Rightarrow> nat \<Rightarrow> 'r \<Rightarrow> (nat \<times> 'r) option" where
  "forward_loop acc cond h i x t = do {
     l \<leftarrow> get_level h x i;
     case forward l of
       None \<Rightarrow> Some (x, t)
     | Some y \<Rightarrow> do {
         n \<leftarrow> znodes h y;
         if cond (acc t (span l)) n then forward_loop acc cond h i y (acc t (span l)) else Some (x, t) } }"

fun descend ::
  "('r \<Rightarrow> u64 \<Rightarrow> 'r) \<Rightarrow> ('r \<Rightarrow> 's zskiplistNode \<Rightarrow> bool) \<Rightarrow> 's zheap \<Rightarrow> nat \<Rightarrow> nat \<Rightarrow> 'r \<Rightarrow> (nat \<times> 'r) list \<Rightarrow>
   (nat \<times> 'r) list option" where
  "descend acc cond h 0 x t us = Some us"
| "descend acc cond h (Suc i) x t us = do {
     (x, t) \<leftarrow> forward_loop acc cond h i x t;
     descend acc cond h i x t ((x, t) # us) }"

text \<open>The node before the one that is looked for, by score and element.\<close>

definition node_less :: "'s::linorder double \<Rightarrow> sds \<Rightarrow> 's zskiplistNode \<Rightarrow> bool" where
  "node_less s e n \<longleftrightarrow>
     fless (score n) s \<or> feq (score n) s \<and> (case ele n of None \<Rightarrow> False | Some e' \<Rightarrow> sdscmp e' e < 0)"

definition node_leq :: "'s::linorder double \<Rightarrow> sds \<Rightarrow> 's zskiplistNode \<Rightarrow> bool" where
  "node_leq s e n \<longleftrightarrow>
     fless (score n) s \<or> feq (score n) s \<and> (case ele n of None \<Rightarrow> False | Some e' \<Rightarrow> sdscmp e' e \<le> 0)"

definition node_is :: "sds \<Rightarrow> 's zskiplistNode \<Rightarrow> bool" where
  "node_is e n \<longleftrightarrow> (case ele n of None \<Rightarrow> False | Some e' \<Rightarrow> sdscmp e' e = 0)"

definition no_sum :: "unit \<Rightarrow> u64 \<Rightarrow> unit" where
  "no_sum t s = ()"

definition rank32 :: "u32 \<Rightarrow> u64 \<Rightarrow> u32" where
  "rank32 t s = ucast ((ucast t :: u64) + s)"

section \<open>Insertion and deletion\<close>

definition zsl_search :: "zskiplist \<Rightarrow> 's zheap \<Rightarrow> ('s zskiplistNode \<Rightarrow> bool) \<Rightarrow> nat list option" where
  "zsl_search zsl h cond =
     map_option (map fst) (descend no_sum (\<lambda>_. cond) h (level zsl) (header zsl) () [])"

text \<open>The two loops of \<open>zslInsert\<close> that link the new node and that widen the spans above it.\<close>

definition insert_body :: "nat \<Rightarrow> (nat \<times> u32) list \<Rightarrow> nat \<Rightarrow> 's zheap \<Rightarrow> 's zheap option" where
  "insert_body x us i h = do {
     (u0, rank0) \<leftarrow> elem_at us 0;
     (u, rank) \<leftarrow> elem_at us i;
     l \<leftarrow> get_level h u i;
     h \<leftarrow> set_level x i (\<lambda>k. k\<lparr>forward := forward l\<rparr>) h;
     h \<leftarrow> set_level u i (\<lambda>k. k\<lparr>forward := Some x\<rparr>) h;
     l \<leftarrow> get_level h u i;
     h \<leftarrow> set_level x i (\<lambda>k. k\<lparr>span := span l - ucast (rank0 - rank)\<rparr>) h;
     set_level u i (\<lambda>k. k\<lparr>span := ucast ((rank0 - rank) + 1)\<rparr>) h }"

definition widen_body :: "(nat \<times> u32) list \<Rightarrow> nat \<Rightarrow> 's zheap \<Rightarrow> 's zheap option" where
  "widen_body us i h = do {
     (u, _) \<leftarrow> elem_at us i;
     set_level u i (\<lambda>k. k\<lparr>span := span k + 1\<rparr>) h }"

definition zslInsert :: "u64 list \<Rightarrow> zskiplist \<Rightarrow> 's::linorder double \<Rightarrow> sds \<Rightarrow> 's zheap \<Rightarrow>
   ('s zheap \<times> zskiplist \<times> nat) option" where
  "zslInsert rs zsl s e h = do {
     _ \<leftarrow> (if isnan s then None else Some ());
     us \<leftarrow> descend rank32 (\<lambda>_. node_less s e) h (level zsl) (header zsl) 0 [];
     lv \<leftarrow> zslRandomLevel rs;
     (h, zsl, us) \<leftarrow>
       (if lv > level zsl then do {
          h \<leftarrow> for_up (level zsl) (lv - level zsl)
                 (\<lambda>i. set_level (header zsl) i (\<lambda>k. k\<lparr>span := zlength zsl\<rparr>)) h;
          Some (h, zsl\<lparr>level := lv\<rparr>, us @ replicate (lv - level zsl) (header zsl, 0)) }
        else Some (h, zsl, us));
     let (h, x) = zslCreateNode lv s (Some e) h;
     h \<leftarrow> for_up 0 lv (insert_body x us) h;
     h \<leftarrow> for_up lv (level zsl - lv) (widen_body us) h;
     (u0, _) \<leftarrow> elem_at us 0;
     h \<leftarrow> set_znode x (\<lambda>n. n\<lparr>backward := (if u0 = header zsl then None else Some u0)\<rparr>) h;
     l \<leftarrow> get_level h x 0;
     (h, zsl) \<leftarrow>
       (case forward l of
          Some y \<Rightarrow> do { h \<leftarrow> set_znode y (\<lambda>n. n\<lparr>backward := Some x\<rparr>) h; Some (h, zsl) }
        | None \<Rightarrow> Some (h, zsl\<lparr>tail := Some x\<rparr>));
     Some (h, zsl\<lparr>zlength := zlength zsl + 1\<rparr>, x) }"

definition unlink_body :: "nat \<Rightarrow> nat list \<Rightarrow> nat \<Rightarrow> 's zheap \<Rightarrow> 's zheap option" where
  "unlink_body x us i h = do {
     u \<leftarrow> elem_at us i;
     l \<leftarrow> get_level h u i;
     if forward l = Some x then do {
       k \<leftarrow> get_level h x i;
       h \<leftarrow> set_level u i (\<lambda>l. l\<lparr>span := span l + (span k - 1)\<rparr>) h;
       set_level u i (\<lambda>l. l\<lparr>forward := forward k\<rparr>) h }
     else set_level u i (\<lambda>l. l\<lparr>span := span l - 1\<rparr>) h }"

fun lower_level :: "'s zheap \<Rightarrow> nat \<Rightarrow> nat \<Rightarrow> nat option" where
  "lower_level h a 0 = Some 0"
| "lower_level h a (Suc n) =
     (if Suc n > 1 then do {
        l \<leftarrow> get_level h a n;
        if forward l = None then lower_level h a n else Some (Suc n) }
      else Some (Suc n))"

definition zslDeleteNode :: "zskiplist \<Rightarrow> nat \<Rightarrow> nat list \<Rightarrow> 's zheap \<Rightarrow> ('s zheap \<times> zskiplist) option" where
  "zslDeleteNode zsl x us h = do {
     h \<leftarrow> for_up 0 (level zsl) (unlink_body x us) h;
     n \<leftarrow> znodes h x;
     l \<leftarrow> get_level h x 0;
     (h, zsl) \<leftarrow>
       (case forward l of
          Some y \<Rightarrow> do { h \<leftarrow> set_znode y (\<lambda>m. m\<lparr>backward := backward n\<rparr>) h; Some (h, zsl) }
        | None \<Rightarrow> Some (h, zsl\<lparr>tail := backward n\<rparr>));
     lv \<leftarrow> lower_level h (header zsl) (level zsl);
     Some (h, zsl\<lparr>level := lv, zlength := zlength zsl - 1\<rparr>) }"

text \<open>The result of \<open>zslDelete\<close> is the node that was unlinked; it is freed unless the caller asked for it.\<close>

definition zslDelete :: "zskiplist \<Rightarrow> 's::linorder double \<Rightarrow> sds \<Rightarrow> bool \<Rightarrow> 's zheap \<Rightarrow>
   ('s zheap \<times> zskiplist \<times> nat option) option" where
  "zslDelete zsl s e keep h = do {
     us \<leftarrow> zsl_search zsl h (node_less s e);
     u0 \<leftarrow> elem_at us 0;
     l \<leftarrow> get_level h u0 0;
     case forward l of
       None \<Rightarrow> Some (h, zsl, None)
     | Some x \<Rightarrow> do {
         n \<leftarrow> znodes h x;
         if feq s (score n) \<and> node_is e n then do {
           (h, zsl) \<leftarrow> zslDeleteNode zsl x us h;
           h \<leftarrow> (if keep then Some h else zslFreeNode x h);
           Some (h, zsl, Some x) }
         else Some (h, zsl, None) } }"

definition zslUpdateScore :: "u64 list \<Rightarrow> zskiplist \<Rightarrow> 's::linorder double \<Rightarrow> sds \<Rightarrow> 's double \<Rightarrow> 's zheap \<Rightarrow>
   ('s zheap \<times> zskiplist \<times> nat) option" where
  "zslUpdateScore rs zsl curscore e newscore h = do {
     us \<leftarrow> zsl_search zsl h (node_less curscore e);
     u0 \<leftarrow> elem_at us 0;
     l \<leftarrow> get_level h u0 0;
     x \<leftarrow> forward l;
     n \<leftarrow> znodes h x;
     _ \<leftarrow> (if feq curscore (score n) \<and> node_is e n then Some () else None);
     l \<leftarrow> get_level h x 0;
     before \<leftarrow> (case backward n of None \<Rightarrow> Some True
                 | Some b \<Rightarrow> do { m \<leftarrow> znodes h b; Some (fless (score m) newscore) });
     after \<leftarrow> (case forward l of None \<Rightarrow> Some True
                | Some b \<Rightarrow> do { m \<leftarrow> znodes h b; Some (fless newscore (score m)) });
     if before \<and> after then do {
       h \<leftarrow> set_znode x (\<lambda>n. n\<lparr>score := newscore\<rparr>) h;
       Some (h, zsl, x) }
     else do {
       (h, zsl) \<leftarrow> zslDeleteNode zsl x us h;
       n \<leftarrow> znodes h x;
       e \<leftarrow> ele n;
       (h, zsl, y) \<leftarrow> zslInsert rs zsl newscore e h;
       h \<leftarrow> set_znode x (\<lambda>n. n\<lparr>ele := None\<rparr>) h;
       h \<leftarrow> zslFreeNode x h;
       Some (h, zsl, y) } }"

section \<open>Ranks\<close>

fun rank_loop :: "'s::linorder double \<Rightarrow> sds \<Rightarrow> 's zheap \<Rightarrow> nat \<Rightarrow> nat \<Rightarrow> u64 \<Rightarrow> u64 option" where
  "rank_loop s e h 0 x rank = Some 0"
| "rank_loop s e h (Suc i) x rank = do {
     (x, rank) \<leftarrow> forward_loop (+) (\<lambda>_. node_leq s e) h i x rank;
     n \<leftarrow> znodes h x;
     if node_is e n then Some rank else rank_loop s e h i x rank }"

definition zslGetRank :: "zskiplist \<Rightarrow> 's::linorder double \<Rightarrow> sds \<Rightarrow> 's zheap \<Rightarrow> u64 option" where
  "zslGetRank zsl s e h = rank_loop s e h (level zsl) (header zsl) 0"

fun by_rank_loop :: "u64 \<Rightarrow> 's zheap \<Rightarrow> nat \<Rightarrow> nat \<Rightarrow> u64 \<Rightarrow> nat option option" where
  "by_rank_loop rank h 0 x traversed = Some None"
| "by_rank_loop rank h (Suc i) x traversed = do {
     (x, traversed) \<leftarrow> forward_loop (+) (\<lambda>t _. t \<le> rank) h i x traversed;
     if traversed = rank then Some (Some x) else by_rank_loop rank h i x traversed }"

definition zslGetElementByRank :: "zskiplist \<Rightarrow> u64 \<Rightarrow> 's zheap \<Rightarrow> nat option option" where
  "zslGetElementByRank zsl rank h = by_rank_loop rank h (level zsl) (header zsl) 0"

section \<open>The links of a skip list\<close>

text \<open>
  The nodes of a list in order are \<open>ns\<close>, the header first, and \<open>H\<close> gives their heights.  At level \<open>i\<close> a node
  points to the next one that is higher than \<open>i\<close>, and its span is the distance to it, or to the last node
  when there is none.
\<close>

fun gap :: "(nat \<Rightarrow> nat) \<Rightarrow> nat \<Rightarrow> nat list \<Rightarrow> nat" where
  "gap H i [] = 0"
| "gap H i (b # ys) = (if i < H b then 1 else Suc (gap H i ys))"

fun nxt :: "(nat \<Rightarrow> nat) \<Rightarrow> nat \<Rightarrow> nat list \<Rightarrow> nat option" where
  "nxt H i [] = None"
| "nxt H i (b # ys) = (if i < H b then Some b else nxt H i ys)"

definition low :: "(nat \<Rightarrow> nat) \<Rightarrow> nat \<Rightarrow> nat list \<Rightarrow> bool" where
  "low H i ys \<longleftrightarrow> (\<forall>b\<in>set ys. H b \<le> i)"

definition links :: "(nat \<Rightarrow> nat) \<Rightarrow> (nat \<Rightarrow> nat \<Rightarrow> zskiplistLevel option) \<Rightarrow> nat \<Rightarrow> nat list \<Rightarrow> bool" where
  "links H G lv ns \<longleftrightarrow>
     (\<forall>xs a ys i. ns = xs @ a # ys \<longrightarrow> i < lv \<longrightarrow> i < H a \<longrightarrow>
        G a i = Some \<lparr>forward = nxt H i ys, span = of_nat (gap H i ys)\<rparr>)"

text \<open>\<open>u\<close> is the last node of \<open>L\<close> that is higher than \<open>i\<close>, and \<open>r\<close> nodes are before it.\<close>

definition last_above :: "(nat \<Rightarrow> nat) \<Rightarrow> nat \<Rightarrow> nat list \<Rightarrow> nat \<Rightarrow> nat \<Rightarrow> bool" where
  "last_above H i L u r \<longleftrightarrow> (\<exists>xs zs. L = xs @ u # zs \<and> r = length xs \<and> i < H u \<and> low H i zs)"

lemma low_simps [simp]:
  "low H i []" "low H i (b # ys) \<longleftrightarrow> H b \<le> i \<and> low H i ys" "low H i (xs @ ys) \<longleftrightarrow> low H i xs \<and> low H i ys"
  by (auto simp: low_def)

lemma gap_append: "gap H i (zs @ ys) = (if low H i zs then length zs + gap H i ys else gap H i zs)"
  by (induction zs) auto

lemma gap_low: "low H i ys \<Longrightarrow> gap H i ys = length ys"
  by (induction ys) auto

lemma nxt_append:
  "nxt H i (zs @ ys) = (if low H i zs then nxt H i ys else nxt H i zs)"
  by (induction zs) auto

lemma nxt_low: "nxt H i ys = None \<longleftrightarrow> low H i ys"
  by (induction ys) auto

lemma nxt_split:
  assumes "nxt H i ys = Some b"
  shows "\<exists>us vs. ys = us @ b # vs \<and> low H i us \<and> i < H b \<and> gap H i ys = Suc (length us)"
  using assms
proof (induction ys)
  case (Cons c ys)
  show ?case
  proof (cases "i < H c")
    case True
    then show ?thesis using Cons.prems by (intro exI [of _ "[]"] exI [of _ ys]) auto
  next
    case False
    then obtain us vs where "ys = us @ b # vs" "low H i us" "i < H b" "gap H i ys = Suc (length us)"
      using Cons by auto
    then show ?thesis using False by (intro exI [of _ "c # us"] exI [of _ vs]) auto
  qed
qed simp

lemma gap_upd [simp]: "x \<notin> set ys \<Longrightarrow> gap (H(x := k)) i ys = gap H i ys"
  by (induction ys) auto

lemma nxt_upd [simp]: "x \<notin> set ys \<Longrightarrow> nxt (H(x := k)) i ys = nxt H i ys"
  by (induction ys) auto

lemma low_upd [simp]: "x \<notin> set ys \<Longrightarrow> low (H(x := k)) i ys = low H i ys"
  by (auto simp: low_def)

lemma linksD:
  assumes "links H G lv (xs @ a # ys)" and "i < lv" and "i < H a"
  shows "G a i = Some \<lparr>forward = nxt H i ys, span = of_nat (gap H i ys)\<rparr>"
  using assms by (auto simp: links_def)

lemma linksI:
  assumes "\<And>xs a ys i. \<lbrakk>ns = xs @ a # ys; i < lv; i < H a\<rbrakk> \<Longrightarrow>
             G a i = Some \<lparr>forward = nxt H i ys, span = of_nat (gap H i ys)\<rparr>"
  shows "links H G lv ns"
  using assms by (auto simp: links_def)

lemma links_cong:
  assumes "links H G lv ns" and "\<And>a i. a \<in> set ns \<Longrightarrow> i < lv \<Longrightarrow> G' a i = G a i" and "\<And>a. a \<in> set ns \<Longrightarrow> H' a = H a"
  shows "links H' G' lv ns"
proof (rule linksI)
  fix xs a ys i
  assume ns: "ns = xs @ a # ys" "i < lv" "i < H' a"
  have "\<And>b. b \<in> set ys \<Longrightarrow> H' b = H b" using assms(3) ns(1) by simp
  then have "nxt H' i ys = nxt H i ys" "gap H' i ys = gap H i ys"
    by (induction ys) auto
  then show "G' a i = Some \<lparr>forward = nxt H' i ys, span = of_nat (gap H' i ys)\<rparr>"
    using assms ns linksD [of H G lv xs a ys i] by simp
qed

lemma last_above_cases:
  assumes "last_above H i L u r" and "L = xs @ a # zs" and "i < H a" and "distinct L"
  shows "(a = u \<and> r = length xs \<and> low H i zs) \<or> (a \<noteq> u \<and> \<not> low H i zs)"
proof -
  obtain xs' zs' where L: "L = xs' @ u # zs'" "r = length xs'" "i < H u" "low H i zs'"
    using assms(1) by (auto simp: last_above_def)
  then have "xs' @ u # zs' = xs @ a # zs" using assms(2) by simp
  then consider "xs' = xs" "u = a" "zs' = zs"
    | ws where "xs' = xs @ a # ws" "zs = ws @ u # zs'"
    | ws where "xs = xs' @ u # ws" "zs' = ws @ a # zs"
    by (auto simp: append_eq_append_conv2 Cons_eq_append_conv append_eq_Cons_conv)
  then show ?thesis
    by cases (use L assms in auto)
qed

text \<open>Linking a node \<open>x\<close> of height \<open>k\<close> between \<open>L\<close> and \<open>R\<close>, and unlinking it.\<close>

lemma links_insert:
  assumes links: "links H G lv (L @ R)" and dist: "distinct (L @ R)" and x: "x \<notin> set (L @ R)"
    and k: "k \<le> lv"
    and u: "\<And>i. i < lv \<Longrightarrow> last_above H i L (u i) (r i)"
    and G': "\<And>a i. G' a i =
       (if i < k then
          (if a = x then map_option (\<lambda>l. \<lparr>forward = forward l, span = span l - of_nat (length L - 1 - r i)\<rparr>) (G (u i) i)
           else if a = u i then map_option (\<lambda>l. \<lparr>forward = Some x, span = of_nat (length L - 1 - r i) + 1\<rparr>) (G a i)
           else G a i)
        else if i < lv \<and> a = u i then map_option (\<lambda>l. l\<lparr>span := span l + 1\<rparr>) (G a i)
        else G a i)"
  shows "links (H(x := k)) G' lv (L @ x # R)"
proof (rule linksI)
  fix xs a ys i
  assume eq: "L @ x # R = xs @ a # ys" and i: "i < lv" and a: "i < (H(x := k)) a"
  obtain us zs where L: "L = us @ u i # zs" "r i = length us" "i < H (u i)" "low H i zs"
    using u [OF i] by (auto simp: last_above_def)
  have Gu: "G (u i) i = Some \<lparr>forward = nxt H i (zs @ R), span = of_nat (gap H i (zs @ R))\<rparr>"
    using linksD [of H G lv us "u i" "zs @ R" i] links L i by simp
  have rank: "length L - 1 - r i = length zs" using L by simp
  have ux: "u i \<noteq> x" using L x by auto
  from eq consider "xs = L" "a = x" "ys = R"
    | ws where "L = xs @ a # ws" "ys = ws @ x # R"
    | ws where "xs = L @ x # ws" "R = ws @ a # ys"
    by (auto simp: append_eq_append_conv2 Cons_eq_append_conv append_eq_Cons_conv)
  then show "G' a i = Some \<lparr>forward = nxt (H(x := k)) i ys, span = of_nat (gap (H(x := k)) i ys)\<rparr>"
  proof cases
    case 1
    then show ?thesis
      using a L(4) Gu rank x by (simp add: G' nxt_append gap_append)
  next
    case 2
    have "x \<notin> set ws" "x \<notin> set R" using x 2 by auto
    note upd = gap_upd [OF this(1)] gap_upd [OF this(2)] nxt_upd [OF this(1)] nxt_upd [OF this(2)] low_upd [OF this(1)]
    have ax: "a \<noteq> x" and Ha: "i < H a" using 2 x a by auto
    have Ga: "G a i = Some \<lparr>forward = nxt H i (ws @ R), span = of_nat (gap H i (ws @ R))\<rparr>"
      using linksD [of H G lv xs a "ws @ R" i] links 2 i Ha by simp
    consider "a = u i" "r i = length xs" "low H i ws" | "a \<noteq> u i" "\<not> low H i ws"
      using last_above_cases [OF u [OF i] 2(1) Ha] dist by auto
    then show ?thesis
    proof cases
      case 1
      have "length zs = length ws" using 1 2 L rank by simp
      then show ?thesis
        using 1 2 i ax Ga rank upd by (auto simp: G' nxt_append gap_append)
    next
      case high: 2
      then show ?thesis using 2 ax Ga upd by (auto simp: G' nxt_append gap_append)
    qed
  next
    case 3
    have "a \<noteq> x" "a \<noteq> u i" "i < H a" using 3 x dist L a by auto
    moreover have "G a i = Some \<lparr>forward = nxt H i ys, span = of_nat (gap H i ys)\<rparr>"
      using linksD [of H G lv "L @ ws" a ys i] links 3 i \<open>i < H a\<close> by simp
    moreover have "gap (H(x := k)) i ys = gap H i ys" "nxt (H(x := k)) i ys = nxt H i ys"
      using x 3 by (auto intro!: gap_upd nxt_upd)
    ultimately show ?thesis by (simp add: G')
  qed
qed

lemma links_delete:
  assumes links: "links H G lv (L @ x # R)" and dist: "distinct (L @ x # R)"
    and u: "\<And>i. i < lv \<Longrightarrow> last_above H i L (u i) (r i)"
    and G': "\<And>a i. G' a i =
       (if i < lv \<and> a = u i then
          (case G a i of None \<Rightarrow> None
           | Some l \<Rightarrow>
               if forward l = Some x
               then map_option (\<lambda>k. \<lparr>forward = forward k, span = span l + (span k - 1)\<rparr>) (G x i)
               else Some (l\<lparr>span := span l - 1\<rparr>))
        else G a i)"
  shows "links H G' lv (L @ R)"
proof (rule linksI)
  fix xs a ys i
  assume eq: "L @ R = xs @ a # ys" and i: "i < lv" and a: "i < H a"
  have uL: "u i \<in> set L" using u [OF i] by (auto simp: last_above_def)
  from eq consider ws where "L = xs @ a # ws" "ys = ws @ R" | ws where "xs = L @ ws" "R = ws @ a # ys"
    by (auto simp: append_eq_append_conv2 Cons_eq_append_conv append_eq_Cons_conv)
  then show "G' a i = Some \<lparr>forward = nxt H i ys, span = of_nat (gap H i ys)\<rparr>"
  proof cases
    case 1
    have Ga: "G a i = Some \<lparr>forward = nxt H i (ws @ x # R), span = of_nat (gap H i (ws @ x # R))\<rparr>"
      using linksD [of H G lv xs a "ws @ x # R" i] links 1 i a by simp
    have Gx: "i < H x \<Longrightarrow> G x i = Some \<lparr>forward = nxt H i R, span = of_nat (gap H i R)\<rparr>"
      using linksD [of H G lv L x R i] links i by simp
    have "nxt H i R \<noteq> Some x" using nxt_split [of H i R x] dist by auto
    then show ?thesis
      using last_above_cases [OF u [OF i] 1(1) a] dist 1 Ga Gx i
      by (auto simp: G' nxt_append gap_append)
  next
    case 2
    have "G a i = Some \<lparr>forward = nxt H i ys, span = of_nat (gap H i ys)\<rparr>"
      using linksD [of H G lv "L @ x # ws" a ys i] links 2 i a by simp
    moreover have "a \<noteq> u i" using 2 uL dist by auto
    ultimately show ?thesis by (simp add: G')
  qed
qed

section \<open>Views of the heap\<close>

text \<open>What a heap holds besides the links: the contents and the heights of the nodes.\<close>

definition shape :: "'s zheap \<Rightarrow> nat \<Rightarrow> (sds option \<times> 's double \<times> nat option \<times> nat) option" where
  "shape h a = map_option (\<lambda>n. (ele n, score n, backward n, length (levels n))) (znodes h a)"

definition height :: "'s zheap \<Rightarrow> nat \<Rightarrow> nat" where
  "height h a = (case znodes h a of None \<Rightarrow> 0 | Some n \<Rightarrow> length (levels n))"

definition upd_level :: "nat \<Rightarrow> nat \<Rightarrow> (zskiplistLevel \<Rightarrow> zskiplistLevel) \<Rightarrow> 's zheap \<Rightarrow> 's zheap" where
  "upd_level a i f h =
     h\<lparr>znodes := (znodes h)(a := map_option (\<lambda>n. n\<lparr>levels := (levels n)[i := f (levels n ! i)]\<rparr>) (znodes h a))\<rparr>"

lemma set_level_eq: "set_level a i f h = (if i < height h a then Some (upd_level a i f h) else None)"
  by (auto simp: set_level_def get_level_def set_znode_def upd_level_def height_def split: option.splits)

lemma get_level_None: "get_level h a i = None \<longleftrightarrow> height h a \<le> i"
  by (auto simp: get_level_def height_def split: option.splits)

lemma height_shape: "height h a = (case shape h a of None \<Rightarrow> 0 | Some (_, _, _, k) \<Rightarrow> k)"
  by (simp add: height_def shape_def split: option.split)

lemma shape_eq_height: "shape h' = shape h \<Longrightarrow> height h' = height h"
  by (rule ext) (simp add: height_shape)

lemma shape_upd_level [simp]: "shape (upd_level a i f h) = shape h"
  by (rule ext) (auto simp: shape_def upd_level_def option.map_comp o_def)

lemma height_upd_level [simp]: "height (upd_level a i f h) = height h"
  by (rule shape_eq_height) simp

lemma zbrk_upd_level [simp]: "zbrk (upd_level a i f h) = zbrk h"
  by (simp add: upd_level_def)

lemma get_level_upd_level [simp]:
  "get_level (upd_level a i f h) b j = (if b = a \<and> j = i then map_option f (get_level h a i) else get_level h b j)"
  by (cases "znodes h a") (auto simp: get_level_def upd_level_def)

lemma get_level_some: "i < height h a \<Longrightarrow> \<exists>l. get_level h a i = Some l"
  using get_level_None [of h a i] by (cases "get_level h a i") auto

text \<open>A loop whose body \<open>j\<close> changes links of the level \<open>j\<close> only.\<close>

lemma for_up_levels:
  assumes "\<And>j h. \<lbrakk>i \<le> j; j < i + n; shape h = sh; zbrk h = b; \<And>a k. j \<le> k \<Longrightarrow> get_level h a k = G a k\<rbrakk> \<Longrightarrow>
             \<exists>h'. body j h = Some h' \<and> shape h' = sh \<and> zbrk h' = b \<and>
               (\<forall>a k. get_level h' a k = (if k = j then F j a (\<lambda>c. get_level h c j) else get_level h a k))"
    and "shape h = sh" and "zbrk h = b" and "\<And>a k. i \<le> k \<Longrightarrow> get_level h a k = G a k"
  shows "\<exists>h'. for_up i n body h = Some h' \<and> shape h' = sh \<and> zbrk h' = b \<and>
           (\<forall>a k. get_level h' a k =
              (if i \<le> k \<and> k < i + n then F k a (\<lambda>c. get_level h c k) else get_level h a k))"
  using assms
proof (induction n arbitrary: i h)
  case (Suc n)
  obtain h1 where h1: "body i h = Some h1" "shape h1 = sh" "zbrk h1 = b"
    "\<And>a k. get_level h1 a k = (if k = i then F i a (\<lambda>c. get_level h c i) else get_level h a k)"
    using Suc.prems(1) [of i h] Suc.prems(2-4) by auto
  have "\<exists>h'. for_up (Suc i) n body h1 = Some h' \<and> shape h' = sh \<and> zbrk h' = b \<and>
          (\<forall>a k. get_level h' a k =
             (if Suc i \<le> k \<and> k < Suc i + n then F k a (\<lambda>c. get_level h1 c k) else get_level h1 a k))"
    by (rule Suc.IH) (use Suc.prems(1,4) h1 in auto)
  then obtain h' where "for_up (Suc i) n body h1 = Some h'" "shape h' = sh" "zbrk h' = b"
    "\<And>a k. get_level h' a k =
       (if Suc i \<le> k \<and> k < Suc i + n then F k a (\<lambda>c. get_level h1 c k) else get_level h1 a k)"
    by auto
  then show ?case using h1 by (intro exI [of _ h']) auto
qed auto

section \<open>Searching\<close>

text \<open>
  \<open>searchable\<close>: the nodes are \<open>L @ R\<close>, and the condition of a search holds of the nodes of \<open>L\<close> behind the first
  and of none of \<open>R\<close>; \<open>t m\<close> is the sum after \<open>m\<close> steps.
\<close>

definition searchable ::
  "('r \<Rightarrow> u64 \<Rightarrow> 'r) \<Rightarrow> ('r \<Rightarrow> 's zskiplistNode \<Rightarrow> bool) \<Rightarrow> (nat \<Rightarrow> 'r) \<Rightarrow> 's zheap \<Rightarrow> nat \<Rightarrow> nat list \<Rightarrow> nat list \<Rightarrow> bool" where
  "searchable acc cond t h lv L R \<longleftrightarrow>
     links (height h) (get_level h) lv (L @ R) \<and> (\<forall>a\<in>set (L @ R). znodes h a \<noteq> None) \<and>
     (\<forall>m d. acc (t m) (of_nat d) = t (m + d)) \<and>
     (\<forall>us a vs n. L @ R = us @ a # vs \<longrightarrow> us \<noteq> [] \<longrightarrow> znodes h a = Some n \<longrightarrow>
        cond (t (length us)) n = (length us < length L))"

lemma searchable_cond:
  assumes "searchable acc cond t h lv L R" and "L @ R = us @ a # vs" and "us \<noteq> []" and "znodes h a = Some n"
  shows "cond (t (length us)) n = (length us < length L)"
  using assms unfolding searchable_def by blast

lemma forward_loop_spec:
  assumes s: "searchable acc cond t h lv L R" and i: "i < lv"
    and L: "L = xs @ x # zs" and x: "i < height h x"
  shows "\<exists>y r. forward_loop acc cond h i x (t (length xs)) = Some (y, t r) \<and> last_above (height h) i L y r"
  using L x
proof (induction zs arbitrary: xs x rule: length_induct)
  case (1 zs)
  let ?H = "height h"
  have lv: "get_level h x i = Some \<lparr>forward = nxt ?H i (zs @ R), span = of_nat (gap ?H i (zs @ R))\<rparr>"
    using s 1 i linksD [of ?H "get_level h" lv xs x "zs @ R" i] by (auto simp: searchable_def)
  have acc: "acc (t m) (1 + of_nat d) = t (Suc (m + d))" for m d
    using s unfolding searchable_def by (metis add_Suc_right of_nat_Suc)
  show ?case
  proof (cases "nxt ?H i (zs @ R)")
    case None
    then have "low ?H i zs" by (simp add: nxt_low)
    then show ?thesis
      using lv None 1 by (subst forward_loop.simps) (auto simp: last_above_def)
  next
    case (Some b)
    obtain us vs where b: "zs @ R = us @ b # vs" "low ?H i us" "i < ?H b" "gap ?H i (zs @ R) = Suc (length us)"
      using nxt_split [OF Some] by auto
    have "b \<in> set (L @ R)" using b(1) 1(2) by (metis UnCI in_set_conv_decomp set_append append_assoc append_Cons)
    then obtain n where n: "znodes h b = Some n"
      using s unfolding searchable_def by blast
    have split: "L @ R = (xs @ x # us) @ b # vs" using b(1) 1(2) by simp
    have cond: "cond (t (length xs + Suc (length us))) n = (length xs + Suc (length us) < length L)"
      using searchable_cond [OF s split _ n] by simp
    show ?thesis
    proof (cases "length xs + Suc (length us) < length L")
      case True
      then have "length us < length zs" using 1(2) by simp
      then obtain ws where zs: "zs = us @ b # ws" "vs = ws @ R"
        using b(1) by (auto simp: append_eq_append_conv2 append_eq_Cons_conv)
      have "\<exists>y r. forward_loop acc cond h i b (t (length (xs @ x # us))) = Some (y, t r) \<and> last_above ?H i L y r"
        by (rule 1(1) [rule_format, of ws]) (use zs 1(2) b in auto)
      then show ?thesis
        using lv Some n cond True b acc by (subst forward_loop.simps) auto
    next
      case False
      then have "length zs \<le> length us" using 1(2) by simp
      then have "low ?H i zs"
        using b(1,2) by (auto simp: append_eq_append_conv2 Cons_eq_append_conv)
      then show ?thesis
        using lv Some n cond False b acc 1 by (subst forward_loop.simps) (auto simp: last_above_def)
    qed
  qed
qed

lemma descend_spec:
  assumes s: "searchable acc cond t h lv L R" and i: "i \<le> lv"
    and L: "L = xs @ x # zs" and x: "i \<le> height h x"
  shows "\<exists>vs. descend acc cond h i x (t (length xs)) us = Some (vs @ us) \<and> length vs = i \<and>
           (\<forall>j<i. \<exists>r. snd (vs ! j) = t r \<and> last_above (height h) j L (fst (vs ! j)) r)"
  using i L x
proof (induction i arbitrary: xs x zs us)
  case (Suc i)
  obtain y r where y: "forward_loop acc cond h i x (t (length xs)) = Some (y, t r)" "last_above (height h) i L y r"
    using forward_loop_spec [OF s _ Suc.prems(2), of i] Suc.prems by auto
  then obtain xs' zs' where L: "L = xs' @ y # zs'" "r = length xs'" "i < height h y"
    by (auto simp: last_above_def)
  obtain vs where vs: "descend acc cond h i y (t r) ((y, t r) # us) = Some (vs @ (y, t r) # us)" "length vs = i"
    "\<And>j. j < i \<Longrightarrow> \<exists>r. snd (vs ! j) = t r \<and> last_above (height h) j L (fst (vs ! j)) r"
    using Suc.IH [of xs' y zs' "(y, t r) # us"] L Suc.prems by auto
  have "\<exists>q. snd ((vs @ [(y, t r)]) ! j) = t q \<and> last_above (height h) j L (fst ((vs @ [(y, t r)]) ! j)) q"
    if "j < Suc i" for j
    using that y(2) vs(2,3) by (cases "j = i") (auto simp: nth_append)
  then show ?case
    using y vs by (intro exI [of _ "vs @ [(y, t r)]"]) auto
qed auto

section \<open>The order of the elements\<close>

lemma sdscmp_simps [simp]:
  "sdscmp [] [] = 0" "sdscmp [] (b # bs) = -1" "sdscmp (a # as) [] = 1"
  "sdscmp (a # as) (b # bs) = (if a = b then sdscmp as bs else uint a - uint b)"
  by (auto simp: sdscmp_def Let_def uint_0_iff word_uint_eq_iff)

lemma sdscmp_zero [simp]: "sdscmp a b = 0 \<longleftrightarrow> a = b"
  by (induction a b rule: list_induct2') (auto simp: word_uint_eq_iff)

lemma sdscmp_swap: "sdscmp a b > 0 \<longleftrightarrow> sdscmp b a < 0"
  by (induction a b rule: list_induct2') auto

lemma sdscmp_total: "a \<noteq> b \<Longrightarrow> sdscmp a b < 0 \<or> sdscmp b a < 0"
  using sdscmp_swap [of a b] sdscmp_zero [of a b] by linarith

lemma sdscmp_trans: "sdscmp a b < 0 \<Longrightarrow> sdscmp b c < 0 \<Longrightarrow> sdscmp a c < 0"
proof (induction a b arbitrary: c rule: list_induct2')
  case (4 x xs y ys)
  then show ?case by (cases c) (auto split: if_splits)
qed (case_tac c; auto)+

text \<open>\<open>sdscmp\<close> orders strings lexicographically by their bytes.\<close>

lemma sdscmp_lexord: "sdscmp a b < 0 \<longleftrightarrow> (a, b) \<in> lexord {(x, y). x < y}"
  by (induction a b rule: list_induct2') (auto simp: word_less_def)

fun kless :: "'s::linorder \<times> sds \<Rightarrow> 's \<times> sds \<Rightarrow> bool" where
  "kless (s, e) (s', e') \<longleftrightarrow> s < s' \<or> s = s' \<and> sdscmp e e' < 0"

lemma kless_trans: "kless p q \<Longrightarrow> kless q r \<Longrightarrow> kless p r"
  by (cases p; cases q; cases r) (auto intro: sdscmp_trans)

declare kless.simps [simp del]

lemma kless_irrefl [simp]: "\<not> kless p p"
  by (cases p) (simp add: kless.simps order.strict_iff_order)

lemma kless_total: "p \<noteq> q \<Longrightarrow> kless p q \<or> kless q p"
  by (cases p; cases q) (auto simp: kless.simps dest: sdscmp_total)

lemma kless_asym: "kless p q \<Longrightarrow> \<not> kless q p"
  using kless_trans kless_irrefl by blast

lemma kless_distinct: "sorted_wrt kless es \<Longrightarrow> distinct es"
  by (induction es) (auto dest: kless_irrefl [THEN notE])

text \<open>Two sorted lists with the same elements are equal.\<close>

lemma kless_unique: "sorted_wrt kless es \<Longrightarrow> sorted_wrt kless es' \<Longrightarrow> set es = set es' \<Longrightarrow> es = es'"
proof (induction es arbitrary: es')
  case (Cons p es)
  obtain q es2 where es': "es' = q # es2" using Cons.prems(3) by (cases es') auto
  have "p = q"
  proof (rule ccontr)
    assume ne: "p \<noteq> q"
    have "p \<in> set (q # es2)" "q \<in> set (p # es)"
      using Cons.prems(3) unfolding es' by (metis list.set_intros(1))+
    then have "kless q p" "kless p q" using ne Cons.prems(1,2) es' by auto
    then show False using kless_asym by blast
  qed
  moreover have "p \<notin> set es" "p \<notin> set es2"
    using Cons.prems(1,2) es' kless_irrefl \<open>p = q\<close> by (metis sorted_wrt.simps(2))+
  ultimately show ?case
    using Cons es' by (metis insert_ident list.simps(15) sorted_wrt.simps(2))
qed simp

section \<open>Well-formed skip lists\<close>

definition zentry :: "'s zheap \<Rightarrow> nat \<Rightarrow> ('s \<times> sds) option" where
  "zentry h a = (case shape h a of Some (Some e, Num s, _, _) \<Rightarrow> Some (s, e) | _ \<Rightarrow> None)"

definition prev_of :: "'s zheap \<Rightarrow> nat \<Rightarrow> nat option" where
  "prev_of h a = (case shape h a of Some (_, _, b, _) \<Rightarrow> b | None \<Rightarrow> None)"

definition last_opt :: "'a list \<Rightarrow> 'a option" where
  "last_opt xs = (if xs = [] then None else Some (last xs))"

definition backs :: "(nat \<Rightarrow> nat option) \<Rightarrow> nat list \<Rightarrow> bool" where
  "backs P ads \<longleftrightarrow> (\<forall>xs a ys. ads = xs @ a # ys \<longrightarrow> P a = last_opt xs)"

text \<open>\<open>zsl_wf h zsl ads es\<close>: the elements of \<open>zsl\<close> are at the addresses \<open>ads\<close>, in order, and are \<open>es\<close>.\<close>

definition zsl_wf :: "'s::linorder zheap \<Rightarrow> zskiplist \<Rightarrow> nat list \<Rightarrow> ('s \<times> sds) list \<Rightarrow> bool" where
  "zsl_wf h zsl ads es \<longleftrightarrow>
     distinct (header zsl # ads) \<and> (\<forall>a. shape h a \<noteq> None \<longrightarrow> a < zbrk h) \<and>
     (\<exists>s. shape h (header zsl) = Some (None, s, None, ZSKIPLIST_MAXLEVEL)) \<and>
     1 \<le> level zsl \<and> level zsl \<le> ZSKIPLIST_MAXLEVEL \<and>
     (\<forall>a\<in>set ads. 1 \<le> height h a \<and> height h a \<le> level zsl) \<and>
     links (height h) (get_level h) (level zsl) (header zsl # ads) \<and>
     (\<forall>i. level zsl \<le> i \<longrightarrow> i < ZSKIPLIST_MAXLEVEL \<longrightarrow> map_option forward (get_level h (header zsl) i) = Some None) \<and>
     backs (prev_of h) ads \<and>
     tail zsl = last_opt ads \<and> zlength zsl = of_nat (length ads) \<and>
     map (zentry h) ads = map Some es \<and> sorted_wrt kless es \<and> distinct (map snd es)"

lemma shape_eqs:
  assumes "shape h' = shape h"
  shows "height h' = height h" "zentry h' = zentry h" "prev_of h' = prev_of h"
  using assms by (auto simp: fun_eq_iff height_shape zentry_def prev_of_def)

lemma zentry_node:
  "zentry h a = Some (s, e) \<longleftrightarrow> (\<exists>n. znodes h a = Some n \<and> ele n = Some e \<and> score n = Num s)"
  by (auto simp: zentry_def shape_def split: option.splits double.splits)

lemma zsl_wf_length: "zsl_wf h zsl ads es \<Longrightarrow> length es = length ads"
  unfolding zsl_wf_def by (metis length_map)

lemma zsl_wf_nth: "zsl_wf h zsl ads es \<Longrightarrow> i < length ads \<Longrightarrow> zentry h (ads ! i) = Some (es ! i)"
  using zsl_wf_length [of h zsl ads es] unfolding zsl_wf_def by (metis nth_map)

lemma zsl_wf_header: "zsl_wf h zsl ads es \<Longrightarrow> height h (header zsl) = ZSKIPLIST_MAXLEVEL"
  by (auto simp: zsl_wf_def height_shape)

lemma zsl_wf_alloc: "zsl_wf h zsl ads es \<Longrightarrow> a \<in> set (header zsl # ads) \<Longrightarrow> znodes h a \<noteq> None"
  using zsl_wf_nth [of h zsl ads es] zentry_node [of h a]
  by (auto simp: in_set_conv_nth zsl_wf_def shape_def) (metis zentry_node option.distinct(1) surj_pair)

lemma zsl_wf_fresh: "zsl_wf h zsl ads es \<Longrightarrow> zbrk h \<notin> set (header zsl # ads)"
  using zsl_wf_alloc [of h zsl ads es "zbrk h"] by (auto simp: zsl_wf_def shape_def)

text \<open>Searches by a condition that a first part of the list satisfies and the rest does not.\<close>

lemma zsl_searchable:
  assumes wf: "zsl_wf h zsl ads es" and ads: "ads = A @ B" and es: "es = E @ F" and len: "length A = length E"
    and P: "\<And>p. p \<in> set E \<Longrightarrow> P p" "\<And>p. p \<in> set F \<Longrightarrow> \<not> P p"
    and cond: "\<And>n s e. \<lbrakk>ele n = Some e; score n = Num s\<rbrakk> \<Longrightarrow> cond n = P (s, e)"
    and acc: "\<And>m d. acc (t m) (of_nat d) = t (m + d)"
  shows "searchable acc (\<lambda>_. cond) t h (level zsl) (header zsl # A) B"
  unfolding searchable_def
proof (intro conjI allI impI ballI)
  show "links (height h) (get_level h) (level zsl) ((header zsl # A) @ B)"
    using wf ads by (simp add: zsl_wf_def)
  show "znodes h a \<noteq> None" if "a \<in> set ((header zsl # A) @ B)" for a
    using zsl_wf_alloc [OF wf] that ads by auto
  show "acc (t m) (of_nat d) = t (m + d)" for m d by (rule acc)
  fix us a vs n
  assume eq: "(header zsl # A) @ B = us @ a # vs" and ne: "us \<noteq> []" and n: "znodes h a = Some n"
  then obtain us' where us: "us = header zsl # us'" "ads = us' @ a # vs"
    using ads by (auto simp: Cons_eq_append_conv)
  have i: "length us' < length ads" "ads ! length us' = a" using us by auto
  have "zentry h a = Some (es ! length us')" using zsl_wf_nth [OF wf i(1)] i(2) by simp
  then have "cond n = P (es ! length us')"
    using n cond by (cases "es ! length us'") (auto simp: zentry_node)
  also have "\<dots> = (length us' < length E)"
    using P i(1) zsl_wf_length [OF wf] unfolding es by (auto simp: nth_append)
  finally show "cond n = (length us < length (header zsl # A))" using us len by simp
qed

section \<open>Insertion\<close>

lemma zsl_wf_node: "zsl_wf h zsl ads es \<Longrightarrow> a \<in> set ads \<Longrightarrow> 1 \<le> height h a \<and> height h a \<le> level zsl"
  by (simp add: zsl_wf_def)

lemma raise_spec:
  assumes wf: "zsl_wf h zsl ads es" and lv: "level zsl \<le> lv" "lv \<le> ZSKIPLIST_MAXLEVEL"
  shows "\<exists>h'. for_up (level zsl) (lv - level zsl) (\<lambda>i. set_level (header zsl) i (\<lambda>k. k\<lparr>span := zlength zsl\<rparr>)) h
                = Some h' \<and> shape h' = shape h \<and> zbrk h' = zbrk h \<and> zsl_wf h' (zsl\<lparr>level := lv\<rparr>) ads es"
proof -
  define F where "F = (\<lambda>j::nat. \<lambda>a. \<lambda>g :: nat \<Rightarrow> zskiplistLevel option.
    if a = header zsl then map_option (\<lambda>k. k\<lparr>span := zlength zsl\<rparr>) (g a) else g a)"
  have "\<exists>h'. for_up (level zsl) (lv - level zsl) (\<lambda>i. set_level (header zsl) i (\<lambda>k. k\<lparr>span := zlength zsl\<rparr>)) h
          = Some h' \<and> shape h' = shape h \<and> zbrk h' = zbrk h \<and>
          (\<forall>a k. get_level h' a k =
            (if level zsl \<le> k \<and> k < level zsl + (lv - level zsl) then F k a (\<lambda>c. get_level h c k)
             else get_level h a k))"
  proof (rule for_up_levels [where G = "get_level h"])
    fix j h'
    assume "level zsl \<le> j" "j < level zsl + (lv - level zsl)" and sh: "shape h' = shape h" and "zbrk h' = zbrk h"
    then have "j < height h' (header zsl)"
      using lv zsl_wf_header [OF wf] shape_eq_height [OF sh] by simp
    then show "\<exists>h''. set_level (header zsl) j (\<lambda>k. k\<lparr>span := zlength zsl\<rparr>) h' = Some h'' \<and> shape h'' = shape h \<and>
        zbrk h'' = zbrk h \<and>
        (\<forall>a k. get_level h'' a k = (if k = j then F j a (\<lambda>c. get_level h' c j) else get_level h' a k))"
      using sh \<open>zbrk h' = zbrk h\<close> by (auto simp: set_level_eq F_def)
  qed simp_all
  then obtain h' where h': "for_up (level zsl) (lv - level zsl)
        (\<lambda>i. set_level (header zsl) i (\<lambda>k. k\<lparr>span := zlength zsl\<rparr>)) h = Some h'" "shape h' = shape h" "zbrk h' = zbrk h"
    and G: "\<And>a k. get_level h' a k =
      (if level zsl \<le> k \<and> k < lv \<and> a = header zsl then map_option (\<lambda>k. k\<lparr>span := zlength zsl\<rparr>) (get_level h a k)
       else get_level h a k)"
    using lv(1) by (auto simp: F_def)
  note H = shape_eq_height [OF h'(2)]
  have top: "level zsl \<le> i \<Longrightarrow> i < ZSKIPLIST_MAXLEVEL \<Longrightarrow> map_option forward (get_level h (header zsl) i) = Some None" for i
    using wf by (simp add: zsl_wf_def)
  have "links (height h') (get_level h') lv (header zsl # ads)"
  proof (rule linksI)
    fix xs a ys i
    assume eq: "header zsl # ads = xs @ a # ys" and i: "i < lv" "i < height h' a"
    show "get_level h' a i = Some \<lparr>forward = nxt (height h') i ys, span = of_nat (gap (height h') i ys)\<rparr>"
    proof (cases "xs = [] \<and> level zsl \<le> i")
      case True
      then have "a = header zsl" "ys = ads" using eq by auto
      moreover have "low (height h) i ads"
        unfolding low_def using zsl_wf_node [OF wf] True le_trans by blast
      ultimately show ?thesis
        using True i lv top [of i] wf nxt_low [of "height h" i ads] by (auto simp: G H gap_low zsl_wf_def)
    next
      case False
      then have "i < level zsl" "level zsl \<le> i \<longrightarrow> a \<noteq> header zsl"
        using eq i zsl_wf_node [OF wf, of a] H by (auto simp: Cons_eq_append_conv) 
      then show ?thesis
        using wf linksD [of "height h" "get_level h" "level zsl" xs a ys i] eq i by (auto simp: G H zsl_wf_def)
    qed
  qed
  then have "zsl_wf h' (zsl\<lparr>level := lv\<rparr>) ads es"
    using wf lv(2) shape_eqs [OF h'(2)] top order_trans [OF lv(1)]
    by (auto simp: zsl_wf_def G h' intro: order_trans [OF _ lv(1)])
  then show ?thesis using h' by auto
qed

lemma create_shape:
  assumes "zslCreateNode lv s e h = (h', x)"
  shows "x = zbrk h" "zbrk h' = zbrk h + 1" "shape h' = (shape h)(x \<mapsto> (e, s, fresh_backward h, lv))"
    "height h' = (height h)(x := lv)" "\<And>a i. a \<noteq> x \<Longrightarrow> get_level h' a i = get_level h a i"
  using assms by (auto simp: zslCreateNode_def shape_def [abs_def] height_def [abs_def] get_level_def)

lemma insert_body_spec:
  assumes "i < length us" and "fst (us ! i) \<noteq> x" and "i < height h (fst (us ! i))" and "i < height h x"
  shows "\<exists>h'. insert_body x us i h = Some h' \<and> shape h' = shape h \<and> zbrk h' = zbrk h \<and>
    (\<forall>a k. get_level h' a k =
      (if k = i then
         (if a = x then map_option (\<lambda>l. \<lparr>forward = forward l, span = span l - ucast (snd (us ! 0) - snd (us ! i))\<rparr>)
                          (get_level h (fst (us ! i)) i)
          else if a = fst (us ! i)
          then map_option (\<lambda>l. \<lparr>forward = Some x, span = ucast ((snd (us ! 0) - snd (us ! i)) + 1)\<rparr>) (get_level h a i)
          else get_level h a i)
       else get_level h a k))"
proof -
  obtain u r where u: "us ! i = (u, r)" by fastforce
  obtain u0 r0 where u0: "us ! 0 = (u0, r0)" by fastforce
  obtain l where l: "get_level h u i = Some l" using get_level_some assms(3) u by fastforce
  obtain k where k: "get_level h x i = Some k" using get_level_some assms(4) by fastforce
  show ?thesis
    using assms u u0 l k by (auto simp: insert_body_def elem_at_def set_level_eq)
qed

lemma widen_body_spec:
  assumes "i < length us" and "i < height h (fst (us ! i))"
  shows "\<exists>h'. widen_body us i h = Some h' \<and> shape h' = shape h \<and> zbrk h' = zbrk h \<and>
    (\<forall>a k. get_level h' a k =
      (if k = i then (if a = fst (us ! i) then map_option (\<lambda>l. l\<lparr>span := span l + 1\<rparr>) (get_level h a i) else get_level h a i)
       else get_level h a k))"
  using assms by (cases "us ! i") (auto simp: widen_body_def elem_at_def set_level_eq)

lemma rank_word:
  assumes "r \<le> m" and "m + 1 < 2 ^ 32"
  shows "ucast (of_nat m - of_nat r :: u32) = (of_nat (m - r) :: u64)"
    and "ucast ((of_nat m - of_nat r :: u32) + 1) = (of_nat (m - r) + 1 :: u64)"
proof -
  have *: "ucast (of_nat k :: u32) = (of_nat k :: u64)" if "k < 2 ^ 32" for k
    using that by (simp add: unsigned_of_nat take_bit_nat_eq_self)
  have d: "(of_nat m - of_nat r :: u32) = of_nat (m - r)" using assms by (simp add: of_nat_diff)
  show "ucast (of_nat m - of_nat r :: u32) = (of_nat (m - r) :: u64)"
    unfolding d using assms by (intro *) simp
  have "ucast (of_nat (Suc (m - r)) :: u32) = (of_nat (Suc (m - r)) :: u64)"
    using assms by (intro *) simp
  then show "ucast ((of_nat m - of_nat r :: u32) + 1) = (of_nat (m - r) + 1 :: u64)"
    unfolding d by (simp add: add.commute)
qed

text \<open>The vector \<open>us\<close> of nodes and ranks that the search of \<open>zslInsert\<close> collects.\<close>

definition update_ok :: "'s zheap \<Rightarrow> nat list \<Rightarrow> nat \<Rightarrow> (nat \<times> u32) list \<Rightarrow> bool" where
  "update_ok h L lv us \<longleftrightarrow>
     length us = lv \<and> (\<forall>i<lv. \<exists>r. snd (us ! i) = of_nat r \<and> last_above (height h) i L (fst (us ! i)) r)"

lemma last_above_mem: "last_above H i L u r \<Longrightarrow> u \<in> set L \<and> i < H u \<and> r < length L"
  by (auto simp: last_above_def)

lemma last_above_bottom:
  assumes "last_above H 0 L u r" and "\<And>a. a \<in> set L \<Longrightarrow> 0 < H a"
  shows "r = length L - 1" "u = last L"
proof -
  obtain xs zs where L: "L = xs @ u # zs" "r = length xs" "low H 0 zs" using assms(1) by (auto simp: last_above_def)
  then have "zs = []" using assms(2) [of "hd zs"] by (cases zs) auto
  then show "r = length L - 1" "u = last L" using L by auto
qed

lemma insert_loop_spec:
  assumes u: "\<And>i. i < lv \<Longrightarrow> fst (us ! i) \<noteq> x \<and> i < height h (fst (us ! i)) \<and> i < length us" and x: "lv \<le> height h x"
  shows "\<exists>h'. for_up 0 lv (insert_body x us) h = Some h' \<and> shape h' = shape h \<and> zbrk h' = zbrk h \<and>
    (\<forall>a k. get_level h' a k =
      (if k < lv then
         (if a = x then map_option (\<lambda>l. \<lparr>forward = forward l, span = span l - ucast (snd (us ! 0) - snd (us ! k))\<rparr>)
                          (get_level h (fst (us ! k)) k)
          else if a = fst (us ! k)
          then map_option (\<lambda>l. \<lparr>forward = Some x, span = ucast ((snd (us ! 0) - snd (us ! k)) + 1)\<rparr>) (get_level h a k)
          else get_level h a k)
       else get_level h a k))"
proof -
  define F where "F = (\<lambda>i a (g :: nat \<Rightarrow> zskiplistLevel option).
     if a = x then map_option (\<lambda>l. \<lparr>forward = forward l, span = span l - ucast (snd (us ! 0) - snd (us ! i))\<rparr>) (g (fst (us ! i)))
     else if a = fst (us ! i) then map_option (\<lambda>l. \<lparr>forward = Some x, span = ucast ((snd (us ! 0) - snd (us ! i)) + 1)\<rparr>) (g a)
     else g a)"
  have "\<exists>h'. for_up 0 lv (insert_body x us) h = Some h' \<and> shape h' = shape h \<and> zbrk h' = zbrk h \<and>
      (\<forall>a k. get_level h' a k = (if 0 \<le> k \<and> k < 0 + lv then F k a (\<lambda>c. get_level h c k) else get_level h a k))"
  proof (rule for_up_levels [where G = "get_level h"])
    fix j h'
    assume j: "0 \<le> j" "j < 0 + lv" and h': "shape h' = shape h" "zbrk h' = zbrk h"
    have "j < length us" "fst (us ! j) \<noteq> x" "j < height h' (fst (us ! j))" "j < height h' x"
      using u [of j] j x shape_eq_height [OF h'(1)] by auto
    from insert_body_spec [OF this] h'
    show "\<exists>h''. insert_body x us j h' = Some h'' \<and> shape h'' = shape h \<and> zbrk h'' = zbrk h \<and>
        (\<forall>a k. get_level h'' a k = (if k = j then F j a (\<lambda>c. get_level h' c j) else get_level h' a k))"
      unfolding F_def by simp
  qed simp_all
  then show ?thesis unfolding F_def by simp
qed

lemma widen_loop_spec:
  assumes u: "\<And>i. i < lv + n \<Longrightarrow> i < height h (fst (us ! i)) \<and> i < length us"
  shows "\<exists>h'. for_up lv n (widen_body us) h = Some h' \<and> shape h' = shape h \<and> zbrk h' = zbrk h \<and>
    (\<forall>a k. get_level h' a k =
      (if lv \<le> k \<and> k < lv + n then
         (if a = fst (us ! k) then map_option (\<lambda>l. l\<lparr>span := span l + 1\<rparr>) (get_level h a k) else get_level h a k)
       else get_level h a k))"
proof -
  define F where "F = (\<lambda>i a (g :: nat \<Rightarrow> zskiplistLevel option).
     if a = fst (us ! i) then map_option (\<lambda>l. l\<lparr>span := span l + 1\<rparr>) (g a) else g a)"
  have "\<exists>h'. for_up lv n (widen_body us) h = Some h' \<and> shape h' = shape h \<and> zbrk h' = zbrk h \<and>
      (\<forall>a k. get_level h' a k = (if lv \<le> k \<and> k < lv + n then F k a (\<lambda>c. get_level h c k) else get_level h a k))"
  proof (rule for_up_levels [where G = "get_level h"])
    fix j h'
    assume j: "lv \<le> j" "j < lv + n" and h': "shape h' = shape h" "zbrk h' = zbrk h"
    have "j < length us" "j < height h' (fst (us ! j))"
      using u [of j] j shape_eq_height [OF h'(1)] by auto
    from widen_body_spec [OF this] h'
    show "\<exists>h''. widen_body us j h' = Some h'' \<and> shape h'' = shape h \<and> zbrk h'' = zbrk h \<and>
        (\<forall>a k. get_level h'' a k = (if k = j then F j a (\<lambda>c. get_level h' c j) else get_level h' a k))"
      unfolding F_def by simp
  qed simp_all
  then show ?thesis unfolding F_def by simp
qed

lemma link_spec:
  assumes wf: "zsl_wf h zsl (A @ B) es" and lv: "1 \<le> lv" "lv \<le> level zsl"
    and create: "zslCreateNode lv s e h = (h1, x)"
    and us: "update_ok h (header zsl # A) (level zsl) us" and len: "length A + 1 < 2 ^ 32"
  shows "\<exists>h2 h3. for_up 0 lv (insert_body x us) h1 = Some h2 \<and> for_up lv (level zsl - lv) (widen_body us) h2 = Some h3 \<and>
           shape h3 = shape h1 \<and> zbrk h3 = zbrk h1 \<and>
           links (height h3) (get_level h3) (level zsl) ((header zsl # A) @ x # B) \<and>
           (\<forall>i\<ge>level zsl. get_level h3 (header zsl) i = get_level h (header zsl) i)"
proof -
  let ?L = "header zsl # A" and ?u = "\<lambda>i. fst (us ! i)"
  note c = create_shape [OF create]
  have x: "x \<notin> set (?L @ B)"
    using zsl_wf_fresh [OF wf] c(1) by simp
  define r where "r = (\<lambda>i. SOME r. snd (us ! i) = of_nat r \<and> last_above (height h) i ?L (?u i) r)"
  have r: "snd (us ! i) = of_nat (r i)" "last_above (height h) i ?L (?u i) (r i)" if "i < level zsl" for i
    using us that unfolding update_ok_def r_def by (metis (mono_tags, lifting) someI_ex)+
  have u: "?u i \<noteq> x \<and> i < height h1 (?u i) \<and> i < length us" if "i < level zsl" for i
    using last_above_mem [OF r(2) [OF that]] x c(4) us that by (auto simp: update_ok_def)
  have "r 0 = length ?L - 1"
    using lv by (intro last_above_bottom [OF r(2)])
      (use zsl_wf_node [OF wf] zsl_wf_header [OF wf] in \<open>force simp: ZSKIPLIST_MAXLEVEL_def\<close>)+
  then have r0: "r 0 = length A" by simp
  have hx: "lv \<le> height h1 x" using c(4) by simp
  obtain h2 where h2: "for_up 0 lv (insert_body x us) h1 = Some h2" "shape h2 = shape h1" "zbrk h2 = zbrk h1"
    "\<And>a k. get_level h2 a k =
      (if k < lv then
         (if a = x then map_option (\<lambda>l. \<lparr>forward = forward l, span = span l - ucast (snd (us ! 0) - snd (us ! k))\<rparr>)
                          (get_level h1 (?u k) k)
          else if a = ?u k
          then map_option (\<lambda>l. \<lparr>forward = Some x, span = ucast ((snd (us ! 0) - snd (us ! k)) + 1)\<rparr>) (get_level h1 a k)
          else get_level h1 a k)
       else get_level h1 a k)"
    using insert_loop_spec [OF u [OF less_le_trans [OF _ lv(2)]] hx] by blast
  have u2: "i < height h2 (?u i) \<and> i < length us" if "i < lv + (level zsl - lv)" for i
    using u [of i] that lv shape_eq_height [OF h2(2)] by simp
  obtain h3 where h3: "for_up lv (level zsl - lv) (widen_body us) h2 = Some h3" "shape h3 = shape h1" "zbrk h3 = zbrk h1"
    "\<And>a k. get_level h3 a k =
      (if lv \<le> k \<and> k < level zsl then
         (if a = ?u k then map_option (\<lambda>l. l\<lparr>span := span l + 1\<rparr>) (get_level h2 a k) else get_level h2 a k)
       else get_level h2 a k)"
    using widen_loop_spec [of lv "level zsl - lv" h2 us, OF u2] lv unfolding h2(2,3) by auto
  have H: "height h3 = (height h)(x := lv)" using shape_eq_height [OF h3(2)] c(4) by simp
  have "links ((height h)(x := lv)) (get_level h3) (level zsl) (?L @ x # B)"
  proof (rule links_insert [where u = ?u and r = r])
    show "links (height h) (\<lambda>a i. if a = x then get_level h1 a i else get_level h a i) (level zsl) (?L @ B)"
    proof (rule links_cong)
      show "links (height h) (get_level h) (level zsl) (?L @ B)" using wf by (simp add: zsl_wf_def)
    qed (use x in auto)
    show "distinct (?L @ B)" using wf by (simp add: zsl_wf_def)
    fix a i
    have *: "ucast (snd (us ! 0) - snd (us ! i)) = (of_nat (length A - r i) :: u64)"
      "ucast (snd (us ! 0) - snd (us ! i) + 1) = (of_nat (length A - r i) + 1 :: u64)" if i: "i < level zsl"
    proof -
      have "r i \<le> length A" using last_above_mem [OF r(2) [OF i]] by simp
      note w = rank_word [OF this len]
      have "snd (us ! 0) = of_nat (length A)" using r(1) [of 0] r0 lv by simp
      then show "ucast (snd (us ! 0) - snd (us ! i)) = (of_nat (length A - r i) :: u64)"
        "ucast (snd (us ! 0) - snd (us ! i) + 1) = (of_nat (length A - r i) + 1 :: u64)"
        using w by (simp_all only: r(1) [OF i])
    qed
    show "get_level h3 a i =
        (if i < lv
         then if a = x then map_option (\<lambda>l. \<lparr>forward = forward l, span = span l - of_nat (length ?L - 1 - r i)\<rparr>)
                 (if ?u i = x then get_level h1 (?u i) i else get_level h (?u i) i)
              else if a = ?u i then map_option (\<lambda>l. \<lparr>forward = Some x, span = of_nat (length ?L - 1 - r i) + 1\<rparr>)
                 (if a = x then get_level h1 a i else get_level h a i)
              else (if a = x then get_level h1 a i else get_level h a i)
         else if i < level zsl \<and> a = ?u i then map_option (\<lambda>l. l\<lparr>span := span l + 1\<rparr>)
                 (if a = x then get_level h1 a i else get_level h a i)
         else (if a = x then get_level h1 a i else get_level h a i))"
    proof (cases "i < level zsl")
      case True
      then show ?thesis using u [OF True] * [OF True] by (simp add: h3(4) h2(4) c(5))
    next
      case False
      then show ?thesis using lv by (simp add: h3(4) h2(4) c(5))
    qed
  qed (use x lv r in auto)
  moreover have "get_level h3 (header zsl) i = get_level h (header zsl) i" if "i \<ge> level zsl" for i
    using that lv x by (simp add: h3(4) h2(4) c(5))
  ultimately show ?thesis using h2 h3 H by auto
qed

lemma backs_insert:
  assumes P: "backs P (A @ B)" and dist: "distinct (A @ x # B)"
    and P': "\<And>a. P' a = (if a = x then last_opt A else if B \<noteq> [] \<and> a = hd B then Some x else P a)"
  shows "backs P' (A @ x # B)"
  unfolding backs_def
proof (intro allI impI)
  fix xs a ys
  assume eq: "A @ x # B = xs @ a # ys"
  then consider "xs = A" "a = x" "ys = B" | ws where "A = xs @ a # ws" | ws where "xs = A @ x # ws" "B = ws @ a # ys"
    by (auto simp: append_eq_append_conv2 Cons_eq_append_conv append_eq_Cons_conv)
  then show "P' a = last_opt xs"
  proof cases
    case 2
    then have "A @ B = xs @ a # (ws @ B)" by simp
    then have "P a = last_opt xs" using P unfolding backs_def by blast
    moreover have "a \<noteq> x" "a \<notin> set B" using dist 2 by auto
    ultimately show ?thesis using P' by auto
  next
    case 3
    have "P a = last_opt (A @ ws)" using P 3 unfolding backs_def by (metis append_assoc)
    moreover have "a \<noteq> x" using dist 3 by auto
    moreover have "a = hd B \<longleftrightarrow> ws = []" using dist 3 by (cases ws) auto
    ultimately show ?thesis using 3 by (cases "ws = []") (auto simp: P' last_opt_def)
  qed (simp add: P')
qed

lemma backs_delete:
  assumes P: "backs P (A @ x # B)" and dist: "distinct (A @ x # B)"
    and P': "\<And>a. a \<noteq> x \<Longrightarrow> P' a = (if B \<noteq> [] \<and> a = hd B then last_opt A else P a)"
  shows "backs P' (A @ B)"
  unfolding backs_def
proof (intro allI impI)
  fix xs a ys
  assume eq: "A @ B = xs @ a # ys"
  then consider ws where "A = xs @ a # ws" | ws where "xs = A @ ws" "B = ws @ a # ys"
    by (auto simp: append_eq_append_conv2 Cons_eq_append_conv append_eq_Cons_conv)
  then show "P' a = last_opt xs"
  proof cases
    case 1
    then have "A @ x # B = xs @ a # (ws @ x # B)" by simp
    then have "P a = last_opt xs" using P unfolding backs_def by blast
    moreover have "a \<noteq> x" "a \<notin> set B" using dist 1 by auto
    ultimately show ?thesis using P' [of a] by auto
  next
    case 2
    have "A @ x # B = (A @ x # ws) @ a # ys" using 2 by simp
    then have "P a = last_opt (A @ x # ws)" using P unfolding backs_def by blast
    moreover have "a \<noteq> x" using dist 2 by auto
    moreover have "a = hd B \<longleftrightarrow> ws = []" using dist 2 by (cases ws) auto
    ultimately show ?thesis using 2 P' [of a] by (cases "ws = []") (auto simp: last_opt_def)
  qed
qed

definition upd_back :: "nat \<Rightarrow> nat option \<Rightarrow> 's zheap \<Rightarrow> 's zheap" where
  "upd_back a b h = h\<lparr>znodes := (znodes h)(a := map_option (\<lambda>n. n\<lparr>backward := b\<rparr>) (znodes h a))\<rparr>"

lemma set_back_eq:
  "set_znode a (\<lambda>n. n\<lparr>backward := b\<rparr>) h = (if shape h a = None then None else Some (upd_back a b h))"
  by (auto simp: set_znode_def upd_back_def shape_def split: option.splits)

lemma upd_back_simps [simp]:
  "shape (upd_back a b h) c = (if c = a then map_option (\<lambda>(e, s, _, k). (e, s, b, k)) (shape h a) else shape h c)"
  "get_level (upd_back a b h) = get_level h" "height (upd_back a b h) = height h" "zbrk (upd_back a b h) = zbrk h"
  "zentry (upd_back a b h) = zentry h"
  "prev_of (upd_back a b h) c = (if c = a \<and> shape h a \<noteq> None then b else prev_of h c)"
proof -
  show sh: "shape (upd_back a b h) c = (if c = a then map_option (\<lambda>(e, s, _, k). (e, s, b, k)) (shape h a) else shape h c)" for c
    by (simp add: shape_def upd_back_def option.map_comp o_def)
  show "get_level (upd_back a b h) = get_level h"
    by (intro ext) (cases "znodes h a"; simp add: get_level_def upd_back_def)
  show "height (upd_back a b h) = height h"
    by (rule ext) (simp add: height_def upd_back_def split: option.split)
  show "zbrk (upd_back a b h) = zbrk h" by (simp add: upd_back_def)
  show "zentry (upd_back a b h) = zentry h"
    by (rule ext) (auto simp: zentry_def sh split: option.split)
  show "prev_of (upd_back a b h) c = (if c = a \<and> shape h a \<noteq> None then b else prev_of h c)"
    by (cases "shape h a") (auto simp: prev_of_def sh)
qed

lemma nxt_bottom: "(\<And>a. a \<in> set ys \<Longrightarrow> 0 < H a) \<Longrightarrow> nxt H 0 ys = (if ys = [] then None else Some (hd ys))"
  by (cases ys) auto

lemma zsl_insert_wf:
  assumes wf: "zsl_wf h zsl (A @ B) (E @ F)" and len: "length A = length E" and lv: "1 \<le> lv" "lv \<le> level zsl"
    and x: "x = zbrk h" and brk: "zbrk h' = zbrk h + 1" and H: "height h' = (height h)(x := lv)"
    and links: "links (height h') (get_level h') (level zsl) ((header zsl # A) @ x # B)"
    and top: "\<And>i. i \<ge> level zsl \<Longrightarrow> get_level h' (header zsl) i = get_level h (header zsl) i"
    and zentry: "\<And>a. a \<noteq> x \<Longrightarrow> zentry h' a = zentry h a" "zentry h' x = Some (s, e)"
    and prev: "\<And>a. prev_of h' a = (if a = x then last_opt A else if B \<noteq> [] \<and> a = hd B then Some x else prev_of h a)"
    and shape: "shape h' (header zsl) = shape h (header zsl)" "\<And>a. shape h' a \<noteq> None \<longleftrightarrow> a = x \<or> shape h a \<noteq> None"
    and es: "sorted_wrt kless (E @ (s, e) # F)" "distinct (map snd (E @ (s, e) # F))"
  shows "zsl_wf h' (zsl\<lparr>tail := (if B = [] then Some x else tail zsl), zlength := zlength zsl + 1\<rparr>)
           (A @ x # B) (E @ (s, e) # F)"
proof -
  have fresh: "x \<notin> set (header zsl # A @ B)" using zsl_wf_fresh [OF wf] x by simp
  have dist: "distinct (header zsl # A @ x # B)" using wf fresh by (auto simp: zsl_wf_def)
  have alloc: "\<forall>a. shape h' a \<noteq> None \<longrightarrow> a < zbrk h'"
    using wf shape(2) brk x unfolding zsl_wf_def by (metis less_Suc_eq Suc_eq_plus1)
  have hdr: "\<exists>s. shape h' (header zsl) = Some (None, s, None, ZSKIPLIST_MAXLEVEL)"
    using wf shape(1) by (simp add: zsl_wf_def)
  have nodes: "\<forall>a\<in>set (A @ x # B). 1 \<le> height h' a \<and> height h' a \<le> level zsl"
    using wf lv fresh by (auto simp: zsl_wf_def H)
  have bk: "backs (prev_of h') (A @ x # B)"
    using wf dist prev by (intro backs_insert [where P = "prev_of h"]) (auto simp: zsl_wf_def)
  have tail: "(if B = [] then Some x else tail zsl) = last_opt (A @ x # B)"
    using wf by (auto simp: zsl_wf_def last_opt_def)
  have "map (zentry h) A @ map (zentry h) B = map Some E @ map Some F"
    using wf by (simp add: zsl_wf_def)
  then have "map (zentry h) A = map Some E" "map (zentry h) B = map Some F" using len by auto
  moreover have "map (zentry h') A = map (zentry h) A" "map (zentry h') B = map (zentry h) B"
    using fresh by (auto intro!: map_cong zentry(1))
  ultimately have ent: "map (zentry h') (A @ x # B) = map Some (E @ (s, e) # F)"
    using zentry(2) by simp
  show ?thesis
    using wf dist alloc hdr nodes links top bk tail ent es
    unfolding zsl_wf_def by simp
qed

lemma split_sorted:
  assumes "sorted_wrt kless es" and "k \<notin> set es"
  shows "\<exists>E F. es = E @ F \<and> (\<forall>p\<in>set E. kless p k) \<and> (\<forall>p\<in>set F. kless k p)"
proof (intro exI conjI)
  let ?P = "\<lambda>p. kless p k"
  show "es = takeWhile ?P es @ dropWhile ?P es" by simp
  show "\<forall>p\<in>set (takeWhile ?P es). kless p k" by (auto dest: set_takeWhileD)
  show "\<forall>p\<in>set (dropWhile ?P es). kless k p"
  proof (cases "dropWhile ?P es")
    case (Cons q qs)
    then have "\<not> kless q k" by (metis dropWhile_eq_Cons_conv)
    moreover have "q \<in> set es" using Cons by (metis list.set_intros(1) set_dropWhileD)
    ultimately have q: "kless k q" using assms(2) kless_total by metis
    have "sorted_wrt kless (takeWhile ?P es @ dropWhile ?P es)" using assms(1) by simp
    then have "\<forall>p\<in>set qs. kless q p" unfolding Cons by (simp add: sorted_wrt_append)
    then show ?thesis using q kless_trans unfolding Cons by (metis set_ConsD)
  next
    case Nil
    then show ?thesis by (simp only: list.set) simp
  qed
qed

lemma node_less_eq: "ele n = Some e' \<Longrightarrow> score n = Num s' \<Longrightarrow> node_less (Num s) e n = kless (s', e') (s, e)"
  by (simp add: node_less_def kless.simps)

lemma rank32_of_nat: "rank32 (of_nat m) (of_nat d) = of_nat (m + d)"
proof -
  have "(ucast (of_nat m :: u32) :: u64) + of_nat d = of_nat (take_bit 32 m + d)"
    by (simp add: unsigned_of_nat)
  then have "rank32 (of_nat m) (of_nat d) = of_nat (take_bit 64 (take_bit 32 m + d))"
    unfolding rank32_def by (simp only: unsigned_of_nat) simp
  also have "\<dots> = (of_nat (m + d) :: u32)"
    by (simp only: word_of_nat_eq_iff take_bit_take_bit) (simp add: take_bit_eq_mod mod_add_left_eq)
  finally show ?thesis .
qed

lemma random_level: "zslRandomLevel rs = Some lv \<Longrightarrow> 1 \<le> lv \<and> lv \<le> ZSKIPLIST_MAXLEVEL"
proof -
  have "random_loop k rs = Some l \<Longrightarrow> k \<le> l" for k l
    by (induction rs arbitrary: k) (auto split: if_splits dest: Suc_leD)
  from this [of 1] show "zslRandomLevel rs = Some lv \<Longrightarrow> 1 \<le> lv \<and> lv \<le> ZSKIPLIST_MAXLEVEL"
    by (auto simp: zslRandomLevel_def ZSKIPLIST_MAXLEVEL_def bind_eq_Some_conv)
qed

lemma zsl_descend:
  assumes wf: "zsl_wf h zsl ads es" and ads: "ads = A @ B" and es: "es = E @ F" and len: "length A = length E"
    and P: "\<And>p. p \<in> set E \<Longrightarrow> P p" "\<And>p. p \<in> set F \<Longrightarrow> \<not> P p"
    and cond: "\<And>n s e. \<lbrakk>ele n = Some e; score n = Num s\<rbrakk> \<Longrightarrow> cond n = P (s, e)"
    and acc: "\<And>m d. acc (t m) (of_nat d) = t (m + d)"
  shows "\<exists>us. descend acc (\<lambda>_. cond) h (level zsl) (header zsl) (t 0) [] = Some us \<and> length us = level zsl \<and>
           (\<forall>i<level zsl. \<exists>r. snd (us ! i) = t r \<and> last_above (height h) i (header zsl # A) (fst (us ! i)) r)"
proof -
  note s = zsl_searchable [where P = P and cond = cond and acc = acc and t = t, OF wf ads es len P cond acc]
  show ?thesis
    using descend_spec [OF s, of "level zsl" "[]" "header zsl" A "[]"] zsl_wf_header [OF wf] wf
    by (auto simp: zsl_wf_def)
qed

lemma split_lists:
  assumes "zsl_wf h zsl ads es" and "es = E @ F"
  obtains A B where "ads = A @ B" and "length A = length E"
proof
  show "ads = take (length E) ads @ drop (length E) ads" by simp
  show "length (take (length E) ads) = length E" using zsl_wf_length [OF assms(1)] assms(2) by simp
qed

lemma update_ok_raise:
  assumes wf: "zsl_wf h zsl (A @ B) es" and us: "update_ok h (header zsl # A) (level zsl) us"
    and lv: "level zsl \<le> lv" "lv \<le> ZSKIPLIST_MAXLEVEL" and H: "height h' = height h"
  shows "update_ok h' (header zsl # A) lv (us @ replicate (lv - level zsl) (header zsl, 0))"
  unfolding update_ok_def
proof (intro conjI allI impI)
  let ?us = "us @ replicate (lv - level zsl) (header zsl, 0 :: u32)"
  show "length ?us = lv" using us lv by (simp add: update_ok_def)
  fix i
  assume i: "i < lv"
  show "\<exists>r. snd (?us ! i) = of_nat r \<and> last_above (height h') i (header zsl # A) (fst (?us ! i)) r"
  proof (cases "i < level zsl")
    case True
    then show ?thesis using us H by (simp add: update_ok_def nth_append)
  next
    case False
    have "low (height h) i A"
      unfolding low_def using zsl_wf_node [OF wf] False by (metis Un_iff le_trans not_le_imp_less nat_less_le set_append)
    then have "last_above (height h) i (header zsl # A) (header zsl) 0"
      unfolding last_above_def using zsl_wf_header [OF wf] i lv by (intro exI [of _ "[]"] exI [of _ A]) simp
    then show ?thesis
      using False i us H by (intro exI [of _ 0]) (simp add: update_ok_def nth_append)
  qed
qed

text \<open>From the node that has been linked at all levels to the end of \<open>zslInsert\<close>.\<close>

lemma insert_finish:
  assumes wf: "zsl_wf h zsl (A @ B) (E @ F)" and len: "length A = length E" and lv: "1 \<le> lv" "lv \<le> level zsl"
    and create: "zslCreateNode lv (Num s) (Some e) h = (h1, x)"
    and h3: "shape h3 = shape h1" "zbrk h3 = zbrk h1"
    and links: "links (height h3) (get_level h3) (level zsl) ((header zsl # A) @ x # B)"
    and top: "\<forall>i\<ge>level zsl. get_level h3 (header zsl) i = get_level h (header zsl) i"
    and u0: "u0 = last (header zsl # A)"
    and es: "sorted_wrt kless (E @ (s, e) # F)" "distinct (map snd (E @ (s, e) # F))"
  shows "\<exists>h'. do {
           h \<leftarrow> set_znode x (\<lambda>n. n\<lparr>backward := (if u0 = header zsl then None else Some u0)\<rparr>) h3;
           l \<leftarrow> get_level h x 0;
           (h, zsl) \<leftarrow>
             (case forward l of
                Some y \<Rightarrow> do { h \<leftarrow> set_znode y (\<lambda>n. n\<lparr>backward := Some x\<rparr>) h; Some (h, zsl) }
              | None \<Rightarrow> Some (h, zsl\<lparr>tail := Some x\<rparr>));
           Some (h, zsl\<lparr>zlength := zlength zsl + 1\<rparr>, x) } =
           Some (h', zsl\<lparr>tail := (if B = [] then Some x else tail zsl), zlength := zlength zsl + 1\<rparr>, x) \<and>
         zsl_wf h' (zsl\<lparr>tail := (if B = [] then Some x else tail zsl), zlength := zlength zsl + 1\<rparr>)
           (A @ x # B) (E @ (s, e) # F) \<and>
         (\<forall>a. a \<notin> set (x # A @ B) \<longrightarrow> shape h' a = shape h a) \<and> (\<forall>a. a \<noteq> x \<longrightarrow> zentry h' a = zentry h a) \<and>
         zbrk h' = zbrk h + 1"
proof -
  note c = create_shape [OF create]
  have fresh: "x \<notin> set (header zsl # A @ B)" using zsl_wf_fresh [OF wf] c(1) by simp
  have hd: "header zsl \<notin> set (A @ B)" using wf by (simp add: zsl_wf_def)
  have "A \<noteq> [] \<Longrightarrow> last A \<noteq> header zsl" using hd by (metis Un_iff last_in_set set_append)
  then have bk: "(if u0 = header zsl then None else Some u0) = last_opt A"
    using u0 by (cases "A = []") (simp_all add: last_opt_def)
  have x: "shape h3 x = Some (Some e, Num s, fresh_backward h, lv)" "shape h3 x \<noteq> None" using h3 c by auto
  have H: "height h3 = (height h)(x := lv)" using shape_eq_height [OF h3(1)] c by simp
  have B: "b \<in> set B \<Longrightarrow> 0 < height h3 b \<and> shape h3 b \<noteq> None" for b
    using zsl_wf_node [OF wf, of b] zsl_wf_alloc [OF wf, of b] fresh h3 c H by (auto simp: shape_def)
  have l: "get_level h3 x 0 = Some \<lparr>forward = nxt (height h3) 0 B, span = of_nat (gap (height h3) 0 B)\<rparr>"
    using linksD [OF links, of 0] lv H by simp
  have nxt: "nxt (height h3) 0 B = (if B = [] then None else Some (hd B))"
    using B by (intro nxt_bottom) auto
  define h' where "h' = (if B = [] then upd_back x (last_opt A) h3 else upd_back (hd B) (Some x) (upd_back x (last_opt A) h3))"
  have hdB: "B \<noteq> [] \<Longrightarrow> hd B \<in> set B \<and> hd B \<noteq> x \<and> shape h3 (hd B) \<noteq> None"
    using B fresh hd_in_set [of B] by auto
  have brk': "zbrk h' = zbrk h + 1" using h3 c by (simp add: h'_def)
  have zentry': "zentry h' = zentry h3" by (auto simp: h'_def)
  have ent: "a \<noteq> x \<Longrightarrow> zentry h' a = zentry h a" for a using h3 c by (simp add: zentry' zentry_def)
  have prev3: "a \<noteq> x \<Longrightarrow> prev_of h3 a = prev_of h a" for a using h3 c by (simp add: prev_of_def)
  have "zsl_wf h' (zsl\<lparr>tail := (if B = [] then Some x else tail zsl), zlength := zlength zsl + 1\<rparr>)
          (A @ x # B) (E @ (s, e) # F)"
  proof (rule zsl_insert_wf [OF wf len lv c(1), where h' = h'])
    show "zbrk h' = zbrk h + 1" "height h' = (height h)(x := lv)" using h3 c H by (auto simp: h'_def)
    show "links (height h') (get_level h') (level zsl) ((header zsl # A) @ x # B)" using links by (auto simp: h'_def)
    show "get_level h' (header zsl) i = get_level h (header zsl) i" if "level zsl \<le> i" for i
      using top that by (auto simp: h'_def)
    show "zentry h' x = Some (s, e)" using h3 c zentry' by (simp add: zentry_def)
    show "a \<noteq> x \<Longrightarrow> zentry h' a = zentry h a" for a by (rule ent)
    show "prev_of h' a = (if a = x then last_opt A else if B \<noteq> [] \<and> a = hd B then Some x else prev_of h a)" for a
      using x(2) hdB prev3 [of a] by (auto simp: h'_def)
    show "shape h' (header zsl) = shape h (header zsl)"
      using h3 c fresh hd hdB by (auto simp: h'_def)
    show "shape h' a \<noteq> None \<longleftrightarrow> a = x \<or> shape h a \<noteq> None" for a
      using h3 c fresh by (auto simp: h'_def)
  qed (rule es)+
  moreover have "shape h' a = shape h a" if "a \<notin> set (x # A @ B)" for a
    using that h3 c hdB by (auto simp: h'_def)
  ultimately show ?thesis
    using ent x(2) hdB brk' by (intro exI [of _ h'], cases "B = []") (simp_all add: bk set_back_eq l nxt h'_def)
qed

lemma update_ok_bottom:
  assumes wf: "zsl_wf h zsl (A @ B) es" and us: "update_ok h (header zsl # A) lv us" and lv: "0 < lv"
  shows "\<exists>r. elem_at us 0 = Some (last (header zsl # A), r)"
proof -
  obtain r where "last_above (height h) 0 (header zsl # A) (fst (us ! 0)) r" "0 < length us"
    using us lv by (auto simp: update_ok_def)
  moreover have "a \<in> set (header zsl # A) \<Longrightarrow> 0 < height h a" for a
    using zsl_wf_node [OF wf, of a] zsl_wf_header [OF wf] by (auto simp: ZSKIPLIST_MAXLEVEL_def)
  ultimately show ?thesis
    using last_above_bottom(2) by (cases "us ! 0") (fastforce simp: elem_at_def)
qed

lemma zslInsert_spec:
  assumes wf: "zsl_wf h zsl ads es" and e: "e \<notin> snd ` set es" and len: "length ads + 1 < 2 ^ 32"
    and rs: "zslRandomLevel rs = Some lv"
  shows "\<exists>h' zsl' A B E F. zslInsert rs zsl (Num s) e h = Some (h', zsl', zbrk h) \<and>
           ads = A @ B \<and> es = E @ F \<and> length A = length E \<and>
           zsl_wf h' zsl' (A @ zbrk h # B) (E @ (s, e) # F) \<and> header zsl' = header zsl \<and> zbrk h' = zbrk h + 1 \<and>
           (\<forall>a. a \<notin> set (zbrk h # ads) \<longrightarrow> shape h' a = shape h a) \<and> (\<forall>a. a \<noteq> zbrk h \<longrightarrow> zentry h' a = zentry h a)"
proof -
  have sorted: "sorted_wrt kless es" using wf by (simp add: zsl_wf_def)
  have new: "(s, e) \<notin> set es" using e by force
  obtain E F where es: "es = E @ F" and E: "\<And>p. p \<in> set E \<Longrightarrow> kless p (s, e)" and F: "\<And>p. p \<in> set F \<Longrightarrow> kless (s, e) p"
    using split_sorted [OF sorted, of "(s, e)"] new by blast
  obtain A B where ads: "ads = A @ B" and AE: "length A = length E" using split_lists [OF wf es] .
  have es': "sorted_wrt kless (E @ (s, e) # F)" "distinct (map snd (E @ (s, e) # F))"
    using sorted E F es kless_trans wf e by (auto simp: sorted_wrt_append zsl_wf_def es)
  obtain us where us: "descend rank32 (\<lambda>_. node_less (Num s) e) h (level zsl) (header zsl) 0 [] = Some us"
    "update_ok h (header zsl # A) (level zsl) us"
    using zsl_descend [where P = "\<lambda>p. kless p (s, e)" and t = of_nat and cond = "node_less (Num s) e",
        OF wf ads es AE E kless_asym [OF F] node_less_eq rank32_of_nat]
    by (auto simp: update_ok_def)
  note lv = random_level [OF rs]
  define zsl1 where "zsl1 = (if lv > level zsl then zsl\<lparr>level := lv\<rparr> else zsl)"
  define us1 where "us1 = (if lv > level zsl then us @ replicate (lv - level zsl) (header zsl, 0) else us)"
  obtain h0 where h0: "(if lv > level zsl then do {
          h \<leftarrow> for_up (level zsl) (lv - level zsl)
                 (\<lambda>i. set_level (header zsl) i (\<lambda>k. k\<lparr>span := zlength zsl\<rparr>)) h;
          Some (h, zsl\<lparr>level := lv\<rparr>, us @ replicate (lv - level zsl) (header zsl, 0)) }
        else Some (h, zsl, us)) = Some (h0, zsl1, us1)" "shape h0 = shape h" "zbrk h0 = zbrk h" "zsl_wf h0 zsl1 ads es"
    using raise_spec [OF wf, of lv] lv wf by (cases "lv > level zsl") (auto simp: zsl1_def us1_def)
  have us1: "update_ok h0 (header zsl1 # A) (level zsl1) us1"
    using update_ok_raise [of h zsl A B es us lv h0] wf us lv shape_eq_height [OF h0(2)] ads
    by (auto simp: zsl1_def us1_def update_ok_def)
  have lv1: "1 \<le> lv" "lv \<le> level zsl1" using lv by (auto simp: zsl1_def)
  have wf0: "zsl_wf h0 zsl1 (A @ B) (E @ F)" using h0(4) ads es by simp
  obtain h1 x where create: "zslCreateNode lv (Num s) (Some e) h0 = (h1, x)" by fastforce
  have x: "x = zbrk h" using create_shape(1) [OF create] h0 by simp
  obtain h2 h3 where h3: "for_up 0 lv (insert_body x us1) h1 = Some h2"
    "for_up lv (level zsl1 - lv) (widen_body us1) h2 = Some h3" "shape h3 = shape h1" "zbrk h3 = zbrk h1"
    "links (height h3) (get_level h3) (level zsl1) ((header zsl1 # A) @ x # B)"
    "\<forall>i\<ge>level zsl1. get_level h3 (header zsl1) i = get_level h0 (header zsl1) i"
    using link_spec [OF wf0 lv1 create us1] len ads by auto
  obtain r where u0: "elem_at us1 0 = Some (last (header zsl1 # A), r)"
    using update_ok_bottom [OF wf0 us1] lv1 by auto
  let ?zsl' = "zsl1\<lparr>tail := (if B = [] then Some x else tail zsl1), zlength := zlength zsl1 + 1\<rparr>"
  obtain h' where h': "zslInsert rs zsl (Num s) e h = Some (h', ?zsl', x)"
    "zsl_wf h' ?zsl' (A @ x # B) (E @ (s, e) # F)" "zbrk h' = zbrk h0 + 1"
    "\<forall>a. a \<notin> set (x # A @ B) \<longrightarrow> shape h' a = shape h0 a" "\<forall>a. a \<noteq> x \<longrightarrow> zentry h' a = zentry h0 a"
    using insert_finish [OF wf0 AE lv1 create h3(3-6) refl es']
    unfolding zslInsert_def by (simp only: isnan_def double.distinct if_False us(1) rs h0(1) create h3(1,2) u0
      Option.bind.simps prod.case Let_def) blast
  have "header zsl1 = header zsl" by (simp add: zsl1_def)
  then show ?thesis
    using h' shape_eqs(2) [OF h0(2)] h0(2,3) x ads es AE
    by (intro exI [of _ h'] exI [of _ ?zsl'] exI [of _ A] exI [of _ B] exI [of _ E] exI [of _ F]) simp
qed

section \<open>Deletion\<close>

lemma links_mono: "links H G lv ns \<Longrightarrow> lv' \<le> lv \<Longrightarrow> links H G lv' ns"
  by (auto simp: links_def)

lemma lower_spec:
  assumes "links (height h) (get_level h) lv (a # ads)" and "lv \<le> height h a" and "1 \<le> lv"
    and "\<And>b. b \<in> set ads \<Longrightarrow> height h b \<le> lv"
  shows "\<exists>lv'. lower_level h a lv = Some lv' \<and> 1 \<le> lv' \<and> lv' \<le> lv \<and> (\<forall>b\<in>set ads. height h b \<le> lv')"
  using assms
proof (induction lv)
  case (Suc n)
  show ?case
  proof (cases "n = 0")
    case False
    have l: "get_level h a n = Some \<lparr>forward = nxt (height h) n ads, span = of_nat (gap (height h) n ads)\<rparr>"
      using Suc.prems linksD [of "height h" "get_level h" "Suc n" "[]" a ads n] by simp
    show ?thesis
    proof (cases "nxt (height h) n ads")
      case None
      then have "\<And>b. b \<in> set ads \<Longrightarrow> height h b \<le> n" by (simp add: nxt_low low_def)
      then obtain lv' where "lower_level h a n = Some lv'" "1 \<le> lv'" "lv' \<le> n" "\<forall>b\<in>set ads. height h b \<le> lv'"
        using Suc.IH [OF links_mono [OF Suc.prems(1)]] Suc.prems(2) False by auto
      then show ?thesis using l None False by (intro exI [of _ lv']) simp
    next
      case (Some b)
      then show ?thesis using l False Suc.prems by (intro exI [of _ "Suc n"]) simp
    qed
  qed (use Suc.prems in auto)
qed simp

lemma unlink_body_spec:
  assumes "i < length us" and "us ! i \<noteq> x" and "i < height h (us ! i)"
    and "map_option forward (get_level h (us ! i) i) = Some (Some x) \<Longrightarrow> i < height h x"
  shows "\<exists>h'. unlink_body x us i h = Some h' \<and> shape h' = shape h \<and> zbrk h' = zbrk h \<and>
    (\<forall>a k. get_level h' a k =
      (if k = i then
         (if a = us ! i then
            (case get_level h a i of None \<Rightarrow> None
             | Some l \<Rightarrow>
                 if forward l = Some x
                 then map_option (\<lambda>k. \<lparr>forward = forward k, span = span l + (span k - 1)\<rparr>) (get_level h x i)
                 else Some (l\<lparr>span := span l - 1\<rparr>))
          else get_level h a i)
       else get_level h a k))"
proof -
  obtain l where l: "get_level h (us ! i) i = Some l" using get_level_some [OF assms(3)] by auto
  show ?thesis
  proof (cases "forward l = Some x")
    case True
    then obtain k where k: "get_level h x i = Some k" using assms(4) l get_level_some by fastforce
    show ?thesis
      using assms l True k by (auto simp: unlink_body_def elem_at_def set_level_eq)
  next
    case False
    then show ?thesis using assms l by (auto simp: unlink_body_def elem_at_def set_level_eq)
  qed
qed

text \<open>The vector \<open>us\<close> of the nodes before the place where \<open>L\<close> ends.\<close>

definition path_ok :: "'s zheap \<Rightarrow> nat list \<Rightarrow> nat \<Rightarrow> nat list \<Rightarrow> bool" where
  "path_ok h L lv us \<longleftrightarrow> lv \<le> length us \<and> (\<forall>i<lv. \<exists>r. last_above (height h) i L (us ! i) r)"

lemma delete_loop_spec:
  assumes links: "links (height h) (get_level h) lv (L @ x # B)" and dist: "distinct (L @ x # B)"
    and us: "path_ok h L lv us"
  shows "\<exists>h'. for_up 0 lv (unlink_body x us) h = Some h' \<and> shape h' = shape h \<and> zbrk h' = zbrk h \<and>
           links (height h') (get_level h') lv (L @ B) \<and> (\<forall>i. get_level h' x i = get_level h x i) \<and>
           (\<forall>i\<ge>lv. \<forall>a. get_level h' a i = get_level h a i)"
proof -
  define r where "r = (\<lambda>i. SOME r. last_above (height h) i L (us ! i) r)"
  have r: "last_above (height h) i L (us ! i) (r i)" if "i < lv" for i
    using us that unfolding path_ok_def r_def by (metis (mono_tags, lifting) someI_ex)
  have u: "us ! i \<noteq> x \<and> i < height h (us ! i) \<and> i < length us" if "i < lv" for i
    using last_above_mem [OF r [OF that]] dist us that by (auto simp: path_ok_def)
  define F where "F = (\<lambda>i a (g :: nat \<Rightarrow> zskiplistLevel option).
     if a = us ! i then
       (case g a of None \<Rightarrow> None
        | Some l \<Rightarrow>
            if forward l = Some x
            then map_option (\<lambda>k. \<lparr>forward = forward k, span = span l + (span k - 1)\<rparr>) (g x)
            else Some (l\<lparr>span := span l - 1\<rparr>))
     else g a)"
  have fwd: "i < height h x" if i: "i < lv" and f: "map_option forward (get_level h (us ! i) i) = Some (Some x)" for i
  proof -
    obtain xs zs where L: "L = xs @ us ! i # zs" using r [OF i] by (auto simp: last_above_def)
    have "get_level h (us ! i) i = Some \<lparr>forward = nxt (height h) i (zs @ x # B), span = of_nat (gap (height h) i (zs @ x # B))\<rparr>"
      using linksD [of "height h" "get_level h" lv xs "us ! i" "zs @ x # B" i] links L i u [OF i] by simp
    then show ?thesis using f nxt_split [of "height h" i "zs @ x # B" x] by auto
  qed
  have "\<exists>h'. for_up 0 lv (unlink_body x us) h = Some h' \<and> shape h' = shape h \<and> zbrk h' = zbrk h \<and>
      (\<forall>a k. get_level h' a k = (if 0 \<le> k \<and> k < 0 + lv then F k a (\<lambda>c. get_level h c k) else get_level h a k))"
  proof (rule for_up_levels [where G = "get_level h"])
    fix j h'
    assume j: "0 \<le> j" "j < 0 + lv" and h': "shape h' = shape h" "zbrk h' = zbrk h"
      and g: "\<And>a k. j \<le> k \<Longrightarrow> get_level h' a k = get_level h a k"
    have b: "j < length us" "us ! j \<noteq> x" "j < height h' (us ! j)"
      using u [of j] j(2) shape_eq_height [OF h'(1)] by simp_all
    have f: "map_option forward (get_level h' (us ! j) j) = Some (Some x) \<Longrightarrow> j < height h' x"
      using fwd [of j] j(2) unfolding g [OF order_refl] shape_eq_height [OF h'(1)] by simp
    from unlink_body_spec [OF b f] h'
    show "\<exists>h''. unlink_body x us j h' = Some h'' \<and> shape h'' = shape h \<and> zbrk h'' = zbrk h \<and>
        (\<forall>a k. get_level h'' a k = (if k = j then F j a (\<lambda>c. get_level h' c j) else get_level h' a k))"
      unfolding F_def by simp
  qed simp_all
  then obtain h' where h': "for_up 0 lv (unlink_body x us) h = Some h'" "shape h' = shape h" "zbrk h' = zbrk h"
    and G: "\<And>a k. get_level h' a k = (if k < lv then F k a (\<lambda>c. get_level h c k) else get_level h a k)"
    by auto
  have "links (height h') (get_level h') lv (L @ B)"
    unfolding shape_eq_height [OF h'(2)]
    by (rule links_delete [OF links dist r]) (simp_all add: G F_def)
  moreover have "get_level h' x i = get_level h x i" for i
    using u [of i] by (cases "i < lv") (simp_all add: G F_def)
  moreover have "get_level h' a i = get_level h a i" if "i \<ge> lv" for a i
    using that by (simp add: G)
  ultimately show ?thesis using h' by blast
qed

lemma zsl_delete_wf:
  assumes wf: "zsl_wf h zsl (A @ x # B) (E @ p # F)" and len: "length A = length E"
    and h': "zbrk h' = zbrk h" "height h' = height h" "zentry h' = zentry h"
    and links: "links (height h') (get_level h') (level zsl) (header zsl # A @ B)"
    and top: "\<And>i a. i \<ge> level zsl \<Longrightarrow> get_level h' a i = get_level h a i"
    and prev: "\<And>a. prev_of h' a = (if B \<noteq> [] \<and> a = hd B then last_opt A else prev_of h a)"
    and shape: "shape h' (header zsl) = shape h (header zsl)" "\<And>a. shape h' a \<noteq> None \<longleftrightarrow> shape h a \<noteq> None"
    and lv: "1 \<le> lv" "lv \<le> level zsl" "\<forall>b\<in>set (A @ B). height h' b \<le> lv"
  shows "zsl_wf h' (zsl\<lparr>tail := (if B = [] then last_opt A else tail zsl), level := lv, zlength := zlength zsl - 1\<rparr>)
           (A @ B) (E @ F)"
proof -
  have dist: "distinct (header zsl # A @ x # B)" using wf by (simp add: zsl_wf_def)
  have hdr: "\<exists>s. shape h' (header zsl) = Some (None, s, None, ZSKIPLIST_MAXLEVEL)"
    using wf shape(1) by (simp add: zsl_wf_def)
  have top': "map_option forward (get_level h' (header zsl) i) = Some None" if "lv \<le> i" "i < ZSKIPLIST_MAXLEVEL" for i
  proof (cases "i < level zsl")
    case True
    have "low (height h') i (A @ B)" unfolding low_def using lv(3) that(1) by (meson order_trans)
    then show ?thesis
      using linksD [of "height h'" "get_level h'" "level zsl" "[]" "header zsl" "A @ B" i] links True that
        zsl_wf_header [OF wf] h'(2) nxt_low [of "height h'" i "A @ B"] by simp
  next
    case False
    then show ?thesis using wf that top [of i "header zsl"] by (simp add: zsl_wf_def)
  qed
  have bk: "backs (prev_of h') (A @ B)"
  proof (rule backs_delete)
    show "backs (prev_of h) (A @ x # B)" using wf by (simp add: zsl_wf_def)
    show "distinct (A @ x # B)" using dist by simp
  qed (rule prev)
  have tail: "(if B = [] then last_opt A else tail zsl) = last_opt (A @ B)"
    using wf by (auto simp: zsl_wf_def last_opt_def)
  have "map (zentry h) A @ zentry h x # map (zentry h) B = map Some E @ Some p # map Some F"
    using wf by (simp add: zsl_wf_def)
  then have "map (zentry h) (A @ B) = map Some (E @ F)" using len by simp
  then show ?thesis
    using wf dist hdr lv links_mono [OF links lv(2)] top' bk tail shape(2) h'
    unfolding zsl_wf_def by (auto simp: sorted_wrt_append)
qed

lemma zslDeleteNode_spec:
  assumes wf: "zsl_wf h zsl (A @ x # B) (E @ p # F)" and len: "length A = length E"
    and us: "path_ok h (header zsl # A) (level zsl) us"
  shows "\<exists>h' zsl'. zslDeleteNode zsl x us h = Some (h', zsl') \<and> zsl_wf h' zsl' (A @ B) (E @ F) \<and>
           header zsl' = header zsl \<and> level zsl' \<le> level zsl \<and> zbrk h' = zbrk h \<and>
           height h' = height h \<and> zentry h' = zentry h \<and> (\<forall>a. a \<notin> set B \<longrightarrow> shape h' a = shape h a) \<and>
           (\<forall>i. get_level h' x i = get_level h x i)"
proof -
  have dist: "distinct ((header zsl # A) @ x # B)" and links: "links (height h) (get_level h) (level zsl) ((header zsl # A) @ x # B)"
    and lv: "1 \<le> level zsl" "level zsl \<le> ZSKIPLIST_MAXLEVEL"
    using wf by (simp_all add: zsl_wf_def)
  obtain h1 where h1: "for_up 0 (level zsl) (unlink_body x us) h = Some h1" "shape h1 = shape h" "zbrk h1 = zbrk h"
    "links (height h1) (get_level h1) (level zsl) ((header zsl # A) @ B)" "\<forall>i. get_level h1 x i = get_level h x i"
    "\<forall>i\<ge>level zsl. \<forall>a. get_level h1 a i = get_level h a i"
    using delete_loop_spec [OF links dist us] by blast
  note eqs = shape_eqs [OF h1(2)]
  have node: "b \<in> set (A @ x # B) \<Longrightarrow> 0 < height h b \<and> height h b \<le> level zsl \<and> shape h b \<noteq> None" for b
    using zsl_wf_node [OF wf, of b] zsl_wf_alloc [OF wf, of b] by (auto simp: shape_def)
  have "shape h1 x \<noteq> None" using node [of x] h1(2) by simp
  then obtain n where n: "znodes h1 x = Some n" by (auto simp: shape_def)
  have "prev_of h1 x = last_opt A" using wf eqs(3) by (simp add: zsl_wf_def backs_def)
  then have bk: "backward n = last_opt A" using n by (simp add: prev_of_def shape_def)
  have "nxt (height h) 0 B = (if B = [] then None else Some (hd B))"
    using node by (intro nxt_bottom) auto
  then have l: "get_level h1 x 0 = Some \<lparr>forward = (if B = [] then None else Some (hd B)), span = of_nat (gap (height h) 0 B)\<rparr>"
    using linksD [OF links, of 0] lv node [of x] h1(5) by simp
  define h2 where "h2 = (if B = [] then h1 else upd_back (hd B) (last_opt A) h1)"
  have hdB: "B \<noteq> [] \<Longrightarrow> hd B \<in> set B \<and> shape h1 (hd B) \<noteq> None \<and> hd B \<noteq> header zsl"
    using node [of "hd B"] dist h1(2) by (cases B) auto
  have H2: "height h2 = height h" "get_level h2 = get_level h1" "zentry h2 = zentry h" "zbrk h2 = zbrk h"
    using eqs h1(3) by (auto simp: h2_def)
  have sh2: "shape h2 a = shape h a" if "a \<notin> set B" for a using that h1(2) hdB by (auto simp: h2_def)
  have links2: "links (height h2) (get_level h2) (level zsl) (header zsl # A @ B)" using h1(4) H2 eqs by simp
  obtain lv' where lv': "lower_level h2 (header zsl) (level zsl) = Some lv'" "1 \<le> lv'" "lv' \<le> level zsl"
    "\<forall>b\<in>set (A @ B). height h2 b \<le> lv'"
    using lower_spec [OF links2] lv zsl_wf_header [OF wf] H2(1) node by auto
  let ?zsl' = "zsl\<lparr>tail := (if B = [] then last_opt A else tail zsl), level := lv', zlength := zlength zsl - 1\<rparr>"
  have run: "zslDeleteNode zsl x us h = Some (h2, ?zsl')"
    using h1(1) n l bk hdB lv'(1) by (cases "B = []") (simp_all add: zslDeleteNode_def set_back_eq h2_def)
  have "zsl_wf h2 ?zsl' (A @ B) (E @ F)"
  proof (rule zsl_delete_wf [OF wf len H2(4,1,3) links2 _ _ _ _ lv'(2-4)])
    show "shape h2 (header zsl) = shape h (header zsl)" using sh2 dist by auto
    show "shape h2 a \<noteq> None \<longleftrightarrow> shape h a \<noteq> None" for a using h1(2) by (auto simp: h2_def)
    show "prev_of h2 a = (if B \<noteq> [] \<and> a = hd B then last_opt A else prev_of h a)" for a
      using hdB eqs(3) by (auto simp: h2_def)
    show "level zsl \<le> i \<Longrightarrow> get_level h2 a i = get_level h a i" for i a using H2(2) h1(6) by simp
  qed
  then show ?thesis
    using run H2 sh2 h1(5) lv'(3) by (intro exI [of _ h2] exI [of _ ?zsl']) simp
qed

text \<open>Only the nodes of a list matter for it.\<close>

lemma zsl_frame:
  assumes wf: "zsl_wf h zsl ads es" and same: "\<And>a. a \<in> set (header zsl # ads) \<Longrightarrow> znodes h' a = znodes h a"
    and alloc: "\<And>a. znodes h' a \<noteq> None \<Longrightarrow> a < zbrk h'"
  shows "zsl_wf h' zsl ads es"
proof -
  have eqs: "shape h' a = shape h a" "height h' a = height h a" "get_level h' a i = get_level h a i"
    "zentry h' a = zentry h a" "prev_of h' a = prev_of h a" if "a \<in> set (header zsl # ads)" for a i
    using same [OF that] by (simp_all add: shape_def height_def get_level_def zentry_def prev_of_def)
  have "links (height h') (get_level h') (level zsl) (header zsl # ads)"
  proof (rule links_cong)
    show "links (height h) (get_level h) (level zsl) (header zsl # ads)" using wf by (simp add: zsl_wf_def)
  qed (rule eqs; simp)+
  moreover have "backs (prev_of h') ads"
    using wf eqs(5) unfolding zsl_wf_def backs_def by (metis in_set_conv_decomp list.set_intros(2))
  moreover have "map (zentry h') ads = map (zentry h) ads" using eqs(4) by simp
  moreover have "\<forall>a. shape h' a \<noteq> None \<longrightarrow> a < zbrk h'" using alloc by (auto simp: shape_def)
  moreover have "shape h' (header zsl) = shape h (header zsl)"
    "\<And>i. get_level h' (header zsl) i = get_level h (header zsl) i"
    by (rule eqs; simp)+
  moreover have "\<forall>a\<in>set ads. 1 \<le> height h' a \<and> height h' a \<le> level zsl"
    using wf eqs(2) by (simp add: zsl_wf_def)
  ultimately show ?thesis
    using wf unfolding zsl_wf_def by simp
qed

lemma zslFreeNode_eq: "zslFreeNode a h = (if znodes h a = None then None else Some (h\<lparr>znodes := (znodes h)(a := None)\<rparr>))"
  by (auto simp: zslFreeNode_def split: option.splits)

lemma zsl_free:
  assumes wf: "zsl_wf h zsl ads es" and x: "x \<notin> set (header zsl # ads)"
  shows "zsl_wf (h\<lparr>znodes := (znodes h)(x := None)\<rparr>) zsl ads es"
  using wf x by (intro zsl_frame [OF wf]) (auto simp: zsl_wf_def shape_def split: if_splits)

lemma zentry_free [simp]: "zentry (h\<lparr>znodes := (znodes h)(x := None)\<rparr>) a = (if a = x then None else zentry h a)"
  by (simp add: zentry_def shape_def)

text \<open>A search by a condition that holds of a first part of the elements.\<close>

lemma split_antitone:
  assumes "sorted_wrt R es" and "\<And>p q. \<lbrakk>p \<in> set es; q \<in> set es; R p q; P q\<rbrakk> \<Longrightarrow> P p"
  shows "\<exists>E F. es = E @ F \<and> (\<forall>p\<in>set E. P p) \<and> (\<forall>p\<in>set F. \<not> P p)"
  using assms
proof (induction es)
  case (Cons p es)
  then obtain E F where es: "es = E @ F" "\<forall>p\<in>set E. P p" "\<forall>p\<in>set F. \<not> P p"
    by (metis list.set_intros(2) sorted_wrt.simps(2))
  show ?case
  proof (cases "P p")
    case True
    then show ?thesis using es by (intro exI [of _ "p # E"] exI [of _ F]) simp
  next
    case False
    then have "\<forall>q\<in>set es. \<not> P q" using Cons.prems by auto
    then show ?thesis using False by (intro exI [of _ "[]"] exI [of _ "p # es"]) simp
  qed
qed simp

lemma zsl_wf_height_pos: "zsl_wf h zsl ads es \<Longrightarrow> a \<in> set (header zsl # ads) \<Longrightarrow> 0 < height h a"
  using zsl_wf_node [of h zsl ads es a] zsl_wf_header [of h zsl ads es] by (auto simp: ZSKIPLIST_MAXLEVEL_def)

lemma level0_next:
  assumes wf: "zsl_wf h zsl ads es" and ads: "ads = A @ B"
  shows "\<exists>d. get_level h (last (header zsl # A)) 0 = Some \<lparr>forward = (if B = [] then None else Some (hd B)), span = d\<rparr>"
proof -
  have lv: "0 < level zsl" and links: "links (height h) (get_level h) (level zsl) (header zsl # A @ B)"
    using wf ads by (simp_all add: zsl_wf_def)
  have split: "header zsl # A @ B = butlast (header zsl # A) @ last (header zsl # A) # B"
    using append_butlast_last_id [of "header zsl # A"] by (metis Cons_eq_appendI append.assoc append_Nil list.distinct(1))
  have "last (header zsl # A) \<in> set (header zsl # A)" by (rule last_in_set) simp
  then have "0 < height h (last (header zsl # A))" using zsl_wf_height_pos [OF wf] ads by auto
  then have "get_level h (last (header zsl # A)) 0 = Some \<lparr>forward = nxt (height h) 0 B, span = of_nat (gap (height h) 0 B)\<rparr>"
    using linksD [OF links [unfolded split]] lv by blast
  moreover have "nxt (height h) 0 B = (if B = [] then None else Some (hd B))"
    using zsl_wf_height_pos [OF wf] ads by (intro nxt_bottom) simp
  ultimately show ?thesis by simp
qed

lemma zsl_search_spec:
  assumes wf: "zsl_wf h zsl ads es"
    and cond: "\<forall>n s e. ele n = Some e \<longrightarrow> score n = Num s \<longrightarrow> cond n = P (s, e)"
    and P: "\<forall>p\<in>set es. \<forall>q\<in>set es. kless p q \<longrightarrow> P q \<longrightarrow> P p"
  obtains us A B E F where "zsl_search zsl h cond = Some us" "ads = A @ B" "es = E @ F" "length A = length E"
    "\<forall>p\<in>set E. P p" "\<forall>p\<in>set F. \<not> P p" "path_ok h (header zsl # A) (level zsl) us"
    "elem_at us 0 = Some (last (header zsl # A))"
    "\<exists>d. get_level h (last (header zsl # A)) 0 = Some \<lparr>forward = (if B = [] then None else Some (hd B)), span = d\<rparr>"
proof -
  obtain E F where es: "es = E @ F" "\<forall>p\<in>set E. P p" "\<forall>p\<in>set F. \<not> P p"
    using split_antitone [of kless es P] wf P by (auto simp: zsl_wf_def)
  obtain A B where ads: "ads = A @ B" "length A = length E" using split_lists [OF wf es(1)] .
  obtain vs where vs: "descend no_sum (\<lambda>_. cond) h (level zsl) (header zsl) () [] = Some vs" "length vs = level zsl"
    "\<And>i. i < level zsl \<Longrightarrow> \<exists>r. last_above (height h) i (header zsl # A) (fst (vs ! i)) r"
    using zsl_descend [where P = P and t = "\<lambda>_. ()" and cond = cond and acc = no_sum,
        OF wf ads(1) es(1) ads(2) es(2) [rule_format] es(3) [rule_format] cond [rule_format] no_sum_def]
    by auto
  have path: "path_ok h (header zsl # A) (level zsl) (map fst vs)"
    using vs by (simp add: path_ok_def)
  have lv: "0 < level zsl" using wf by (simp add: zsl_wf_def)
  have posA: "0 < height h a" if "a \<in> set (header zsl # A)" for a
    using that zsl_wf_height_pos [OF wf, of a] ads by auto
  obtain r where r: "last_above (height h) 0 (header zsl # A) (map fst vs ! 0) r"
    using vs lv by auto
  have u0: "elem_at (map fst vs) 0 = Some (last (header zsl # A))"
    using last_above_bottom(2) [OF r posA] vs(2) lv by (simp add: elem_at_def)
  show thesis
    using that [OF _ ads(1) es(1) ads(2) _ _ path u0 level0_next [OF wf ads(1)]] vs(1) es by (simp add: zsl_search_def)
qed

lemma node_less_all: "\<forall>n s' e'. ele n = Some e' \<longrightarrow> score n = Num s' \<longrightarrow> node_less (Num s) e n = kless (s', e') (s, e)"
  by (simp add: node_less_eq)

lemma kless_down: "\<forall>p\<in>M. \<forall>q\<in>M. kless p q \<longrightarrow> kless q k \<longrightarrow> kless p k"
  using kless_trans by blast

lemma zsl_find:
  assumes wf: "zsl_wf h zsl ads es" and mem: "(s, e) \<in> set es"
  obtains us A x B E F n d where "zsl_search zsl h (node_less (Num s) e) = Some us" "ads = A @ x # B"
    "es = E @ (s, e) # F" "length A = length E" "path_ok h (header zsl # A) (level zsl) us"
    "elem_at us 0 = Some (last (header zsl # A))"
    "get_level h (last (header zsl # A)) 0 = Some \<lparr>forward = Some x, span = d\<rparr>"
    "znodes h x = Some n" "ele n = Some e" "score n = Num s"
proof -
  obtain us A B E F where us: "zsl_search zsl h (node_less (Num s) e) = Some us" "ads = A @ B" "es = E @ F"
    "length A = length E" "\<forall>p\<in>set E. kless p (s, e)" "\<forall>p\<in>set F. \<not> kless p (s, e)"
    "path_ok h (header zsl # A) (level zsl) us" "elem_at us 0 = Some (last (header zsl # A))"
    "\<exists>d. get_level h (last (header zsl # A)) 0 = Some \<lparr>forward = (if B = [] then None else Some (hd B)), span = d\<rparr>"
    by (rule zsl_search_spec [OF wf node_less_all kless_down])
  have "(s, e) \<in> set F" using mem us(3,5) kless_irrefl by (metis Un_iff set_append)
  then obtain q F' where F: "F = q # F'" by (cases F) auto
  have "sorted_wrt kless (E @ F)" using wf us(3) by (simp add: zsl_wf_def)
  then have "q = (s, e)"
    using us(6) \<open>(s, e) \<in> set F\<close> unfolding F by (auto simp: sorted_wrt_append)
  moreover obtain x B' where B: "B = x # B'"
    using zsl_wf_length [OF wf] us(2-4) F by (cases B) auto
  moreover have "zentry h x = Some (es ! length A)"
    using zsl_wf_nth [OF wf, of "length A"] us(2) B by simp
  then have "zentry h x = Some (s, e)" using us(3,4) F \<open>q = (s, e)\<close> by simp
  then obtain n where "znodes h x = Some n" "ele n = Some e" "score n = Num s" by (auto simp: zentry_node)
  moreover obtain d where "get_level h (last (header zsl # A)) 0 = Some \<lparr>forward = Some x, span = d\<rparr>"
    using us(9) B by auto
  ultimately show thesis using that us F by blast
qed

lemma zslDelete_found:
  assumes wf: "zsl_wf h zsl ads es" and mem: "(s, e) \<in> set es"
  shows "\<exists>h' zsl' A x B E F. zslDelete zsl (Num s) e keep h = Some (h', zsl', Some x) \<and>
           ads = A @ x # B \<and> es = E @ (s, e) # F \<and> length A = length E \<and> zsl_wf h' zsl' (A @ B) (E @ F) \<and>
           header zsl' = header zsl \<and> zbrk h' = zbrk h \<and>
           zentry h' x = (if keep then Some (s, e) else None) \<and> (\<forall>a. a \<noteq> x \<longrightarrow> zentry h' a = zentry h a)"
proof -
  obtain us A x B E F n d where f: "zsl_search zsl h (node_less (Num s) e) = Some us" "ads = A @ x # B"
    "es = E @ (s, e) # F" "length A = length E" "path_ok h (header zsl # A) (level zsl) us"
    "elem_at us 0 = Some (last (header zsl # A))"
    "get_level h (last (header zsl # A)) 0 = Some \<lparr>forward = Some x, span = d\<rparr>"
    "znodes h x = Some n" "ele n = Some e" "score n = Num s"
    by (rule zsl_find [OF wf mem])
  obtain h1 zsl' where d: "zslDeleteNode zsl x us h = Some (h1, zsl')" "zsl_wf h1 zsl' (A @ B) (E @ F)"
    "header zsl' = header zsl" "zbrk h1 = zbrk h" "zentry h1 = zentry h" "\<forall>a. a \<notin> set B \<longrightarrow> shape h1 a = shape h a"
    using zslDeleteNode_spec [OF wf [unfolded f(2,3)] f(4,5)] by blast
  have x: "x \<notin> set (header zsl' # A @ B)" using wf f(2) d(3) by (simp add: zsl_wf_def)
  have "shape h1 x = shape h x" using d(6) x by simp
  then have x1: "znodes h1 x \<noteq> None" using f(8) by (auto simp: shape_def)
  define h' where "h' = (if keep then h1 else h1\<lparr>znodes := (znodes h1)(x := None)\<rparr>)"
  have "zslDelete zsl (Num s) e keep h = Some (h', zsl', Some x)"
    using f d(1) x1 by (auto simp: zslDelete_def node_is_def zslFreeNode_eq h'_def)
  moreover have "zsl_wf h' zsl' (A @ B) (E @ F)" using d(2) zsl_free [OF d(2) x] by (simp add: h'_def)
  moreover have "zentry h' x = (if keep then Some (s, e) else None)"
    using d(5) f by (simp add: h'_def zentry_node)
  moreover have "zentry h' a = zentry h a" if "a \<noteq> x" for a
    using that d(5) by (simp add: h'_def)
  moreover have "zbrk h' = zbrk h" using d(4) by (simp add: h'_def)
  ultimately show ?thesis using f(2-4) d(3) by blast
qed

lemma zslDelete_missing:
  assumes wf: "zsl_wf h zsl ads es" and new: "\<And>s'. s = Num s' \<Longrightarrow> (s', e) \<notin> set es"
  shows "zslDelete zsl s e keep h = Some (h, zsl, None)"
proof -
  define P where "P = (\<lambda>p. case s of NaN \<Rightarrow> False | Num s' \<Rightarrow> kless p (s', e))"
  have cond: "\<forall>n s' e'. ele n = Some e' \<longrightarrow> score n = Num s' \<longrightarrow> node_less s e n = P (s', e')"
    by (cases s) (simp_all add: P_def node_less_def kless.simps)
  have anti: "\<forall>p\<in>set es. \<forall>q\<in>set es. kless p q \<longrightarrow> P q \<longrightarrow> P p"
    using kless_trans by (cases s) (auto simp: P_def)
  obtain us A B E F where us: "zsl_search zsl h (node_less s e) = Some us" "ads = A @ B" "es = E @ F"
    "length A = length E" "\<forall>p\<in>set E. P p" "\<forall>p\<in>set F. \<not> P p"
    "path_ok h (header zsl # A) (level zsl) us" "elem_at us 0 = Some (last (header zsl # A))"
    "\<exists>d. get_level h (last (header zsl # A)) 0 = Some \<lparr>forward = (if B = [] then None else Some (hd B)), span = d\<rparr>"
    by (rule zsl_search_spec [OF wf cond anti])
  obtain d where d: "get_level h (last (header zsl # A)) 0 = Some \<lparr>forward = (if B = [] then None else Some (hd B)), span = d\<rparr>"
    using us(9) by blast
  show ?thesis
  proof (cases B)
    case Nil
    then show ?thesis using us d by (simp add: zslDelete_def)
  next
    case (Cons x B')
    have i: "length A < length ads" "ads ! length A = x" using us(2) Cons by auto
    then obtain s' e' where p: "es ! length A = (s', e')" "(s', e') \<in> set es"
      using zsl_wf_length [OF wf] by (metis nth_mem surj_pair)
    then obtain n where n: "znodes h x = Some n" "ele n = Some e'" "score n = Num s'"
      using zsl_wf_nth [OF wf i(1)] i(2) by (auto simp: zentry_node)
    have "\<not> (feq s (score n) \<and> node_is e n)"
      using n new p(2) by (cases s) (auto simp: node_is_def)
    then show ?thesis using us d n Cons by (auto simp: zslDelete_def)
  qed
qed

section \<open>Sorted sets as maps\<close>

text \<open>The score of every element, and the address of its node.\<close>

definition scores :: "('s \<times> sds) list \<Rightarrow> sds \<rightharpoonup> 's" where
  "scores es = map_of (map (\<lambda>(s, e). (e, s)) es)"

definition addrs :: "('s \<times> sds) list \<Rightarrow> nat list \<Rightarrow> sds \<rightharpoonup> nat" where
  "addrs es ads = map_of (zip (map snd es) ads)"

lemma map_of_insert:
  assumes "k \<notin> fst ` set (xs @ ys)"
  shows "map_of (xs @ (k, v) # ys) = (map_of (xs @ ys))(k \<mapsto> v)"
proof (rule ext)
  fix j
  have "map_of xs k = None" using assms by (auto simp: map_of_eq_None_iff)
  then show "map_of (xs @ (k, v) # ys) j = ((map_of (xs @ ys))(k \<mapsto> v)) j"
    by (simp add: map_of_append map_add_def split: option.split)
qed

lemma map_of_delete:
  assumes "k \<notin> fst ` set (xs @ ys)"
  shows "map_of (xs @ ys) = (map_of (xs @ (k, v) # ys))(k := None)"
proof -
  have "map_of (xs @ ys) k = None" using assms by (auto simp: map_of_eq_None_iff image_Un)
  then show ?thesis unfolding map_of_insert [OF assms] by (simp add: fun_upd_idem)
qed

lemma scores_change:
  assumes "e \<notin> snd ` set (E @ F)"
  shows scores_insert: "scores (E @ (s, e) # F) = (scores (E @ F))(e \<mapsto> s)"
    and scores_delete: "scores (E @ F) = (scores (E @ (s, e) # F))(e := None)"
proof -
  have "e \<notin> fst ` set (map (\<lambda>(s, e). (e, s)) E @ map (\<lambda>(s, e). (e, s)) F)" using assms by force
  from map_of_insert [OF this] map_of_delete [OF this]
  show "scores (E @ (s, e) # F) = (scores (E @ F))(e \<mapsto> s)" "scores (E @ F) = (scores (E @ (s, e) # F))(e := None)"
    by (simp_all add: scores_def)
qed

lemma addrs_change:
  assumes "e \<notin> snd ` set (E @ F)" and "length A = length E"
  shows addrs_insert: "addrs (E @ (s, e) # F) (A @ x # B) = (addrs (E @ F) (A @ B))(e \<mapsto> x)"
    and addrs_delete: "addrs (E @ F) (A @ B) = (addrs (E @ (s, e) # F) (A @ x # B))(e := None)"
proof -
  have "e \<notin> fst ` set (zip (map snd E) A @ zip (map snd F) B)" using assms(1) by (auto dest!: set_zip_leftD)
  from map_of_insert [OF this] map_of_delete [OF this] assms(2)
  show "addrs (E @ (s, e) # F) (A @ x # B) = (addrs (E @ F) (A @ B))(e \<mapsto> x)"
    "addrs (E @ F) (A @ B) = (addrs (E @ (s, e) # F) (A @ x # B))(e := None)"
    by (simp_all add: addrs_def)
qed

lemma scores_eq: "zsl_wf h zsl ads es \<Longrightarrow> scores es e = Some s \<longleftrightarrow> (s, e) \<in> set es"
proof -
  assume "zsl_wf h zsl ads es"
  then have "distinct (map fst (map (\<lambda>(s, e). (e, s)) es))" by (simp add: zsl_wf_def o_def split_beta)
  then have "scores es e = Some s \<longleftrightarrow> (e, s) \<in> set (map (\<lambda>(s, e). (e, s)) es)"
    unfolding scores_def by (rule map_of_eq_Some_iff)
  then show ?thesis by force
qed

lemma scores_None: "scores es e = None \<longleftrightarrow> e \<notin> snd ` set es"
  by (force simp: scores_def map_of_eq_None_iff)

lemma addrs_entry:
  assumes wf: "zsl_wf h zsl ads es" and a: "addrs es ads e = Some a"
  shows "a \<in> set ads \<and> (\<exists>s. zentry h a = Some (s, e) \<and> scores es e = Some s)"
proof -
  have "(e, a) \<in> set (zip (map snd es) ads)" using a by (auto simp: addrs_def dest: map_of_SomeD)
  then obtain i where i: "i < length es" "i < length ads" "e = snd (es ! i)" "a = ads ! i"
    by (auto simp: set_zip)
  then have "zentry h a = Some (es ! i)" using zsl_wf_nth [OF wf] by simp
  moreover have "scores es e = Some (fst (es ! i))"
    unfolding scores_eq [OF wf] using i by (metis nth_mem prod.collapse)
  ultimately show ?thesis using i by (metis nth_mem prod.collapse)
qed

lemma dom_addrs: "zsl_wf h zsl ads es \<Longrightarrow> dom (addrs es ads) = snd ` set es"
  using zsl_wf_length [of h zsl ads es] by (simp add: addrs_def dom_map_of_zip)

lemma zslInsert_maps:
  assumes wf: "zsl_wf h zsl ads es" and e: "e \<notin> snd ` set es" and len: "length es + 1 < 2 ^ 32"
    and rs: "zslRandomLevel rs \<noteq> None"
  shows "\<exists>h' zsl' x ads' es'. zslInsert rs zsl (Num s) e h = Some (h', zsl', x) \<and> zsl_wf h' zsl' ads' es' \<and>
           scores es' = (scores es)(e \<mapsto> s) \<and> addrs es' ads' = (addrs es ads)(e \<mapsto> x) \<and>
           header zsl' = header zsl \<and> length es' = length es + 1 \<and> (\<forall>a. a \<noteq> x \<longrightarrow> zentry h' a = zentry h a) \<and>
           (\<forall>a. a \<notin> set ads' \<longrightarrow> shape h' a = shape h a) \<and> set ads' = insert x (set ads) \<and> shape h x = None"
proof -
  obtain lv where rs: "zslRandomLevel rs = Some lv" using rs by auto
  have len': "length ads + 1 < 2 ^ 32" using len zsl_wf_length [OF wf] by simp
  obtain h' zsl' A B E F where i: "zslInsert rs zsl (Num s) e h = Some (h', zsl', zbrk h)" "ads = A @ B" "es = E @ F"
    "length A = length E" "zsl_wf h' zsl' (A @ zbrk h # B) (E @ (s, e) # F)" "header zsl' = header zsl"
    "\<forall>a. a \<notin> set (zbrk h # ads) \<longrightarrow> shape h' a = shape h a" "\<forall>a. a \<noteq> zbrk h \<longrightarrow> zentry h' a = zentry h a"
    using zslInsert_spec [OF wf e len' rs] by blast
  have "shape h (zbrk h) = None" using wf unfolding zsl_wf_def by (meson less_irrefl)
  then show ?thesis
    using i e scores_insert [of e E F s] addrs_insert [of e E F A s "zbrk h" B]
    by (intro exI [of _ h'] exI [of _ zsl'] exI [of _ "zbrk h"] exI [of _ "A @ zbrk h # B"] exI [of _ "E @ (s, e) # F"]) auto
qed

lemma wf_elem_unique: "zsl_wf h zsl ads (E @ (s, e) # F) \<Longrightarrow> e \<notin> snd ` set (E @ F)"
  by (auto simp: zsl_wf_def)

lemma zslDelete_maps:
  assumes wf: "zsl_wf h zsl ads es" and e: "scores es e = Some s"
  shows "\<exists>h' zsl' x ads' es'. zslDelete zsl (Num s) e keep h = Some (h', zsl', Some x) \<and> zsl_wf h' zsl' ads' es' \<and>
           scores es' = (scores es)(e := None) \<and> addrs es' ads' = (addrs es ads)(e := None) \<and>
           addrs es ads e = Some x \<and> length es = length es' + 1 \<and>
           header zsl' = header zsl \<and> (\<forall>a. a \<noteq> x \<longrightarrow> zentry h' a = zentry h a) \<and>
           zentry h' x = (if keep then Some (s, e) else None)"
proof -
  have mem: "(s, e) \<in> set es" using e scores_eq [OF wf] by simp
  obtain h' zsl' A x B E F where d: "zslDelete zsl (Num s) e keep h = Some (h', zsl', Some x)" "ads = A @ x # B"
    "es = E @ (s, e) # F" "length A = length E" "zsl_wf h' zsl' (A @ B) (E @ F)" "header zsl' = header zsl"
    "zentry h' x = (if keep then Some (s, e) else None)" "\<forall>a. a \<noteq> x \<longrightarrow> zentry h' a = zentry h a"
    using zslDelete_found [OF wf mem, of keep] by blast
  have new: "e \<notin> snd ` set (E @ F)" by (rule wf_elem_unique [OF wf [unfolded d(3)]])
  show ?thesis
    using d scores_delete [OF new, of s] addrs_delete [OF new d(4), of B s x] addrs_insert [OF new d(4), of s x B]
    by (intro exI [of _ h'] exI [of _ zsl'] exI [of _ x] exI [of _ "A @ B"] exI [of _ "E @ F"]) simp
qed

section \<open>Updating a score\<close>

definition upd_score :: "nat \<Rightarrow> 's double \<Rightarrow> 's zheap \<Rightarrow> 's zheap" where
  "upd_score a s h = h\<lparr>znodes := (znodes h)(a := map_option (\<lambda>n. n\<lparr>score := s\<rparr>) (znodes h a))\<rparr>"

lemma set_score_eq:
  "set_znode a (\<lambda>n. n\<lparr>score := s\<rparr>) h = (if znodes h a = None then None else Some (upd_score a s h))"
  by (auto simp: set_znode_def upd_score_def split: option.splits)

lemma upd_score_simps [simp]:
  "shape (upd_score a s h) c = (if c = a then map_option (\<lambda>(e, _, b, k). (e, s, b, k)) (shape h a) else shape h c)"
  "get_level (upd_score a s h) = get_level h" "height (upd_score a s h) = height h" "zbrk (upd_score a s h) = zbrk h"
  "prev_of (upd_score a s h) = prev_of h"
proof -
  show sh: "shape (upd_score a s h) c = (if c = a then map_option (\<lambda>(e, _, b, k). (e, s, b, k)) (shape h a) else shape h c)" for c
    by (simp add: shape_def upd_score_def option.map_comp o_def)
  show "get_level (upd_score a s h) = get_level h"
    by (intro ext) (cases "znodes h a"; simp add: get_level_def upd_score_def)
  show "height (upd_score a s h) = height h"
    by (rule ext) (simp add: height_def upd_score_def split: option.split)
  show "zbrk (upd_score a s h) = zbrk h" by (simp add: upd_score_def)
  show "prev_of (upd_score a s h) = prev_of h"
    by (rule ext) (auto simp: prev_of_def sh split: option.split)
qed

lemma upd_score_wf:
  assumes wf: "zsl_wf h zsl (A @ x # B) (E @ (s, e) # F)" and len: "length A = length E"
    and es: "sorted_wrt kless (E @ (ns, e) # F)"
  shows "zsl_wf (upd_score x (Num ns) h) zsl (A @ x # B) (E @ (ns, e) # F)"
proof -
  let ?h = "upd_score x (Num ns) h"
  have dist: "distinct (header zsl # A @ x # B)" using wf by (simp add: zsl_wf_def)
  have "map (zentry h) A @ zentry h x # map (zentry h) B = map Some E @ Some (s, e) # map Some F"
    using wf by (simp add: zsl_wf_def)
  then have ent: "map (zentry h) A = map Some E" "zentry h x = Some (s, e)" "map (zentry h) B = map Some F"
    using len by auto
  have same: "zentry ?h a = zentry h a" if "a \<noteq> x" for a using that by (simp add: zentry_def)
  have "map (zentry ?h) A = map (zentry h) A" "map (zentry ?h) B = map (zentry h) B"
    using dist by (auto intro!: map_cong same)
  moreover have "zentry ?h x = Some (ns, e)"
    using ent(2) by (auto simp: zentry_def split: option.splits double.splits)
  ultimately have "map (zentry ?h) (A @ x # B) = map Some (E @ (ns, e) # F)" using ent by simp
  then show ?thesis
    using wf es unfolding zsl_wf_def by auto
qed

text \<open>The neighbours of a node: its predecessor in \<open>A\<close> and its successor in \<open>B\<close>.\<close>

lemma neighbours:
  assumes wf: "zsl_wf h zsl (A @ x # B) (E @ (s, e) # F)" and len: "length A = length E" and n: "znodes h x = Some n"
  shows "backward n = last_opt A"
    and "\<exists>d. get_level h x 0 = Some \<lparr>forward = (if B = [] then None else Some (hd B)), span = d\<rparr>"
    and "A \<noteq> [] \<Longrightarrow> \<exists>m. znodes h (last A) = Some m \<and> score m = Num (fst (last E))"
    and "B \<noteq> [] \<Longrightarrow> \<exists>m. znodes h (hd B) = Some m \<and> score m = Num (fst (hd F))"
proof -
  have "prev_of h x = last_opt A" using wf by (simp add: zsl_wf_def backs_def)
  then show "backward n = last_opt A" using n by (simp add: prev_of_def shape_def)
  have pos: "0 < height h a" if "a \<in> set (A @ x # B)" for a using zsl_wf_node [OF wf that] by simp
  have links: "links (height h) (get_level h) (level zsl) ((header zsl # A) @ x # B)" and lv: "0 < level zsl"
    using wf by (simp_all add: zsl_wf_def)
  have "nxt (height h) 0 B = (if B = [] then None else Some (hd B))" using pos by (intro nxt_bottom) simp
  then show "\<exists>d. get_level h x 0 = Some \<lparr>forward = (if B = [] then None else Some (hd B)), span = d\<rparr>"
    using linksD [OF links lv pos] by simp
  have ent: "map (zentry h) A @ zentry h x # map (zentry h) B = map Some E @ Some (s, e) # map Some F"
    using wf by (simp add: zsl_wf_def)
  show "\<exists>m. znodes h (last A) = Some m \<and> score m = Num (fst (last E))" if "A \<noteq> []"
  proof -
    have "map (zentry h) A = map Some E" using ent len by simp
    then have "zentry h (last A) = Some (last E)" using that len by (metis last_map length_0_conv)
    then show ?thesis by (cases "last E") (auto simp: zentry_node)
  qed
  show "\<exists>m. znodes h (hd B) = Some m \<and> score m = Num (fst (hd F))" if "B \<noteq> []"
  proof -
    have "map (zentry h) B = map Some F" using ent len by simp
    then have "zentry h (hd B) = Some (hd F)" using that by (cases B; cases F) auto
    then show ?thesis by (cases "hd F") (auto simp: zentry_node)
  qed
qed

lemma sorted_between:
  assumes "sorted_wrt kless (E @ p # F)" and "E \<noteq> [] \<Longrightarrow> fst (last E) < s" and "F \<noteq> [] \<Longrightarrow> s < fst (hd F)"
  shows "sorted_wrt kless (E @ (s, e) # F)"
proof -
  have mono: "kless p q \<Longrightarrow> fst p \<le> fst q" for p q :: "'a \<times> sds" by (cases p; cases q) (auto simp: kless.simps)
  have "kless q (s, e)" if q: "q \<in> set E" for q
  proof -
    obtain E' r where E: "E = E' @ [r]" using q by (cases E rule: rev_cases) auto
    then have "q = r \<or> kless q r" using q assms(1) by (auto simp: sorted_wrt_append)
    then have "fst q < s" using mono [of q r] assms(2) E by auto
    then show ?thesis by (cases q) (simp add: kless.simps)
  qed
  moreover have "kless (s, e) q" if q: "q \<in> set F" for q
  proof -
    obtain r F' where F: "F = r # F'" using q by (cases F) auto
    then have "q = r \<or> kless r q" using q assms(1) by (auto simp: sorted_wrt_append)
    then have "s < fst q" using mono [of r q] assms(3) F by auto
    then show ?thesis by (cases q) (simp add: kless.simps)
  qed
  ultimately show ?thesis using assms(1) by (auto simp: sorted_wrt_append)
qed

lemma zslUpdateScore_spec:
  assumes wf: "zsl_wf h zsl ads es" and e: "scores es e = Some s" and len: "length es < 2 ^ 32"
    and rs: "zslRandomLevel rs \<noteq> None"
  shows "\<exists>h' zsl' y ads' es'. zslUpdateScore rs zsl (Num s) e (Num ns) h = Some (h', zsl', y) \<and>
           zsl_wf h' zsl' ads' es' \<and> scores es' = (scores es)(e \<mapsto> ns) \<and> addrs es' ads' = (addrs es ads)(e \<mapsto> y) \<and>
           header zsl' = header zsl \<and> length es' = length es"
proof -
  have mem: "(s, e) \<in> set es" using e scores_eq [OF wf] by simp
  obtain us A x B E F n d where f: "zsl_search zsl h (node_less (Num s) e) = Some us" "ads = A @ x # B"
    "es = E @ (s, e) # F" "length A = length E" "path_ok h (header zsl # A) (level zsl) us"
    "elem_at us 0 = Some (last (header zsl # A))"
    "get_level h (last (header zsl # A)) 0 = Some \<lparr>forward = Some x, span = d\<rparr>"
    "znodes h x = Some n" "ele n = Some e" "score n = Num s"
    by (rule zsl_find [OF wf mem])
  note wf' = wf [unfolded f(2,3)]
  note nb = neighbours [OF wf' f(4,8)]
  obtain d' where l: "get_level h x 0 = Some \<lparr>forward = (if B = [] then None else Some (hd B)), span = d'\<rparr>"
    using nb(2) by blast
  have new: "e \<notin> snd ` set (E @ F)" by (rule wf_elem_unique [OF wf'])
  have BF: "B = [] \<longleftrightarrow> F = []" and AE: "A = [] \<longleftrightarrow> E = []" using zsl_wf_length [OF wf'] f(4) by auto
  define before after where "before \<longleftrightarrow> E = [] \<or> fst (last E) < ns" and "after \<longleftrightarrow> F = [] \<or> ns < fst (hd F)"
  have b: "(case backward n of None \<Rightarrow> Some True
             | Some b \<Rightarrow> do { m \<leftarrow> znodes h b; Some (fless (score m) (Num ns)) }) = Some before"
    using nb(1,3) AE by (auto simp: before_def last_opt_def)
  have a: "(case (if B = [] then None else Some (hd B)) of None \<Rightarrow> Some True
             | Some b \<Rightarrow> do { m \<leftarrow> znodes h b; Some (fless (Num ns) (score m)) }) = Some after"
    using nb(4) BF by (auto simp: after_def)
  have run: "zslUpdateScore rs zsl (Num s) e (Num ns) h =
    (if before \<and> after then Some (upd_score x (Num ns) h, zsl, x)
     else do {
       (h, zsl) \<leftarrow> zslDeleteNode zsl x us h;
       n \<leftarrow> znodes h x;
       e \<leftarrow> ele n;
       (h, zsl, y) \<leftarrow> zslInsert rs zsl (Num ns) e h;
       h \<leftarrow> set_znode x (\<lambda>n. n\<lparr>ele := None\<rparr>) h;
       h \<leftarrow> zslFreeNode x h;
       Some (h, zsl, y) })"
    using f l unfolding zslUpdateScore_def by (simp add: node_is_def a b set_score_eq)
  show ?thesis
  proof (cases "before \<and> after")
    case True
    have "sorted_wrt kless (E @ (s, e) # F)" using wf' by (simp add: zsl_wf_def)
    then have "sorted_wrt kless (E @ (ns, e) # F)"
      by (rule sorted_between) (use True before_def after_def in auto)
    then have "zsl_wf (upd_score x (Num ns) h) zsl (A @ x # B) (E @ (ns, e) # F)"
      by (rule upd_score_wf [OF wf' f(4)])
    then show ?thesis
      using run True f(2,3) scores_insert [OF new] addrs_insert [OF new f(4)]
      by (intro exI [of _ "upd_score x (Num ns) h"] exI [of _ zsl] exI [of _ x] exI [of _ "A @ x # B"]
          exI [of _ "E @ (ns, e) # F"]) simp
  next
    case False
    obtain h1 zsl1 where d: "zslDeleteNode zsl x us h = Some (h1, zsl1)" "zsl_wf h1 zsl1 (A @ B) (E @ F)"
      "header zsl1 = header zsl" "zentry h1 = zentry h" 
      using zslDeleteNode_spec [OF wf' f(4,5)] by blast
    have x: "x \<notin> set (header zsl1 # A @ B)" using wf' d(3) by (simp add: zsl_wf_def)
    have "zentry h1 x = Some (s, e)" unfolding d(4) using f(8-10) by (simp add: zentry_node)
    then obtain n1 where n1: "znodes h1 x = Some n1" "ele n1 = Some e" by (auto simp: zentry_node)
    have len1: "length (E @ F) + 1 < 2 ^ 32" using len f(3) by simp
    obtain h2 zsl2 y ads2 es2 where i: "zslInsert rs zsl1 (Num ns) e h1 = Some (h2, zsl2, y)" "zsl_wf h2 zsl2 ads2 es2"
      "scores es2 = (scores (E @ F))(e \<mapsto> ns)" "addrs es2 ads2 = (addrs (E @ F) (A @ B))(e \<mapsto> y)"
      "header zsl2 = header zsl1" "length es2 = length (E @ F) + 1" "\<forall>a. a \<notin> set ads2 \<longrightarrow> shape h2 a = shape h1 a"
      "set ads2 = insert y (set (A @ B))" "shape h1 y = None"
      using zslInsert_maps [OF d(2) new len1 rs, of ns] by blast
    have x2: "x \<notin> set (header zsl2 # ads2)" using x i(5,8,9) n1(1) by (auto simp: shape_def)
    then have "shape h2 x = shape h1 x" using i(7) by simp
    then obtain n2 where n2: "znodes h2 x = Some n2" using n1 by (auto simp: shape_def)
    define h3 where "h3 = h2\<lparr>znodes := (znodes h2)(x := None)\<rparr>"
    have "zslUpdateScore rs zsl (Num s) e (Num ns) h = Some (h3, zsl2, y)"
      using run False d(1) n1 i(1) n2 by (simp add: set_znode_def zslFreeNode_def h3_def)
    moreover have "zsl_wf h3 zsl2 ads2 es2" unfolding h3_def by (rule zsl_free [OF i(2) x2])
    ultimately show ?thesis
      using i(3-6) d(3) f(2,3) scores_insert [OF new] addrs_insert [OF new f(4)]
      by (intro exI [of _ h3] exI [of _ zsl2] exI [of _ y] exI [of _ ads2] exI [of _ es2]) simp
  qed
qed

end
