(* ===== verification/Redis_Zset.thy ===== *)
theory Redis_Zset
  imports Redis_Skiplist Redis_Set
begin

text \<open>
  Sorted sets (\<open>t_zset.c\<close>): ranks and ranges of the skip list, and the sorted set object of a skip list and a
  hash table that holds the address of the node of every element.
\<close>

section \<open>Ranges\<close>

record 's zrangespec =
  rmin :: "'s double"
  rmax :: "'s double"
  minex :: bool
  maxex :: bool

definition zslValueGteMin :: "'s::linorder double \<Rightarrow> 's zrangespec \<Rightarrow> bool" where
  "zslValueGteMin v spec = (if minex spec then fless (rmin spec) v else fleq (rmin spec) v)"

definition zslValueLteMax :: "'s::linorder double \<Rightarrow> 's zrangespec \<Rightarrow> bool" where
  "zslValueLteMax v spec = (if maxex spec then fless v (rmax spec) else fleq v (rmax spec))"

definition zslIsInRange :: "zskiplist \<Rightarrow> 's::linorder zrangespec \<Rightarrow> 's zheap \<Rightarrow> bool option" where
  "zslIsInRange zsl rng h =
     (if fless (rmax rng) (rmin rng) \<or> feq (rmin rng) (rmax rng) \<and> (minex rng \<or> maxex rng) then Some False
      else case tail zsl of
        None \<Rightarrow> Some False
      | Some x \<Rightarrow> do {
          n \<leftarrow> znodes h x;
          if \<not> zslValueGteMin (score n) rng then Some False
          else do {
            l \<leftarrow> get_level h (header zsl) 0;
            case forward l of
              None \<Rightarrow> Some False
            | Some y \<Rightarrow> do { m \<leftarrow> znodes h y; Some (zslValueLteMax (score m) rng) } } })"

text \<open>The node that a search ends at, which is the last of the vector that it collects.\<close>

definition zsl_seek :: "zskiplist \<Rightarrow> 's zheap \<Rightarrow> ('s zskiplistNode \<Rightarrow> bool) \<Rightarrow> nat option" where
  "zsl_seek zsl h cond = do { us \<leftarrow> zsl_search zsl h cond; elem_at us 0 }"

definition zslFirstInRange :: "zskiplist \<Rightarrow> 's::linorder zrangespec \<Rightarrow> 's zheap \<Rightarrow> nat option option" where
  "zslFirstInRange zsl rng h = do {
     ok \<leftarrow> zslIsInRange zsl rng h;
     if \<not> ok then Some None
     else do {
       x \<leftarrow> zsl_seek zsl h (\<lambda>n. \<not> zslValueGteMin (score n) rng);
       l \<leftarrow> get_level h x 0;
       x \<leftarrow> forward l;
       n \<leftarrow> znodes h x;
       Some (if zslValueLteMax (score n) rng then Some x else None) } }"

definition zslLastInRange :: "zskiplist \<Rightarrow> 's::linorder zrangespec \<Rightarrow> 's zheap \<Rightarrow> nat option option" where
  "zslLastInRange zsl rng h = do {
     ok \<leftarrow> zslIsInRange zsl rng h;
     if \<not> ok then Some None
     else do {
       x \<leftarrow> zsl_seek zsl h (\<lambda>n. zslValueLteMax (score n) rng);
       n \<leftarrow> znodes h x;
       Some (if zslValueGteMin (score n) rng then Some x else None) } }"

section \<open>Lexicographic ranges\<close>

text \<open>A bound is a string or one of the shared strings that stand for the ends.\<close>

datatype lex_bound = Minstring | Maxstring | Lex sds

record zlexrangespec =
  lmin :: lex_bound
  lmax :: lex_bound
  lminex :: bool
  lmaxex :: bool

definition zslParseLexRangeItem :: "sds \<Rightarrow> (lex_bound \<times> bool) option" where
  "zslParseLexRangeItem c =
     (case c of
        [] \<Rightarrow> None
      | x # xs \<Rightarrow>
          if x = 0x2B then (if (xs @ [0]) ! 0 \<noteq> 0 then None else Some (Maxstring, True))
          else if x = 0x2D then (if (xs @ [0]) ! 0 \<noteq> 0 then None else Some (Minstring, True))
          else if x = 0x28 then Some (Lex xs, True)
          else if x = 0x5B then Some (Lex xs, False)
          else None)"

definition zslParseLexRange :: "robj \<Rightarrow> robj \<Rightarrow> zlexrangespec option" where
  "zslParseLexRange mn mx =
     (case (mn, mx) of
        (Str_sds a, Str_sds b) \<Rightarrow> do {
          (lo, loex) \<leftarrow> zslParseLexRangeItem a;
          (hi, hiex) \<leftarrow> zslParseLexRangeItem b;
          Some \<lparr>lmin = lo, lmax = hi, lminex = loex, lmaxex = hiex\<rparr> }
      | _ \<Rightarrow> None)"

definition sdscmplex :: "lex_bound \<Rightarrow> lex_bound \<Rightarrow> int" where
  "sdscmplex a b =
     (if a = b then 0
      else if a = Minstring \<or> b = Maxstring then -1
      else if a = Maxstring \<or> b = Minstring then 1
      else case (a, b) of (Lex s, Lex t) \<Rightarrow> sdscmp s t | _ \<Rightarrow> 0)"

definition zslLexValueGteMin :: "sds \<Rightarrow> zlexrangespec \<Rightarrow> bool" where
  "zslLexValueGteMin v spec =
     (if lminex spec then sdscmplex (Lex v) (lmin spec) > 0 else sdscmplex (Lex v) (lmin spec) \<ge> 0)"

definition zslLexValueLteMax :: "sds \<Rightarrow> zlexrangespec \<Rightarrow> bool" where
  "zslLexValueLteMax v spec =
     (if lmaxex spec then sdscmplex (Lex v) (lmax spec) < 0 else sdscmplex (Lex v) (lmax spec) \<le> 0)"

definition node_lex :: "(sds \<Rightarrow> bool) \<Rightarrow> 's zskiplistNode \<Rightarrow> bool" where
  "node_lex f n = (case ele n of None \<Rightarrow> False | Some e \<Rightarrow> f e)"

definition zslIsInLexRange :: "zskiplist \<Rightarrow> zlexrangespec \<Rightarrow> 's zheap \<Rightarrow> bool option" where
  "zslIsInLexRange zsl rng h =
     (let cmp = sdscmplex (lmin rng) (lmax rng) in
      if cmp > 0 \<or> cmp = 0 \<and> (lminex rng \<or> lmaxex rng) then Some False
      else case tail zsl of
        None \<Rightarrow> Some False
      | Some x \<Rightarrow> do {
          n \<leftarrow> znodes h x;
          e \<leftarrow> ele n;
          if \<not> zslLexValueGteMin e rng then Some False
          else do {
            l \<leftarrow> get_level h (header zsl) 0;
            case forward l of
              None \<Rightarrow> Some False
            | Some y \<Rightarrow> do { m \<leftarrow> znodes h y; e \<leftarrow> ele m; Some (zslLexValueLteMax e rng) } } })"

definition zslFirstInLexRange :: "zskiplist \<Rightarrow> zlexrangespec \<Rightarrow> 's zheap \<Rightarrow> nat option option" where
  "zslFirstInLexRange zsl rng h = do {
     ok \<leftarrow> zslIsInLexRange zsl rng h;
     if \<not> ok then Some None
     else do {
       x \<leftarrow> zsl_seek zsl h (node_lex (\<lambda>e. \<not> zslLexValueGteMin e rng));
       l \<leftarrow> get_level h x 0;
       x \<leftarrow> forward l;
       n \<leftarrow> znodes h x;
       e \<leftarrow> ele n;
       Some (if zslLexValueLteMax e rng then Some x else None) } }"

definition zslLastInLexRange :: "zskiplist \<Rightarrow> zlexrangespec \<Rightarrow> 's zheap \<Rightarrow> nat option option" where
  "zslLastInLexRange zsl rng h = do {
     ok \<leftarrow> zslIsInLexRange zsl rng h;
     if \<not> ok then Some None
     else do {
       x \<leftarrow> zsl_seek zsl h (node_lex (\<lambda>e. zslLexValueLteMax e rng));
       n \<leftarrow> znodes h x;
       e \<leftarrow> ele n;
       Some (if zslLexValueGteMin e rng then Some x else None) } }"

section \<open>Deleting ranges\<close>

text \<open>
  The loop that the three functions end with, over the nodes from \<open>x\<close> on; \<open>cond\<close> gets the number of nodes removed
  so far, by which \<open>traversed\<close> has grown, and the node.
\<close>

partial_function (option) range_loop ::
  "(sds \<Rightarrow> u64) \<Rightarrow> (u64 \<Rightarrow> 's zskiplistNode \<Rightarrow> bool) \<Rightarrow> nat list \<Rightarrow> nat option \<Rightarrow> u64 \<Rightarrow>
   zskiplist \<Rightarrow> (sds, nat) dict \<Rightarrow> 's zheap \<Rightarrow> ('s zheap \<times> zskiplist \<times> (sds, nat) dict \<times> u64) option" where
  "range_loop hf cond us x removed zsl d h =
     (case x of
        None \<Rightarrow> Some (h, zsl, d, removed)
      | Some a \<Rightarrow> do {
          n \<leftarrow> znodes h a;
          if \<not> cond removed n then Some (h, zsl, d, removed)
          else do {
            l \<leftarrow> get_level h a 0;
            (h, zsl) \<leftarrow> zslDeleteNode zsl a us h;
            m \<leftarrow> znodes h a;
            e \<leftarrow> ele m;
            (d, _) \<leftarrow> dictDelete hf d e;
            h \<leftarrow> zslFreeNode a h;
            range_loop hf cond us (forward l) (removed + 1) zsl d h } })"


definition zslDeleteRangeByLex :: "(sds \<Rightarrow> u64) \<Rightarrow> zskiplist \<Rightarrow> zlexrangespec \<Rightarrow> (sds, nat) dict \<Rightarrow> 's zheap \<Rightarrow>
   ('s zheap \<times> zskiplist \<times> (sds, nat) dict \<times> u64) option" where
  "zslDeleteRangeByLex hf zsl rng d h = do {
     us \<leftarrow> zsl_search zsl h (node_lex (\<lambda>e. \<not> zslLexValueGteMin e rng));
     x \<leftarrow> elem_at us 0;
     l \<leftarrow> get_level h x 0;
     range_loop hf (\<lambda>_. node_lex (\<lambda>e. zslLexValueLteMax e rng)) us (forward l) 0 zsl d h }"

definition zslDeleteRangeByRank :: "(sds \<Rightarrow> u64) \<Rightarrow> zskiplist \<Rightarrow> u32 \<Rightarrow> u32 \<Rightarrow> (sds, nat) dict \<Rightarrow> 's zheap \<Rightarrow>
   ('s zheap \<times> zskiplist \<times> (sds, nat) dict \<times> u64) option" where
  "zslDeleteRangeByRank hf zsl start end d h = do {
     us \<leftarrow> descend (+) (\<lambda>t _. t < ucast start) h (level zsl) (header zsl) 0 [];
     (x, traversed) \<leftarrow> elem_at us 0;
     l \<leftarrow> get_level h x 0;
     range_loop hf (\<lambda>removed _. traversed + 1 + removed \<le> ucast end) (map fst us) (forward l) 0 zsl d h }"

section \<open>Sorted set objects\<close>

text \<open>
  A sorted set in the encoding of a skip list and a hash table.  The values of the hash table are pointers to the
  scores in the nodes.  The flags are those of \<open>zsetAdd\<close>; \<open>fadd\<close> is the addition of two scores.
\<close>

record zset =
  zdict :: "(sds, nat) dict"
  zlist :: zskiplist

datatype zadd_flag = ZADD_NONE | ZADD_NOP | ZADD_NAN | ZADD_ADDED | ZADD_UPDATED

record 's zset_env =
  zhash :: "sds \<Rightarrow> u64"
  zresize :: bool
  fadd :: "'s double \<Rightarrow> 's double \<Rightarrow> 's double"

definition zsetLength :: "zset \<Rightarrow> u64" where
  "zsetLength zs = zlength (zlist zs)"

definition read_score :: "'s zheap \<Rightarrow> nat \<Rightarrow> 's double option" where
  "read_score h a = map_option score (znodes h a)"

definition zsetScore :: "'s zset_env \<Rightarrow> zset \<Rightarrow> sds \<Rightarrow> 's zheap \<Rightarrow> (zset \<times> 's double option) option" where
  "zsetScore env zs member h = do {
     (d, de) \<leftarrow> dictFind (zhash env) (zdict zs) member;
     case de of
       None \<Rightarrow> Some (zs\<lparr>zdict := d\<rparr>, None)
     | Some r \<Rightarrow> do { s \<leftarrow> read_score h (snd (deref d r)); Some (zs\<lparr>zdict := d\<rparr>, Some s) } }"

text \<open>The result of \<open>zsetAdd\<close>: the return value, the flag, and \<open>*newscore\<close> if it was set.\<close>

definition zsetAdd :: "'s::linorder zset_env \<Rightarrow> u64 list \<Rightarrow> zset \<Rightarrow> 's double \<Rightarrow> sds \<Rightarrow> bool \<Rightarrow> bool \<Rightarrow> bool \<Rightarrow> 's zheap \<Rightarrow>
   ('s zheap \<times> zset \<times> bool \<times> zadd_flag \<times> 's double option) option" where
  "zsetAdd env rs zs s e incr nx xx h =
     (if isnan s then Some (h, zs, False, ZADD_NAN, None)
      else do {
        (d, de) \<leftarrow> dictFind (zhash env) (zdict zs) e;
        let zs = zs\<lparr>zdict := d\<rparr>;
        case de of
          Some r \<Rightarrow>
            if nx then Some (h, zs, True, ZADD_NOP, None)
            else do {
              curscore \<leftarrow> read_score h (snd (deref d r));
              let s = (if incr then fadd env s curscore else s);
              if incr \<and> isnan s then Some (h, zs, False, ZADD_NAN, None)
              else do {
                let newscore = (if incr then Some s else None);
                if \<not> feq s curscore then do {
                  (h, l, znode) \<leftarrow> zslUpdateScore rs (zlist zs) curscore e s h;
                  Some (h, zs\<lparr>zdict := dictSetVal d r znode, zlist := l\<rparr>, True, ZADD_UPDATED, newscore) }
                else Some (h, zs, True, ZADD_NONE, newscore) } }
        | None \<Rightarrow>
            if \<not> xx then do {
              (h, l, znode) \<leftarrow> zslInsert rs (zlist zs) s e h;
              (d, ok) \<leftarrow> dictAdd (zhash env) (zresize env) 0 d e znode;
              if ok then Some (h, zs\<lparr>zdict := d, zlist := l\<rparr>, True, ZADD_ADDED, Some s) else None }
            else Some (h, zs, True, ZADD_NOP, None) })"

definition zsetDel :: "'s::linorder zset_env \<Rightarrow> zset \<Rightarrow> sds \<Rightarrow> 's zheap \<Rightarrow> ('s zheap \<times> zset \<times> bool) option" where
  "zsetDel env zs e h = do {
     (d, de) \<leftarrow> dictUnlink (zhash env) (zdict zs) e;
     case de of
       None \<Rightarrow> Some (h, zs\<lparr>zdict := d\<rparr>, False)
     | Some (_, a) \<Rightarrow> do {
         s \<leftarrow> read_score h a;
         (h, l, r) \<leftarrow> zslDelete (zlist zs) s e False h;
         if r = None then None
         else Some (h, \<lparr>zdict = (if htNeedsResize d then fst (dictResize (zresize env) d) else d), zlist = l\<rparr>, True) } }"

text \<open>The rank, or \<open>-1\<close> as \<^const>\<open>None\<close> inside the result.\<close>

definition zsetRank :: "'s::linorder zset_env \<Rightarrow> zset \<Rightarrow> sds \<Rightarrow> bool \<Rightarrow> 's zheap \<Rightarrow> (zset \<times> u64 option) option" where
  "zsetRank env zs e reverse h = do {
     let llen = zsetLength zs;
     (d, de) \<leftarrow> dictFind (zhash env) (zdict zs) e;
     case de of
       None \<Rightarrow> Some (zs\<lparr>zdict := d\<rparr>, None)
     | Some r \<Rightarrow> do {
         s \<leftarrow> read_score h (snd (deref d r));
         rank \<leftarrow> zslGetRank (zlist zs) s e h;
         if rank = 0 then None
         else Some (zs\<lparr>zdict := d\<rparr>, Some (if reverse then llen - rank else rank - 1)) } }"

section \<open>Ranks\<close>

lemma last_above_last:
  assumes "last_above H i L u r" and "distinct L" and "u = last L"
  shows "r = length L - 1"
proof -
  obtain xs zs where L: "L = xs @ u # zs" "r = length xs" using assms(1) by (auto simp: last_above_def)
  have "zs = []"
  proof (rule ccontr)
    assume "zs \<noteq> []"
    then have "last L = last zs" using L by simp
    then have "u \<in> set zs" using last_in_set [OF \<open>zs \<noteq> []\<close>] assms(3) by metis
    moreover have "u \<notin> set zs" using assms(2) unfolding L(1) by simp
    ultimately show False by contradiction
  qed
  then show ?thesis using L by simp
qed

lemma last_above_nth: "last_above H i L u r \<Longrightarrow> r < length L \<and> L ! r = u"
  by (auto simp: last_above_def)

lemma rank_loop_found:
  assumes s: "searchable (+) (\<lambda>_. node_leq s e) of_nat h lv L R" and dist: "distinct L"
    and e: "\<And>a n. a \<in> set L \<Longrightarrow> znodes h a = Some n \<Longrightarrow> node_is e n \<longleftrightarrow> a = last L"
    and pos: "\<And>a. a \<in> set L \<Longrightarrow> 0 < height h a"
    and i: "0 < i" "i \<le> lv" and L: "L = xs @ x # zs" and x: "i \<le> height h x"
  shows "rank_loop s e h i x (of_nat (length xs)) = Some (of_nat (length L - 1))"
  using i L x
proof (induction i arbitrary: xs x zs)
  case (Suc i)
  obtain y r where y: "forward_loop (+) (\<lambda>_. node_leq s e) h i x (of_nat (length xs)) = Some (y, of_nat r)"
    "last_above (height h) i L y r"
    using forward_loop_spec [OF s _ Suc.prems(3), of i] Suc.prems by auto
  note m = last_above_mem [OF y(2)]
  obtain n where n: "znodes h y = Some n" using s m unfolding searchable_def by (metis Un_iff not_None_eq set_append)
  show ?case
  proof (cases "y = last L")
    case True
    then have "node_is e n" using e n m by blast
    then show ?thesis using y n last_above_last [OF y(2) dist True] by simp
  next
    case False
    then have "\<not> node_is e n" using e n m by blast
    moreover have "i \<noteq> 0"
    proof
      assume "i = 0"
      then show False using last_above_bottom(2) [of "height h" L y r] y(2) pos False by simp
    qed
    moreover obtain xs' zs' where "L = xs' @ y # zs'" "r = length xs'" "i < height h y"
      using y(2) by (auto simp: last_above_def)
    ultimately show ?thesis using Suc.IH [of xs' y zs'] Suc.prems y(1) n by simp
  qed
qed simp

lemma rank_loop_missing:
  assumes s: "searchable (+) (\<lambda>_. node_leq s e) of_nat h lv L R"
    and e: "\<And>a n. a \<in> set L \<Longrightarrow> znodes h a = Some n \<Longrightarrow> \<not> node_is e n"
    and i: "i \<le> lv" and L: "L = xs @ x # zs" and x: "i \<le> height h x"
  shows "rank_loop s e h i x (of_nat (length xs)) = Some 0"
  using i L x
proof (induction i arbitrary: xs x zs)
  case (Suc i)
  obtain y r where y: "forward_loop (+) (\<lambda>_. node_leq s e) h i x (of_nat (length xs)) = Some (y, of_nat r)"
    "last_above (height h) i L y r"
    using forward_loop_spec [OF s _ Suc.prems(2), of i] Suc.prems by auto
  note m = last_above_mem [OF y(2)]
  obtain n where n: "znodes h y = Some n" using s m unfolding searchable_def by (metis Un_iff not_None_eq set_append)
  obtain xs' zs' where "L = xs' @ y # zs'" "r = length xs'" "i < height h y"
    using y(2) by (auto simp: last_above_def)
  then show ?case using Suc.IH [of xs' y zs'] Suc.prems y(1) n e [of y n] m by simp
qed simp

text \<open>The loop of \<open>zslGetElementByRank\<close> returns the node at the place \<open>k\<close> of \<open>L\<close>, which is the last.\<close>

lemma by_rank_loop_spec:
  assumes s: "searchable (+) (\<lambda>t _. t \<le> of_nat k) of_nat h lv L R" and lenL: "length L < 2 ^ 64" and k: "k < 2 ^ 64"
    and pos: "\<And>a. a \<in> set L \<Longrightarrow> 0 < height h a"
    and i: "0 < i" "i \<le> lv" and L: "L = xs @ x # zs" and x: "i \<le> height h x" and lek: "length L \<le> Suc k"
  shows "by_rank_loop (of_nat k) h i x (of_nat (length xs)) = Some (if k = length L - 1 then Some (last L) else None)"
  using i L x
proof (induction i arbitrary: xs x zs)
  case (Suc i)
  obtain y r where y: "forward_loop (+) (\<lambda>t _. t \<le> of_nat k) h i x (of_nat (length xs)) = Some (y, of_nat r)"
    "last_above (height h) i L y r"
    using forward_loop_spec [OF s _ Suc.prems(3), of i] Suc.prems by auto
  note m = last_above_mem [OF y(2)] and nth = last_above_nth [OF y(2)]
  have eq: "(of_nat r = (of_nat k :: u64)) \<longleftrightarrow> r = k"
    using lenL k nth by (simp add: word_of_nat_eq_iff take_bit_nat_eq_self)
  show ?case
  proof (cases "r = k")
    case True
    then have "k = length L - 1" using nth lek by linarith
    moreover from this have "y = last L" using nth True by (cases "L = []") (simp_all add: last_conv_nth)
    ultimately show ?thesis using y True by simp
  next
    case False
    obtain xs' zs' where y': "L = xs' @ y # zs'" "r = length xs'" "i < height h y"
      using y(2) by (auto simp: last_above_def)
    show ?thesis
    proof (cases "i = 0")
      case True
      then have "r = length L - 1" using last_above_bottom(1) [of "height h" L y r] y(2) pos by auto
      then show ?thesis using y eq False True by simp
    next
      case i0: False
      then show ?thesis using Suc.IH [of xs' y zs'] y' Suc.prems y(1) eq False by simp
    qed
  qed
qed simp

lemma zsl_searchable_pos:
  assumes wf: "zsl_wf h zsl ads es" and ads: "ads = A @ B"
    and cond: "\<And>m n. \<lbrakk>0 < m; m \<le> length ads\<rbrakk> \<Longrightarrow> cond (of_nat m) n \<longleftrightarrow> m \<le> length A"
  shows "searchable (+) cond of_nat h (level zsl) (header zsl # A) B"
  unfolding searchable_def
proof (intro conjI allI impI ballI)
  show "links (height h) (get_level h) (level zsl) ((header zsl # A) @ B)"
    using wf ads by (simp add: zsl_wf_def)
  show "znodes h a \<noteq> None" if "a \<in> set ((header zsl # A) @ B)" for a
    using zsl_wf_alloc [OF wf] that ads by auto
  show "of_nat m + of_nat d = of_nat (m + d)" for m d by simp
  fix us a vs n
  assume eq: "(header zsl # A) @ B = us @ a # vs" and ne: "us \<noteq> []" and n: "znodes h a = Some n"
  have "length (header zsl # ads) = length (us @ a # vs)" using eq ads by (metis append_Cons)
  then have "length us \<le> length ads" by simp
  then show "cond (of_nat (length us)) n = (length us < length (header zsl # A))"
    using cond [of "length us" n] ne by (simp add: less_Suc_eq_le)
qed

lemma node_leq_eq: "ele n = Some e' \<Longrightarrow> score n = Num s' \<Longrightarrow> node_leq (Num s) e n = (\<not> kless (s, e) (s', e'))"
  using sdscmp_swap [of e' e] by (auto simp: node_leq_def kless.simps)

lemma node_is_entry:
  assumes wf: "zsl_wf h zsl ads es" and a: "a \<in> set (header zsl # ads)" and n: "znodes h a = Some n"
  shows "node_is e n \<longleftrightarrow> a \<noteq> header zsl \<and> (\<exists>s. zentry h a = Some (s, e))"
proof (cases "a = header zsl")
  case True
  then have "ele n = None" using wf n by (auto simp: zsl_wf_def shape_def)
  then show ?thesis using True by (simp add: node_is_def)
next
  case False
  then obtain i where i: "i < length ads" "ads ! i = a" using a by (auto simp: in_set_conv_nth)
  have "zentry h a = Some (es ! i)" using zsl_wf_nth [OF wf i(1)] i(2) by simp
  then show ?thesis using False n by (cases "es ! i") (auto simp: zentry_node node_is_def)
qed

lemma zentry_part:
  assumes wf: "zsl_wf h zsl (A @ x # B) (E @ (s, e) # F)" and len: "length A = length E"
  shows "zentry h x = Some (s, e)" and "a \<in> set A \<Longrightarrow> \<exists>p\<in>set E. zentry h a = Some p"
proof -
  have m: "map (zentry h) A @ zentry h x # map (zentry h) B = map Some E @ Some (s, e) # map Some F"
    using wf by (simp add: zsl_wf_def)
  then show "zentry h x = Some (s, e)" using len by simp
  have "map (zentry h) A = map Some E" using m len by simp
  then have "zentry h ` set A = Some ` set E" by (metis set_map)
  then show "a \<in> set A \<Longrightarrow> \<exists>p\<in>set E. zentry h a = Some p" by (metis image_iff)
qed

lemma zslGetRank_found:
  assumes wf: "zsl_wf h zsl (A @ x # B) (E @ (s, e) # F)" and len: "length A = length E"
  shows "zslGetRank zsl (Num s) e h = Some (of_nat (Suc (length A)))"
proof -
  let ?L = "header zsl # A @ [x]"
  have sorted: "sorted_wrt kless (E @ (s, e) # F)" and dist: "distinct (header zsl # A @ x # B)"
    and lv: "1 \<le> level zsl" "level zsl \<le> ZSKIPLIST_MAXLEVEL"
    using wf by (simp_all add: zsl_wf_def)
  have E: "\<not> kless (s, e) p" if "p \<in> set (E @ [(s, e)])" for p
    using that sorted by (auto simp: sorted_wrt_append dest: kless_asym)
  have F: "\<not> \<not> kless (s, e) p" if "p \<in> set F" for p
    using that sorted by (auto simp: sorted_wrt_append)
  have split: "A @ x # B = (A @ [x]) @ B" "E @ (s, e) # F = (E @ [(s, e)]) @ F" by simp_all
  have len': "length (A @ [x]) = length (E @ [(s, e)])" using len by simp
  have search: "searchable (+) (\<lambda>_. node_leq (Num s) e) of_nat h (level zsl) ?L B"
    by (rule zsl_searchable [where P = "\<lambda>p. \<not> kless (s, e) p", OF wf split len' E F]) (simp_all add: node_leq_eq)
  have "rank_loop (Num s) e h (level zsl) (header zsl) (of_nat (length ([] :: nat list))) = Some (of_nat (length ?L - 1))"
  proof (rule rank_loop_found [OF search])
    show "distinct ?L" using dist by simp
    show "node_is e n \<longleftrightarrow> a = last ?L" if a: "a \<in> set ?L" and n: "znodes h a = Some n" for a n
    proof -
      have "e \<notin> snd ` set E" using wf_elem_unique [OF wf] by auto
      then have "\<nexists>s'. zentry h a = Some (s', e)" if "a \<in> set A"
        using zentry_part(2) [OF wf len that] by force
      then show ?thesis
        using node_is_entry [OF wf _ n, of e] a zentry_part(1) [OF wf len] dist by auto
    qed
    show "a \<in> set ?L \<Longrightarrow> 0 < height h a" for a using zsl_wf_height_pos [OF wf, of a] by auto
  qed (use lv zsl_wf_header [OF wf] in auto)
  then show ?thesis by (simp add: zslGetRank_def)
qed

lemma zslGetRank_missing:
  assumes wf: "zsl_wf h zsl ads es" and e: "e \<notin> snd ` set es"
  shows "zslGetRank zsl s e h = Some 0"
proof -
  define P where "P = (\<lambda>p. case s of NaN \<Rightarrow> False | Num s' \<Rightarrow> \<not> kless (s', e) p)"
  have cond: "node_leq s e n = P (s', e')" if "ele n = Some e'" "score n = Num s'" for n s' e'
    using that by (cases s) (simp_all add: P_def node_leq_eq, simp add: node_leq_def)
  have "P p" if "kless p q" "P q" for p q
    using that by (cases s) (auto simp: P_def dest: kless_trans)
  then obtain E F where es: "es = E @ F" "\<forall>p\<in>set E. P p" "\<forall>p\<in>set F. \<not> P p"
    using split_antitone [of kless es P] wf by (auto simp: zsl_wf_def)
  obtain A B where ads: "ads = A @ B" "length A = length E" using split_lists [OF wf es(1)] .
  have search: "searchable (+) (\<lambda>_. node_leq s e) of_nat h (level zsl) (header zsl # A) B"
    by (rule zsl_searchable [where P = P, OF wf ads(1) es(1) ads(2)]) (use es cond in auto)
  have "rank_loop s e h (level zsl) (header zsl) (of_nat (length ([] :: nat list))) = Some 0"
  proof (rule rank_loop_missing [OF search])
    show "\<not> node_is e n" if a: "a \<in> set (header zsl # A)" and n: "znodes h a = Some n" for a n
    proof -
      have "\<nexists>s. zentry h a = Some (s, e)" if "a \<in> set ads"
        using that e zsl_wf_nth [OF wf] zsl_wf_length [OF wf] by (force simp: in_set_conv_nth image_iff)
      then show ?thesis using node_is_entry [OF wf _ n, of e] a ads by auto
    qed
  qed (use wf zsl_wf_header [OF wf] in \<open>auto simp: zsl_wf_def\<close>)
  then show ?thesis by (simp add: zslGetRank_def)
qed

lemma zslGetElementByRank_spec:
  assumes wf: "zsl_wf h zsl ads es" and len: "length ads + 1 < 2 ^ 64" and k: "k < 2 ^ 64"
  shows "zslGetElementByRank zsl (of_nat k) h =
           Some (if k = 0 then Some (header zsl) else if k \<le> length ads then Some (ads ! (k - 1)) else None)"
proof -
  let ?L = "header zsl # take k ads"
  have cond: "(of_nat m \<le> (of_nat k :: u64)) \<longleftrightarrow> m \<le> length (take k ads)" if "m \<le> length ads" for m
    using that len k by (simp add: word_of_nat_less_eq_iff take_bit_nat_eq_self)
  have search: "searchable (+) (\<lambda>t _. t \<le> of_nat k) of_nat h (level zsl) ?L (drop k ads)"
    by (rule zsl_searchable_pos [OF wf]) (simp_all add: cond)
  have "by_rank_loop (of_nat k) h (level zsl) (header zsl) (of_nat (length ([] :: nat list))) =
          Some (if k = length ?L - 1 then Some (last ?L) else None)"
  proof (rule by_rank_loop_spec [OF search])
    show "a \<in> set ?L \<Longrightarrow> 0 < height h a" for a
      using zsl_wf_height_pos [OF wf, of a] by (auto dest: in_set_takeD)
  qed (use wf zsl_wf_header [OF wf] len k in \<open>auto simp: zsl_wf_def\<close>)
  moreover have "last ?L = (if k = 0 \<or> ads = [] then header zsl else ads ! (k - 1))" if "k \<le> length ads"
    using that by (cases k) (auto simp: last_conv_nth)
  ultimately show ?thesis by (auto simp: zslGetElementByRank_def)
qed

section \<open>The first and the last element of a range\<close>

text \<open>A range is given by a lower condition \<open>gte\<close> and an upper condition \<open>lte\<close> on the elements.\<close>

definition range_preds :: "('s::linorder \<times> sds) list \<Rightarrow> ('s \<times> sds \<Rightarrow> bool) \<Rightarrow> ('s \<times> sds \<Rightarrow> bool) \<Rightarrow> bool" where
  "range_preds es gte lte \<longleftrightarrow>
     (\<forall>p\<in>set es. \<forall>q\<in>set es. kless p q \<longrightarrow> (gte p \<longrightarrow> gte q) \<and> (lte q \<longrightarrow> lte p))"

definition first_in :: "('p \<Rightarrow> bool) \<Rightarrow> nat list \<Rightarrow> 'p list \<Rightarrow> nat option" where
  "first_in Q ads es = map_option fst (find (\<lambda>(_, p). Q p) (zip ads es))"

definition last_in :: "('p \<Rightarrow> bool) \<Rightarrow> nat list \<Rightarrow> 'p list \<Rightarrow> nat option" where
  "last_in Q ads es = first_in Q (rev ads) (rev es)"

lemma first_in_None: "length ads = length es \<Longrightarrow> (\<And>p. p \<in> set es \<Longrightarrow> \<not> Q p) \<Longrightarrow> first_in Q ads es = None"
  by (auto simp: first_in_def find_None_iff dest: set_zip_rightD)

lemma first_in_Some:
  assumes "length A = length E" and "\<And>q. q \<in> set E \<Longrightarrow> \<not> Q q" and "Q p"
  shows "first_in Q (A @ x # B) (E @ p # F) = Some x"
  using assms by (induction A E rule: list_induct2) (simp_all add: first_in_def)

lemma last_in_None: "length ads = length es \<Longrightarrow> (\<And>p. p \<in> set es \<Longrightarrow> \<not> Q p) \<Longrightarrow> last_in Q ads es = None"
  unfolding last_in_def by (rule first_in_None) auto

lemma last_in_Some:
  assumes "length B = length F" and "\<And>q. q \<in> set F \<Longrightarrow> \<not> Q q" and "Q p"
  shows "last_in Q (A @ x # B) (E @ p # F) = Some x"
  using first_in_Some [of "rev B" "rev F" Q p x "rev A" "rev E"] assms by (simp add: last_in_def)

lemma sorted_last: "sorted_wrt kless es \<Longrightarrow> p \<in> set es \<Longrightarrow> p = last es \<or> kless p (last es)"
  by (induction es) (auto split: if_splits)

lemma sorted_hd: "sorted_wrt kless es \<Longrightarrow> p \<in> set es \<Longrightarrow> p = hd es \<or> kless (hd es) p"
  by (cases es) auto

lemma range_empty:
  assumes wf: "zsl_wf h zsl ads es" and r: "range_preds es gte lte" and none: "es \<noteq> [] \<Longrightarrow> \<not> gte (last es) \<or> \<not> lte (hd es)"
  shows "p \<in> set es \<Longrightarrow> \<not> (gte p \<and> lte p)"
proof -
  assume p: "p \<in> set es"
  have sorted: "sorted_wrt kless es" using wf by (simp add: zsl_wf_def)
  have "last es \<in> set es" "hd es \<in> set es" using p by (cases es; simp)+
  then show "\<not> (gte p \<and> lte p)"
    using none sorted_last [OF sorted p] sorted_hd [OF sorted p] p r unfolding range_preds_def
    by (metis empty_iff list.set(1))
qed

lemma seek_first:
  assumes wf: "zsl_wf h zsl ads es" and r: "range_preds es gte lte" and es: "es \<noteq> []" "gte (last es)"
    and cond: "\<forall>n s e. ele n = Some e \<longrightarrow> score n = Num s \<longrightarrow> cond n = (\<not> gte (s, e))"
  obtains x l y p where "zsl_seek zsl h cond = Some x" "get_level h x 0 = Some l" "forward l = Some y"
    "zentry h y = Some p" "first_in (\<lambda>p. gte p \<and> lte p) ads es = (if lte p then Some y else None)"
proof -
  have anti: "\<forall>p\<in>set es. \<forall>q\<in>set es. kless p q \<longrightarrow> \<not> gte q \<longrightarrow> \<not> gte p" using r by (auto simp: range_preds_def)
  obtain us A B E F where us: "zsl_search zsl h cond = Some us" "ads = A @ B" "es = E @ F" "length A = length E"
    "\<forall>p\<in>set E. \<not> gte p" "\<forall>p\<in>set F. \<not> \<not> gte p" "path_ok h (header zsl # A) (level zsl) us"
    "elem_at us 0 = Some (last (header zsl # A))"
    "\<exists>d. get_level h (last (header zsl # A)) 0 = Some \<lparr>forward = (if B = [] then None else Some (hd B)), span = d\<rparr>"
    by (rule zsl_search_spec [OF wf cond anti])
  have "F \<noteq> []" using es us(3,5) by (metis append.right_neutral last_in_set)
  then obtain p F' where F: "F = p # F'" by (cases F) auto
  obtain y B' where B: "B = y # B'" using zsl_wf_length [OF wf] us(2-4) F by (cases B) auto
  have "zentry h y = Some p"
    using zsl_wf_nth [OF wf, of "length A"] us(2-4) B F by (simp add: nth_append)
  moreover have "first_in (\<lambda>p. gte p \<and> lte p) ads es = (if lte p then Some y else None)"
  proof (cases "lte p")
    case True
    then show ?thesis using first_in_Some [of A E "\<lambda>p. gte p \<and> lte p" p y B' F'] us B F by auto
  next
    case False
    have "sorted_wrt kless (E @ p # F')" using wf us(3) F by (simp add: zsl_wf_def)
    then have "\<not> lte q" if "q \<in> set F" for q
      using that False r us(3) F unfolding range_preds_def by (auto simp: sorted_wrt_append)
    then have "first_in (\<lambda>p. gte p \<and> lte p) ads es = None"
      using us(3,5) zsl_wf_length [OF wf] by (intro first_in_None) auto
    then show ?thesis using False by simp
  qed
  moreover obtain d where "get_level h (last (header zsl # A)) 0 = Some \<lparr>forward = Some y, span = d\<rparr>"
    using us(9) B by auto
  ultimately show thesis using that [of "last (header zsl # A)"] us(1,8) by (simp add: zsl_seek_def)
qed

lemma seek_last:
  assumes wf: "zsl_wf h zsl ads es" and r: "range_preds es gte lte" and es: "es \<noteq> []" "lte (hd es)"
    and cond: "\<forall>n s e. ele n = Some e \<longrightarrow> score n = Num s \<longrightarrow> cond n = lte (s, e)"
  obtains x p where "zsl_seek zsl h cond = Some x" "zentry h x = Some p"
    "last_in (\<lambda>p. gte p \<and> lte p) ads es = (if gte p then Some x else None)"
proof -
  have anti: "\<forall>p\<in>set es. \<forall>q\<in>set es. kless p q \<longrightarrow> lte q \<longrightarrow> lte p" using r by (auto simp: range_preds_def)
  obtain us A B E F where us: "zsl_search zsl h cond = Some us" "ads = A @ B" "es = E @ F" "length A = length E"
    "\<forall>p\<in>set E. lte p" "\<forall>p\<in>set F. \<not> lte p" "path_ok h (header zsl # A) (level zsl) us"
    "elem_at us 0 = Some (last (header zsl # A))"
    "\<exists>d. get_level h (last (header zsl # A)) 0 = Some \<lparr>forward = (if B = [] then None else Some (hd B)), span = d\<rparr>"
    by (rule zsl_search_spec [OF wf cond anti])
  have "E \<noteq> []" using es us(3,6) by auto
  then obtain E' p where E: "E = E' @ [p]" by (cases E rule: rev_cases) auto
  obtain A' x where A: "A = A' @ [x]" using us(4) E by (cases A rule: rev_cases) auto
  have len: "length A' = length E'" "length B = length F" using us(2-4) A E zsl_wf_length [OF wf] by auto
  have "zentry h x = Some p"
    using zsl_wf_nth [OF wf, of "length A'"] us(2,3) A E len by (simp add: nth_append)
  moreover have "last_in (\<lambda>p. gte p \<and> lte p) ads es = (if gte p then Some x else None)"
  proof (cases "gte p")
    case True
    then show ?thesis using last_in_Some [of B F "\<lambda>p. gte p \<and> lte p" p A' x E'] us(2,3,5,6) A E len by auto
  next
    case False
    have "sorted_wrt kless (E' @ p # F)" using wf us(3) E by (simp add: zsl_wf_def)
    then have "\<not> gte q" if "q \<in> set E" for q
      using that False r us(3) E unfolding range_preds_def by (auto simp: sorted_wrt_append)
    then have "last_in (\<lambda>p. gte p \<and> lte p) ads es = None"
      using us(3,6) zsl_wf_length [OF wf] by (intro last_in_None) auto
    then show ?thesis using False by simp
  qed
  ultimately show thesis using that [of x] us(1,8) A by (simp add: zsl_seek_def)
qed

text \<open>The scores of a range: strictly between its ends, or equal to an end that is not excluded; an end that is not
  a number admits nothing.\<close>

definition score_in_range :: "'s::linorder zrangespec \<Rightarrow> 's \<times> sds \<Rightarrow> bool" where
  "score_in_range rng p \<longleftrightarrow>
     (case (rmin rng, rmax rng) of
        (Num a, Num b) \<Rightarrow> (a < fst p \<or> \<not> minex rng \<and> fst p = a) \<and> (fst p < b \<or> \<not> maxex rng \<and> fst p = b)
      | _ \<Rightarrow> False)"

lemma score_in_range_iff:
  "score_in_range rng p \<longleftrightarrow> zslValueGteMin (Num (fst p)) rng \<and> zslValueLteMax (Num (fst p)) rng"
  by (cases "rmin rng"; cases "rmax rng") (auto simp: score_in_range_def zslValueGteMin_def zslValueLteMax_def)

definition in_lex_range :: "zlexrangespec \<Rightarrow> 's \<times> sds \<Rightarrow> bool" where
  "in_lex_range rng p \<longleftrightarrow> zslLexValueGteMin (snd p) rng \<and> zslLexValueLteMax (snd p) rng"

lemma kless_fst: "kless p q \<Longrightarrow> fst p \<le> fst q"
  by (cases p; cases q) (auto simp: kless.simps)

lemma score_preds:
  "range_preds es (\<lambda>p. zslValueGteMin (Num (fst p)) rng) (\<lambda>p. zslValueLteMax (Num (fst p)) rng)"
  unfolding range_preds_def zslValueGteMin_def zslValueLteMax_def
  by (cases "rmin rng"; cases "rmax rng") (auto dest!: kless_fst)

text \<open>The ends of the list.\<close>

lemma zsl_ends:
  assumes wf: "zsl_wf h zsl ads es"
  shows "es = [] \<Longrightarrow> tail zsl = None" and "es = [] \<Longrightarrow> \<exists>l. get_level h (header zsl) 0 = Some l \<and> forward l = None"
    and "es \<noteq> [] \<Longrightarrow> \<exists>x. tail zsl = Some x \<and> zentry h x = Some (last es)"
    and "es \<noteq> [] \<Longrightarrow> \<exists>l y. get_level h (header zsl) 0 = Some l \<and> forward l = Some y \<and> zentry h y = Some (hd es)"
proof -
  note len = zsl_wf_length [OF wf]
  have t: "tail zsl = last_opt ads" and links: "links (height h) (get_level h) (level zsl) ([] @ header zsl # ads)"
    and lv: "0 < level zsl" using wf by (simp_all add: zsl_wf_def)
  have "nxt (height h) 0 ads = (if ads = [] then None else Some (hd ads))"
    using zsl_wf_height_pos [OF wf] by (intro nxt_bottom) simp
  then have l: "\<exists>d. get_level h (header zsl) 0 = Some \<lparr>forward = (if ads = [] then None else Some (hd ads)), span = d\<rparr>"
    using linksD [OF links lv] zsl_wf_height_pos [OF wf, of "header zsl"] by simp
  show "es = [] \<Longrightarrow> tail zsl = None" "es = [] \<Longrightarrow> \<exists>l. get_level h (header zsl) 0 = Some l \<and> forward l = None"
    using t l len by (auto simp: last_opt_def)
  assume ne: "es \<noteq> []"
  then have "ads \<noteq> []" using len by auto
  then show "\<exists>x. tail zsl = Some x \<and> zentry h x = Some (last es)"
    "\<exists>l y. get_level h (header zsl) 0 = Some l \<and> forward l = Some y \<and> zentry h y = Some (hd es)"
    using t l len ne zsl_wf_nth [OF wf, of "length ads - 1"] zsl_wf_nth [OF wf, of 0]
    by (auto simp: last_opt_def last_conv_nth hd_conv_nth)
qed

lemma zslIsInRange_spec:
  assumes wf: "zsl_wf h zsl ads es"
  obtains ok where "zslIsInRange zsl rng h = Some ok"
    "ok \<Longrightarrow> es \<noteq> [] \<and> zslValueGteMin (Num (fst (last es))) rng \<and> zslValueLteMax (Num (fst (hd es))) rng"
    "\<not> ok \<Longrightarrow> \<forall>p\<in>set es. \<not> score_in_range rng p"
proof (cases "fless (rmax rng) (rmin rng) \<or> feq (rmin rng) (rmax rng) \<and> (minex rng \<or> maxex rng)")
  case True
  then have "\<not> score_in_range rng p" for p :: "'a \<times> sds"
    unfolding score_in_range_iff zslValueGteMin_def zslValueLteMax_def
    by (cases "rmin rng"; cases "rmax rng") (auto split: if_splits)
  then show ?thesis using that [of False] True by (simp add: zslIsInRange_def)
next
  case False
  show ?thesis
  proof (cases "es = []")
    case True
    then show ?thesis using that [of False] False zsl_ends(1) [OF wf] by (simp add: zslIsInRange_def)
  next
    case ne: False
    let ?g = "\<lambda>p. zslValueGteMin (Num (fst p)) rng" and ?l = "\<lambda>p. zslValueLteMax (Num (fst p)) rng"
    obtain x where x: "tail zsl = Some x" "zentry h x = Some (last es)" using zsl_ends(3) [OF wf ne] by blast
    obtain l y where y: "get_level h (header zsl) 0 = Some l" "forward l = Some y" "zentry h y = Some (hd es)"
      using zsl_ends(4) [OF wf ne] by blast
    obtain n where n: "znodes h x = Some n" "score n = Num (fst (last es))"
      using x(2) by (cases "last es") (auto simp: zentry_node)
    obtain m where m: "znodes h y = Some m" "score m = Num (fst (hd es))"
      using y(3) by (cases "hd es") (auto simp: zentry_node)
    have run: "zslIsInRange zsl rng h = Some (?g (last es) \<and> ?l (hd es))"
      using False x n y m by (auto simp: zslIsInRange_def)
    show ?thesis
      using that [OF run] ne range_empty [OF wf score_preds, of rng] unfolding score_in_range_iff by blast
  qed
qed

lemma zslFirstInRange_spec:
  assumes wf: "zsl_wf h zsl ads es"
  shows "zslFirstInRange zsl rng h = Some (first_in (score_in_range rng) ads es)"
proof -
  obtain ok where ok: "zslIsInRange zsl rng h = Some ok"
    "ok \<Longrightarrow> es \<noteq> [] \<and> zslValueGteMin (Num (fst (last es))) rng \<and> zslValueLteMax (Num (fst (hd es))) rng"
    "\<not> ok \<Longrightarrow> \<forall>p\<in>set es. \<not> score_in_range rng p"
    using zslIsInRange_spec [OF wf] by blast
  show ?thesis
  proof (cases ok)
    case False
    then have "first_in (score_in_range rng) ads es = None"
      using ok(3) zsl_wf_length [OF wf] by (intro first_in_None) auto
    then show ?thesis using ok(1) False by (simp add: zslFirstInRange_def)
  next
    case True
    obtain x l y p where f: "zsl_seek zsl h (\<lambda>n. \<not> zslValueGteMin (score n) rng) = Some x" "get_level h x 0 = Some l"
      "forward l = Some y" "zentry h y = Some p"
      "first_in (\<lambda>p. zslValueGteMin (Num (fst p)) rng \<and> zslValueLteMax (Num (fst p)) rng) ads es =
         (if zslValueLteMax (Num (fst p)) rng then Some y else None)"
      by (rule seek_first [OF wf score_preds [of es rng], of "\<lambda>n. \<not> zslValueGteMin (score n) rng"])
        (use ok(2) [OF True] in auto)
    obtain n where "znodes h y = Some n" "score n = Num (fst p)" using f(4) by (cases p) (auto simp: zentry_node)
    then show ?thesis using f ok(1) True by (simp add: zslFirstInRange_def score_in_range_iff [abs_def])
  qed
qed

lemma zslLastInRange_spec:
  assumes wf: "zsl_wf h zsl ads es"
  shows "zslLastInRange zsl rng h = Some (last_in (score_in_range rng) ads es)"
proof -
  obtain ok where ok: "zslIsInRange zsl rng h = Some ok"
    "ok \<Longrightarrow> es \<noteq> [] \<and> zslValueGteMin (Num (fst (last es))) rng \<and> zslValueLteMax (Num (fst (hd es))) rng"
    "\<not> ok \<Longrightarrow> \<forall>p\<in>set es. \<not> score_in_range rng p"
    using zslIsInRange_spec [OF wf] by blast
  show ?thesis
  proof (cases ok)
    case False
    then have "last_in (score_in_range rng) ads es = None"
      using ok(3) zsl_wf_length [OF wf] by (intro last_in_None) auto
    then show ?thesis using ok(1) False by (simp add: zslLastInRange_def)
  next
    case True
    obtain x p where f: "zsl_seek zsl h (\<lambda>n. zslValueLteMax (score n) rng) = Some x" "zentry h x = Some p"
      "last_in (\<lambda>p. zslValueGteMin (Num (fst p)) rng \<and> zslValueLteMax (Num (fst p)) rng) ads es =
         (if zslValueGteMin (Num (fst p)) rng then Some x else None)"
      by (rule seek_last [OF wf score_preds [of es rng], of "\<lambda>n. zslValueLteMax (score n) rng"])
        (use ok(2) [OF True] in auto)
    obtain n where "znodes h x = Some n" "score n = Num (fst p)" using f(2) by (cases p) (auto simp: zentry_node)
    then show ?thesis using f ok(1) True by (simp add: zslLastInRange_def score_in_range_iff [abs_def])
  qed
qed

text \<open>Lexicographic ranges, of elements with the same score.\<close>

lemma sdscmplex_Lex [simp]:
  "sdscmplex (Lex v) Minstring = 1" "sdscmplex (Lex v) Maxstring = -1" "sdscmplex (Lex v) (Lex w) = sdscmp v w"
  by (auto simp: sdscmplex_def)

lemma kless_snd: "kless p q \<Longrightarrow> fst p = fst q \<Longrightarrow> sdscmp (snd p) (snd q) < 0"
  by (cases p; cases q) (auto simp: kless.simps)

lemma sdscmp_le: "sdscmp a b \<le> 0 \<longleftrightarrow> a = b \<or> sdscmp a b < 0"
  using sdscmp_zero [of a b] by linarith

lemma sdscmp_ge: "0 \<le> sdscmp a b \<longleftrightarrow> a = b \<or> sdscmp b a < 0"
  using sdscmp_zero [of a b] sdscmp_swap [of a b] by linarith

lemma lex_preds:
  assumes "\<And>p. p \<in> set es \<Longrightarrow> fst p = s"
  shows "range_preds es (\<lambda>p. zslLexValueGteMin (snd p) rng) (\<lambda>p. zslLexValueLteMax (snd p) rng)"
  unfolding range_preds_def
proof (intro ballI impI)
  fix p q
  assume "p \<in> set es" "q \<in> set es" "kless p q"
  then have less: "sdscmp (snd p) (snd q) < 0" using assms kless_snd by metis
  have "zslLexValueGteMin (snd q) rng" if "zslLexValueGteMin (snd p) rng"
    using that less sdscmp_trans unfolding zslLexValueGteMin_def
    by (cases "lmin rng") (auto simp: sdscmp_ge sdscmp_swap split: if_splits)
  moreover have "zslLexValueLteMax (snd p) rng" if "zslLexValueLteMax (snd q) rng"
    using that less sdscmp_trans unfolding zslLexValueLteMax_def
    by (cases "lmax rng") (auto simp: sdscmp_le split: if_splits)
  ultimately show "(zslLexValueGteMin (snd p) rng \<longrightarrow> zslLexValueGteMin (snd q) rng) \<and>
      (zslLexValueLteMax (snd q) rng \<longrightarrow> zslLexValueLteMax (snd p) rng)" by blast
qed

lemma lex_empty:
  assumes "sdscmplex (lmin rng) (lmax rng) > 0 \<or> sdscmplex (lmin rng) (lmax rng) = 0 \<and> (lminex rng \<or> lmaxex rng)"
  shows "\<not> in_lex_range rng p"
proof
  assume "in_lex_range rng p"
  then have g: "zslLexValueGteMin (snd p) rng" and l: "zslLexValueLteMax (snd p) rng" by (simp_all add: in_lex_range_def)
  have gl: "sdscmplex (Lex (snd p)) (lmin rng) \<ge> 0" "sdscmplex (Lex (snd p)) (lmax rng) \<le> 0"
    using g l by (auto simp: zslLexValueGteMin_def zslLexValueLteMax_def split: if_splits)
  then consider a b where "lmin rng = Lex a" "lmax rng = Lex b"
    | "sdscmplex (lmin rng) (lmax rng) < 0"
    by (cases "lmin rng"; cases "lmax rng") (auto simp: sdscmplex_def)
  then show False
  proof cases
    case 1
    then have "sdscmp a b < 0 \<or> a = b \<and> snd p = a"
      using gl sdscmp_trans [of a "snd p" b] by (auto simp: sdscmp_le sdscmp_ge)
    then show False
      using assms g l 1 by (auto simp: zslLexValueGteMin_def zslLexValueLteMax_def split: if_splits)
  next
    case 2
    then show False using assms by auto
  qed
qed

lemma node_lex_eq: "\<forall>n s e. ele n = Some e \<longrightarrow> score n = Num s \<longrightarrow> node_lex f n = f (snd (s, e))"
  by (simp add: node_lex_def)

lemma zslIsInLexRange_spec:
  assumes wf: "zsl_wf h zsl ads es" and same: "\<And>p. p \<in> set es \<Longrightarrow> fst p = s"
  obtains ok where "zslIsInLexRange zsl rng h = Some ok"
    "ok \<Longrightarrow> es \<noteq> [] \<and> zslLexValueGteMin (snd (last es)) rng \<and> zslLexValueLteMax (snd (hd es)) rng"
    "\<not> ok \<Longrightarrow> \<forall>p\<in>set es. \<not> in_lex_range rng p"
proof (cases "sdscmplex (lmin rng) (lmax rng) > 0 \<or> sdscmplex (lmin rng) (lmax rng) = 0 \<and> (lminex rng \<or> lmaxex rng)")
  case True
  have "\<forall>p\<in>set es. \<not> in_lex_range rng p" using lex_empty [OF True] by blast
  then show ?thesis using that [of False] True by (simp add: zslIsInLexRange_def Let_def)
next
  case False
  show ?thesis
  proof (cases "es = []")
    case True
    then show ?thesis using that [of False] False zsl_ends(1) [OF wf] by (auto simp: zslIsInLexRange_def Let_def)
  next
    case ne: False
    obtain x where x: "tail zsl = Some x" "zentry h x = Some (last es)" using zsl_ends(3) [OF wf ne] by blast
    obtain l y where y: "get_level h (header zsl) 0 = Some l" "forward l = Some y" "zentry h y = Some (hd es)"
      using zsl_ends(4) [OF wf ne] by blast
    obtain n where n: "znodes h x = Some n" "ele n = Some (snd (last es))"
      using x(2) by (cases "last es") (auto simp: zentry_node)
    obtain m where m: "znodes h y = Some m" "ele m = Some (snd (hd es))"
      using y(3) by (cases "hd es") (auto simp: zentry_node)
    have run: "zslIsInLexRange zsl rng h =
        Some (zslLexValueGteMin (snd (last es)) rng \<and> zslLexValueLteMax (snd (hd es)) rng)"
      using False x n y m by (auto simp: zslIsInLexRange_def Let_def)
    show ?thesis
      using that [OF run] ne range_empty [OF wf lex_preds [where rng = rng, OF same]] unfolding in_lex_range_def by blast
  qed
qed

lemma zslFirstInLexRange_spec:
  assumes wf: "zsl_wf h zsl ads es" and same: "\<And>p. p \<in> set es \<Longrightarrow> fst p = s"
  shows "zslFirstInLexRange zsl rng h = Some (first_in (in_lex_range rng) ads es)"
proof -
  obtain ok where ok: "zslIsInLexRange zsl rng h = Some ok"
    "ok \<Longrightarrow> es \<noteq> [] \<and> zslLexValueGteMin (snd (last es)) rng \<and> zslLexValueLteMax (snd (hd es)) rng"
    "\<not> ok \<Longrightarrow> \<forall>p\<in>set es. \<not> in_lex_range rng p"
    using zslIsInLexRange_spec [OF wf same] by blast
  show ?thesis
  proof (cases ok)
    case False
    then have "first_in (in_lex_range rng) ads es = None"
      using ok(3) zsl_wf_length [OF wf] by (intro first_in_None) auto
    then show ?thesis using ok(1) False by (simp add: zslFirstInLexRange_def)
  next
    case True
    obtain x l y p where f: "zsl_seek zsl h (node_lex (\<lambda>e. \<not> zslLexValueGteMin e rng)) = Some x" "get_level h x 0 = Some l"
      "forward l = Some y" "zentry h y = Some p"
      "first_in (\<lambda>p. zslLexValueGteMin (snd p) rng \<and> zslLexValueLteMax (snd p) rng) ads es =
         (if zslLexValueLteMax (snd p) rng then Some y else None)"
      by (rule seek_first [OF wf lex_preds [where rng = rng, OF same] _ _ node_lex_eq]) (use ok(2) [OF True] in auto)
    obtain n where "znodes h y = Some n" "ele n = Some (snd p)" using f(4) by (cases p) (auto simp: zentry_node)
    then show ?thesis using f ok(1) True by (simp add: zslFirstInLexRange_def in_lex_range_def [abs_def])
  qed
qed

lemma zslLastInLexRange_spec:
  assumes wf: "zsl_wf h zsl ads es" and same: "\<And>p. p \<in> set es \<Longrightarrow> fst p = s"
  shows "zslLastInLexRange zsl rng h = Some (last_in (in_lex_range rng) ads es)"
proof -
  obtain ok where ok: "zslIsInLexRange zsl rng h = Some ok"
    "ok \<Longrightarrow> es \<noteq> [] \<and> zslLexValueGteMin (snd (last es)) rng \<and> zslLexValueLteMax (snd (hd es)) rng"
    "\<not> ok \<Longrightarrow> \<forall>p\<in>set es. \<not> in_lex_range rng p"
    using zslIsInLexRange_spec [OF wf same] by blast
  show ?thesis
  proof (cases ok)
    case False
    then have "last_in (in_lex_range rng) ads es = None"
      using ok(3) zsl_wf_length [OF wf] by (intro last_in_None) auto
    then show ?thesis using ok(1) False by (simp add: zslLastInLexRange_def)
  next
    case True
    obtain x p where f: "zsl_seek zsl h (node_lex (\<lambda>e. zslLexValueLteMax e rng)) = Some x" "zentry h x = Some p"
      "last_in (\<lambda>p. zslLexValueGteMin (snd p) rng \<and> zslLexValueLteMax (snd p) rng) ads es =
         (if zslLexValueGteMin (snd p) rng then Some x else None)"
      by (rule seek_last [OF wf lex_preds [where rng = rng, OF same] _ _ node_lex_eq]) (use ok(2) [OF True] in auto)
    obtain n where "znodes h x = Some n" "ele n = Some (snd p)" using f(2) by (cases p) (auto simp: zentry_node)
    then show ?thesis using f ok(1) True by (simp add: zslLastInLexRange_def in_lex_range_def [abs_def])
  qed
qed

section \<open>Deleting a range\<close>

lemma path_ok_cong:
  assumes "path_ok h L lv us" and "lv' \<le> lv" and "\<And>a. a \<in> set L \<Longrightarrow> height h' a = height h a"
  shows "path_ok h' L lv' us"
proof -
  have "last_above (height h') i L u r" if la: "last_above (height h) i L u r" for i u r
  proof -
    obtain xs zs where L: "L = xs @ u # zs" "r = length xs" "i < height h u" "low (height h) i zs"
      using la by (auto simp: last_above_def)
    have "height h' u = height h u" "low (height h') i zs"
      using assms(3) L by (auto simp: low_def)
    then show ?thesis unfolding last_above_def using L by auto
  qed
  then show ?thesis using assms(1,2) unfolding path_ok_def by (meson less_le_trans order_trans)
qed

text \<open>
  The nodes of \<open>N\<close>, which hold the elements \<open>M\<close>, are removed: the condition holds of them and not of the node after them.
\<close>

lemma range_loop_spec:
  assumes "zsl_wf h zsl (A @ N @ B) (E @ M @ F)" and "length A = length E" and "length N = length M"
    and "path_ok h (header zsl # A) (level zsl) us" and "dict_wf hf d" and "dict_map d = addrs (E @ M @ F) (A @ N @ B)"
    and "\<And>j s e n. \<lbrakk>j < length M; M ! j = (s, e); ele n = Some e; score n = Num s\<rbrakk> \<Longrightarrow> cond (r + of_nat j) n"
    and "\<And>s e n. \<lbrakk>F \<noteq> []; hd F = (s, e); ele n = Some e; score n = Num s\<rbrakk> \<Longrightarrow> \<not> cond (r + of_nat (length M)) n"
  shows "\<exists>h' zsl' d'. range_loop hf cond us (if N @ B = [] then None else Some (hd (N @ B))) r zsl d h =
           Some (h', zsl', d', r + of_nat (length M)) \<and> zsl_wf h' zsl' (A @ B) (E @ F) \<and> dict_wf hf d' \<and>
           dict_map d' = addrs (E @ F) (A @ B) \<and> header zsl' = header zsl"
  using assms
proof (induction M arbitrary: N h zsl d r)
  case Nil
  then have N: "N = []" by simp
  show ?case
  proof (cases B)
    case Nil
    then show ?thesis using Nil.prems N by (subst range_loop.simps) auto
  next
    case (Cons b B')
    have "length F = length B" using zsl_wf_length [OF Nil.prems(1)] Nil.prems(2) N by simp
    then obtain p F' where F: "F = p # F'" using Cons by (cases F) auto
    have "zentry h b = Some p"
      using zsl_wf_nth [OF Nil.prems(1), of "length A"] Nil.prems(2) N Cons F by (simp add: nth_append)
    then obtain n where n: "znodes h b = Some n" "ele n = Some (snd p)" "score n = Num (fst p)"
      by (cases p) (auto simp: zentry_node)
    have "\<not> cond r n" using Nil.prems(8) [of "fst p" "snd p" n] F n by simp
    then show ?thesis using Nil.prems N Cons n by (subst range_loop.simps) auto
  qed
next
  case (Cons p M)
  obtain s e where p: "p = (s, e)" by (cases p)
  obtain x N' where N: "N = x # N'" "length N' = length M" using Cons.prems(3) by (cases N) auto
  have wf: "zsl_wf h zsl (A @ x # (N' @ B)) (E @ (s, e) # (M @ F))" using Cons.prems(1) N p by simp
  have "zentry h x = Some (s, e)" by (rule zentry_part(1) [OF wf Cons.prems(2)])
  then obtain n where n: "znodes h x = Some n" "ele n = Some e" "score n = Num s" by (auto simp: zentry_node)
  have c: "cond r n" using Cons.prems(7) [of 0 s e n] n p by simp
  obtain dd where l: "get_level h x 0 = Some \<lparr>forward = (if N' @ B = [] then None else Some (hd (N' @ B))), span = dd\<rparr>"
    using neighbours(2) [OF wf Cons.prems(2) n(1)] by blast
  obtain h1 zsl1 where d1: "zslDeleteNode zsl x us h = Some (h1, zsl1)" "zsl_wf h1 zsl1 (A @ N' @ B) (E @ M @ F)"
    "header zsl1 = header zsl" "level zsl1 \<le> level zsl" "height h1 = height h" "zentry h1 = zentry h"
    using zslDeleteNode_spec [OF wf Cons.prems(2,4)] by auto
  obtain m where m: "znodes h1 x = Some m" "ele m = Some e"
    using \<open>zentry h x = Some (s, e)\<close> unfolding d1(6) [symmetric] by (auto simp: zentry_node)
  have new: "e \<notin> snd ` set (E @ M @ F)" by (rule wf_elem_unique [OF wf])
  obtain d' b where d': "dictDelete hf d e = Some (d', b)" "dict_wf hf d'" "dict_map d' = (dict_map d)(e := None)"
    using dict_kv.delete_law [OF Cons.prems(5)] by blast
  have dm: "dict_map d' = addrs (E @ M @ F) (A @ N' @ B)"
    using d'(3) Cons.prems(6) addrs_delete [OF new Cons.prems(2), of "N' @ B" s x] N p by simp
  define h2 where "h2 = h1\<lparr>znodes := (znodes h1)(x := None)\<rparr>"
  have x: "x \<notin> set (header zsl1 # A @ N' @ B)" using wf d1(3) by (simp add: zsl_wf_def)
  have wf2: "zsl_wf h2 zsl1 (A @ N' @ B) (E @ M @ F)" unfolding h2_def by (rule zsl_free [OF d1(2) x])
  have path: "path_ok h2 (header zsl1 # A) (level zsl1) us"
  proof (rule path_ok_cong [OF Cons.prems(4) [folded d1(3)] d1(4)])
    show "height h2 a = height h a" if "a \<in> set (header zsl1 # A)" for a
      using that x d1(5) by (auto simp: h2_def height_def fun_eq_iff)
  qed
  have "\<exists>h' zsl' d''. range_loop hf cond us (if N' @ B = [] then None else Some (hd (N' @ B))) (r + 1) zsl1 d' h2 =
      Some (h', zsl', d'', r + 1 + of_nat (length M)) \<and> zsl_wf h' zsl' (A @ B) (E @ F) \<and> dict_wf hf d'' \<and>
      dict_map d'' = addrs (E @ F) (A @ B) \<and> header zsl' = header zsl1"
  proof (rule Cons.IH [OF wf2 Cons.prems(2) N(2) path d'(2) dm])
    show "cond (r + 1 + of_nat j) n'" if "j < length M" "M ! j = (s', e')" "ele n' = Some e'" "score n' = Num s'" for j s' e' n'
      using Cons.prems(7) [of "Suc j" s' e' n'] that by (simp add: add_ac)
    show "\<not> cond (r + 1 + of_nat (length M)) n'" if "F \<noteq> []" "hd F = (s', e')" "ele n' = Some e'" "score n' = Num s'" for s' e' n'
      using Cons.prems(8) [of s' e' n'] that by (simp add: add_ac)
  qed
  then show ?case
    using n c l d1(1,3) m d'(1) N by (subst range_loop.simps) (simp add: zslFreeNode_eq h2_def add_ac)
qed


lemma split_range:
  assumes wf: "zsl_wf h zsl (A @ B) (E @ F)" and r: "range_preds (E @ F) gte lte"
    and E: "\<forall>p\<in>set E. \<not> gte p" and F: "\<forall>p\<in>set F. \<not> \<not> gte p" and len: "length A = length E"
  obtains M F' N B' where "F = M @ F'" "B = N @ B'" "length N = length M" "\<forall>p\<in>set M. lte p" "\<forall>p\<in>set F'. \<not> lte p"
    "filter (\<lambda>p. \<not> (gte p \<and> lte p)) (E @ F) = E @ F'" "filter (\<lambda>p. gte p \<and> lte p) (E @ F) = M"
proof -
  have "sorted_wrt kless F" using wf by (simp add: zsl_wf_def sorted_wrt_append)
  then obtain M F' where F': "F = M @ F'" "\<forall>p\<in>set M. lte p" "\<forall>p\<in>set F'. \<not> lte p"
    using split_antitone [of kless F lte] r by (auto simp: range_preds_def)
  have "B = take (length M) B @ drop (length M) B" "length (take (length M) B) = length M"
    using zsl_wf_length [OF wf] len F'(1) by simp_all
  moreover have "filter (\<lambda>p. \<not> (gte p \<and> lte p)) (E @ F) = E @ F'" "filter (\<lambda>p. gte p \<and> lte p) (E @ F) = M"
    using E F F' by (auto simp: filter_id_conv filter_empty_conv)
  ultimately show thesis using that F' by blast
qed

text \<open>The body that \<open>zslDeleteRangeByScore\<close> and \<open>zslDeleteRangeByLex\<close> share, for a search by \<open>\<not> gte\<close> and a loop by \<open>lte\<close>.\<close>

lemma delete_range:
  assumes wf: "zsl_wf h zsl ads es" and r: "range_preds es gte lte" and d: "dict_wf hf d" "dict_map d = addrs es ads"
    and lo: "\<forall>n s e. ele n = Some e \<longrightarrow> score n = Num s \<longrightarrow> lo n = (\<not> gte (s, e))"
    and hi: "\<forall>n s e. ele n = Some e \<longrightarrow> score n = Num s \<longrightarrow> hi n = lte (s, e)"
  shows "\<exists>h' zsl' ads' d'. do {
             us \<leftarrow> zsl_search zsl h lo;
             x \<leftarrow> elem_at us 0;
             l \<leftarrow> get_level h x 0;
             range_loop hf (\<lambda>_. hi) us (forward l) 0 zsl d h } =
             Some (h', zsl', d', of_nat (length (filter (\<lambda>p. gte p \<and> lte p) es))) \<and>
           zsl_wf h' zsl' ads' (filter (\<lambda>p. \<not> (gte p \<and> lte p)) es) \<and> dict_wf hf d' \<and>
           dict_map d' = addrs (filter (\<lambda>p. \<not> (gte p \<and> lte p)) es) ads' \<and> header zsl' = header zsl"
proof -
  have anti: "\<forall>p\<in>set es. \<forall>q\<in>set es. kless p q \<longrightarrow> \<not> gte q \<longrightarrow> \<not> gte p" using r by (auto simp: range_preds_def)
  obtain us A B E F where us: "zsl_search zsl h lo = Some us" "ads = A @ B" "es = E @ F" "length A = length E"
    "\<forall>p\<in>set E. \<not> gte p" "\<forall>p\<in>set F. \<not> \<not> gte p" "path_ok h (header zsl # A) (level zsl) us"
    "elem_at us 0 = Some (last (header zsl # A))"
    "\<exists>d. get_level h (last (header zsl # A)) 0 = Some \<lparr>forward = (if B = [] then None else Some (hd B)), span = d\<rparr>"
    by (rule zsl_search_spec [OF wf lo anti])
  obtain M F' N B' where m: "F = M @ F'" "B = N @ B'" "length N = length M" "\<forall>p\<in>set M. lte p" "\<forall>p\<in>set F'. \<not> lte p"
    "filter (\<lambda>p. \<not> (gte p \<and> lte p)) (E @ F) = E @ F'" "filter (\<lambda>p. gte p \<and> lte p) (E @ F) = M"
    by (rule split_range [OF wf [unfolded us(2,3)] r [unfolded us(3)] us(5,6,4)])
  have wf': "zsl_wf h zsl (A @ N @ B') (E @ M @ F')" using wf us(2,3) m(1,2) by simp
  have dm: "dict_map d = addrs (E @ M @ F') (A @ N @ B')" using d(2) us(2,3) m(1,2) by simp
  have c1: "hi n" if "j < length M" "M ! j = (s, e)" "ele n = Some e" "score n = Num s" for j s e n
    using that hi m(4) nth_mem [of j M] by auto
  have c2: "\<not> hi n" if "F' \<noteq> []" "hd F' = (s, e)" "ele n = Some e" "score n = Num s" for s e n
    using that hi m(5) hd_in_set [of F'] by auto
  have "\<exists>h' zsl' d'. range_loop hf (\<lambda>_. hi) us (if N @ B' = [] then None else Some (hd (N @ B'))) 0 zsl d h =
      Some (h', zsl', d', 0 + of_nat (length M)) \<and> zsl_wf h' zsl' (A @ B') (E @ F') \<and> dict_wf hf d' \<and>
    dict_map d' = addrs (E @ F') (A @ B') \<and> header zsl' = header zsl"
    by (rule range_loop_spec [OF wf' us(4) m(3) us(7) d(1) dm]) (erule (3) c1, erule (3) c2)
  then show ?thesis using us(1,3,8,9) m(2,6,7) by auto
qed


lemma zslDeleteRangeByLex_spec:
  assumes wf: "zsl_wf h zsl ads es" and d: "dict_wf hf d" "dict_map d = addrs es ads"
    and same: "\<And>p. p \<in> set es \<Longrightarrow> fst p = s"
  shows "\<exists>h' zsl' ads' d'. zslDeleteRangeByLex hf zsl rng d h =
             Some (h', zsl', d', of_nat (length (filter (in_lex_range rng) es))) \<and>
           zsl_wf h' zsl' ads' (filter (\<lambda>p. \<not> in_lex_range rng p) es) \<and> dict_wf hf d' \<and>
           dict_map d' = addrs (filter (\<lambda>p. \<not> in_lex_range rng p) es) ads' \<and> header zsl' = header zsl"
  unfolding zslDeleteRangeByLex_def in_lex_range_def
  by (rule delete_range [OF wf lex_preds [OF same] d node_lex_eq node_lex_eq])

lemma zslDeleteRangeByRank_spec:
  fixes start "end" :: u32
  assumes wf: "zsl_wf h zsl ads es" and d: "dict_wf hf d" "dict_map d = addrs es ads" and len: "length es + 1 < 2 ^ 64"
  defines "s \<equiv> unat start - 1" and "t \<equiv> unat end"
  shows "\<exists>h' zsl' ads' d'. zslDeleteRangeByRank hf zsl start end d h =
             Some (h', zsl', d', of_nat (length (take (t - s) (drop s es)))) \<and>
           zsl_wf h' zsl' ads' (take s es @ drop (max s t) es) \<and> dict_wf hf d' \<and>
           dict_map d' = addrs (take s es @ drop (max s t) es) ads' \<and> header zsl' = header zsl"
proof -
  let ?A = "take s ads" and ?B = "drop s ads" and ?E = "take s es" and ?F = "drop s es"
  let ?M = "take (t - s) ?F" and ?N = "take (t - s) ?B" and ?F' = "drop (t - s) ?F" and ?B' = "drop (t - s) ?B"
  note leq = zsl_wf_length [OF wf]
  have u64: "unat (of_nat m :: u64) = m" if "m < 2 ^ 64" for m
    using that by (simp add: unsigned_of_nat take_bit_nat_eq_self)
  have up: "unat (ucast w :: u64) = unat w" for w :: u32
  proof -
    have "unat w < 2 ^ LENGTH(32)" by (rule unsigned_less)
    then show ?thesis by (simp add: unsigned_ucast_eq take_bit_nat_eq_self)
  qed
  have cond: "(of_nat m < (ucast start :: u64)) \<longleftrightarrow> m \<le> length ?A" if "0 < m" "m \<le> length ads" for m
    using that len leq unfolding word_less_nat_alt up by (subst u64) (auto simp: s_def)
  have search: "searchable (+) (\<lambda>t _. t < ucast start) of_nat h (level zsl) (header zsl # ?A) ?B"
    by (rule zsl_searchable_pos [OF wf]) (simp_all add: cond)
  have lv: "1 \<le> level zsl" "level zsl \<le> ZSKIPLIST_MAXLEVEL" using wf by (simp_all add: zsl_wf_def)
  obtain us where us: "descend (+) (\<lambda>t _. t < ucast start) h (level zsl) (header zsl) 0 [] = Some us" "length us = level zsl"
    "\<And>i. i < level zsl \<Longrightarrow> \<exists>r. snd (us ! i) = of_nat r \<and> last_above (height h) i (header zsl # ?A) (fst (us ! i)) r"
    using descend_spec [OF search order_refl, of "[]" "header zsl" ?A "[]"] zsl_wf_header [OF wf] lv by auto
  have path: "path_ok h (header zsl # ?A) (level zsl) (map fst us)" using us by (auto simp: path_ok_def)
  obtain r where r: "snd (us ! 0) = of_nat r" "last_above (height h) 0 (header zsl # ?A) (fst (us ! 0)) r"
    using us(3) [of 0] lv by auto
  have pos: "0 < height h a" if "a \<in> set (header zsl # ?A)" for a
    using zsl_wf_height_pos [OF wf, of a] that by (auto dest: in_set_takeD)
  have u0: "elem_at us 0 = Some (last (header zsl # ?A), of_nat (length ?A))"
    using last_above_bottom [OF r(2) pos] r(1) us(2) lv by (cases "us ! 0") (simp add: elem_at_def)
  have l: "\<exists>d. get_level h (last (header zsl # ?A)) 0 = Some \<lparr>forward = (if ?B = [] then None else Some (hd ?B)), span = d\<rparr>"
    by (rule level0_next [OF wf]) simp
  then obtain k where k: "get_level h (last (header zsl # ?A)) 0 = Some \<lparr>forward = (if ?B = [] then None else Some (hd ?B)), span = k\<rparr>"
    by blast
  have cond': "((of_nat (length ?A) :: u64) + 1 + (0 + of_nat j) \<le> ucast end) \<longleftrightarrow> length ?A + 1 + j \<le> t"
    if "j \<le> length ?F" for j
  proof -
    have "(of_nat (length ?A) :: u64) + 1 + (0 + of_nat j) = of_nat (length ?A + 1 + j)" by simp
    then show ?thesis
      using that len leq unfolding word_le_nat_alt up by (simp only:) (subst u64, auto simp: t_def)
  qed
  have wf': "zsl_wf h zsl (?A @ ?N @ ?B') (?E @ ?M @ ?F')" and dm: "dict_map d = addrs (?E @ ?M @ ?F') (?A @ ?N @ ?B')"
    using wf d(2) by (simp_all only: append_take_drop_id)
  have AE: "length ?A = length ?E" and NM: "length ?N = length ?M" using leq by simp_all
  have "\<exists>h' zsl' d'. range_loop hf (\<lambda>removed _. of_nat (length ?A) + 1 + removed \<le> ucast end) (map fst us)
      (if ?N @ ?B' = [] then None else Some (hd (?N @ ?B'))) 0 zsl d h =
      Some (h', zsl', d', 0 + of_nat (length ?M)) \<and> zsl_wf h' zsl' (?A @ ?B') (?E @ ?F') \<and> dict_wf hf d' \<and>
    dict_map d' = addrs (?E @ ?F') (?A @ ?B') \<and> header zsl' = header zsl"
  proof (rule range_loop_spec [OF wf' AE NM path d(1) dm])
    show "of_nat (length ?A) + 1 + (0 + of_nat j) \<le> (ucast end :: u64)" if "j < length ?M" for j
      using cond' [of j] that leq by auto
    show "\<not> of_nat (length ?A) + 1 + (0 + of_nat (length ?M)) \<le> (ucast end :: u64)" if "?F' \<noteq> []"
      using cond' [of "length ?M"] that leq by auto
  qed
  then obtain h' zsl' d' where run: "range_loop hf (\<lambda>removed _. of_nat (length ?A) + 1 + removed \<le> ucast end) (map fst us)
      (if ?B = [] then None else Some (hd ?B)) 0 zsl d h = Some (h', zsl', d', of_nat (length ?M))"
    "zsl_wf h' zsl' (?A @ ?B') (?E @ ?F')" "dict_wf hf d'" "dict_map d' = addrs (?E @ ?F') (?A @ ?B')" "header zsl' = header zsl"
    unfolding append_take_drop_id by auto
  have "zslDeleteRangeByRank hf zsl start end d h = Some (h', zsl', d', of_nat (length ?M))"
    unfolding zslDeleteRangeByRank_def us(1) by (simp only: Option.bind.simps u0 prod.case k zskiplistLevel.simps run(1))
  moreover have "?E @ ?F' = take s es @ drop (max s t) es" by (simp add: max_def add.commute)
  ultimately show ?thesis using run(2-5) by metis
qed

section \<open>Sorted sets as maps from elements to scores\<close>

text \<open>
  The hash table and the skip list hold the same elements, and the pointers of the hash table lead to the nodes of
  the skip list; \<open>m\<close> gives the scores.
\<close>

definition zset_wf :: "(sds \<Rightarrow> u64) \<Rightarrow> zset \<Rightarrow> 's::linorder zheap \<Rightarrow> (sds \<rightharpoonup> 's) \<Rightarrow> bool" where
  "zset_wf hf zs h m \<longleftrightarrow>
     dict_wf hf (zdict zs) \<and>
     (\<exists>ads es. zsl_wf h (zlist zs) ads es \<and> dict_map (zdict zs) = addrs es ads \<and> scores es = m)"

text \<open>What \<open>zsetAdd\<close> does to the map, with its return value, its flag and \<open>*newscore\<close>.\<close>

definition zadd_spec :: "('s double \<Rightarrow> 's double \<Rightarrow> 's double) \<Rightarrow> 's double \<Rightarrow> sds \<Rightarrow> bool \<Rightarrow> bool \<Rightarrow> bool \<Rightarrow> (sds \<rightharpoonup> 's) \<Rightarrow>
   (sds \<rightharpoonup> 's) \<times> bool \<times> zadd_flag \<times> 's double option" where
  "zadd_spec add s e incr nx xx m =
     (case s of
        NaN \<Rightarrow> (m, False, ZADD_NAN, None)
      | Num v \<Rightarrow>
          (case m e of
             None \<Rightarrow> if xx then (m, True, ZADD_NOP, None) else (m(e \<mapsto> v), True, ZADD_ADDED, Some s)
           | Some cur \<Rightarrow>
               if nx then (m, True, ZADD_NOP, None)
               else (case (if incr then add s (Num cur) else s) of
                       NaN \<Rightarrow> (m, False, ZADD_NAN, None)
                     | Num w \<Rightarrow> (m(e \<mapsto> w), True, if w = cur then ZADD_NONE else ZADD_UPDATED,
                                 if incr then Some (Num w) else None))))"

lemma zset_wfI:
  "\<lbrakk>dict_wf hf (zdict zs); zsl_wf h (zlist zs) ads es; dict_map (zdict zs) = addrs es ads; scores es = m\<rbrakk> \<Longrightarrow>
   zset_wf hf zs h m"
  by (auto simp: zset_wf_def)

lemma zset_card: "zsl_wf h zsl ads es \<Longrightarrow> card (dom (scores es)) = length es"
proof -
  assume wf: "zsl_wf h zsl ads es"
  have "dom (scores es) = snd ` set es" using scores_None [of es] by (auto simp: dom_def)
  moreover have "card (snd ` set es) = length es"
    using wf distinct_card [of "map snd es"] by (simp add: zsl_wf_def)
  ultimately show ?thesis by simp
qed

text \<open>The lookup in the hash table that every operation starts with.\<close>

lemma zset_lookup:
  assumes "zset_wf hf zs h m"
  shows "\<exists>d r. dictFind hf (zdict zs) e = Some (d, r) \<and> zset_wf hf (zs\<lparr>zdict := d\<rparr>) h m \<and>
           dict_map d = dict_map (zdict zs) \<and>
           (case r of None \<Rightarrow> m e = None
            | Some p \<Rightarrow> \<exists>s. m e = Some s \<and> entry_at hf d e p \<and> read_score h (snd (deref d p)) = Some (Num s))"
proof -
  obtain ads es where wf: "dict_wf hf (zdict zs)" "zsl_wf h (zlist zs) ads es" "dict_map (zdict zs) = addrs es ads"
    "scores es = m" using assms by (auto simp: zset_wf_def)
  obtain d r where d: "dictFind hf (zdict zs) e = Some (d, r)" "dict_wf hf d" "dict_map d = dict_map (zdict zs)"
    "case r of None \<Rightarrow> dict_map (zdict zs) e = None
     | Some p \<Rightarrow> entry_at hf d e p \<and> dict_map (zdict zs) e = Some (snd (deref d p))"
    using dictFind_spec [OF wf(1)] by blast
  have z: "zset_wf hf (zs\<lparr>zdict := d\<rparr>) h m" using wf d(2,3) by (auto simp: zset_wf_def)
  show ?thesis
  proof (cases r)
    case None
    then have "e \<notin> dom (addrs es ads)" using d(4) wf(3) by auto
    then have "m e = None" using dom_addrs [OF wf(2)] scores_None [of es e] wf(4) by simp
    then show ?thesis using d z None by auto
  next
    case (Some p)
    then have "addrs es ads e = Some (snd (deref d p))" using d(4) wf(3) by simp
    then obtain s where "zentry h (snd (deref d p)) = Some (s, e)" "m e = Some s"
      using addrs_entry [OF wf(2)] wf(4) by blast
    then show ?thesis using d z Some by (auto simp: zentry_node read_score_def)
  qed
qed

lemma zsetScore_spec:
  assumes "zset_wf (zhash env) zs h m"
  shows "\<exists>zs'. zsetScore env zs e h = Some (zs', map_option Num (m e)) \<and> zset_wf (zhash env) zs' h m"
proof -
  obtain d r where d: "dictFind (zhash env) (zdict zs) e = Some (d, r)" "zset_wf (zhash env) (zs\<lparr>zdict := d\<rparr>) h m"
    "case r of None \<Rightarrow> m e = None
     | Some p \<Rightarrow> \<exists>s. m e = Some s \<and> entry_at (zhash env) d e p \<and> read_score h (snd (deref d p)) = Some (Num s)"
    using zset_lookup [OF assms] by blast
  then show ?thesis by (cases r) (auto simp: zsetScore_def)
qed

text \<open>The two branches of \<open>zsetAdd\<close> that change the sorted set.\<close>

lemma zset_update:
  assumes wf: "zset_wf hf zs h m" and p: "entry_at hf (zdict zs) e p" and s: "m e = Some s"
    and len: "card (dom m) < 2 ^ 32" and rs: "zslRandomLevel rs \<noteq> None"
  shows "\<exists>h' l y. zslUpdateScore rs (zlist zs) (Num s) e (Num ns) h = Some (h', l, y) \<and>
           zset_wf hf (zs\<lparr>zdict := dictSetVal (zdict zs) p y, zlist := l\<rparr>) h' (m(e \<mapsto> ns))"
proof -
  obtain ads es where w: "dict_wf hf (zdict zs)" "zsl_wf h (zlist zs) ads es" "dict_map (zdict zs) = addrs es ads"
    "scores es = m" using wf by (auto simp: zset_wf_def)
  have len': "length es < 2 ^ 32" using len zset_card [OF w(2)] w(4) by simp
  obtain h' l y ads' es' where u: "zslUpdateScore rs (zlist zs) (Num s) e (Num ns) h = Some (h', l, y)"
    "zsl_wf h' l ads' es'" "scores es' = (scores es)(e \<mapsto> ns)" "addrs es' ads' = (addrs es ads)(e \<mapsto> y)"
    using zslUpdateScore_spec [OF w(2) _ len' rs] s w(4) by blast
  have "zset_wf hf (zs\<lparr>zdict := dictSetVal (zdict zs) p y, zlist := l\<rparr>) h' (m(e \<mapsto> ns))"
    by (rule zset_wfI [where ads = ads' and es = es']) (use dictSetVal_spec [OF w(1) p, of y] u w(3,4) in simp_all)
  then show ?thesis using u(1) by blast
qed

lemma zset_insert:
  assumes wf: "zset_wf hf zs h m" and e: "m e = None" and len: "card (dom m) + 1 < 2 ^ 32"
    and rs: "zslRandomLevel rs \<noteq> None"
  shows "\<exists>h' l x d'. zslInsert rs (zlist zs) (Num s) e h = Some (h', l, x) \<and>
           dictAdd hf can 0 (zdict zs) e x = Some (d', True) \<and>
           zset_wf hf (zs\<lparr>zdict := d', zlist := l\<rparr>) h' (m(e \<mapsto> s))"
proof -
  obtain ads es where w: "dict_wf hf (zdict zs)" "zsl_wf h (zlist zs) ads es" "dict_map (zdict zs) = addrs es ads"
    "scores es = m" using wf by (auto simp: zset_wf_def)
  have e': "e \<notin> snd ` set es" using e w(4) scores_None by blast
  have len': "length es + 1 < 2 ^ 32" using len zset_card [OF w(2)] w(4) by simp
  obtain h' l x ads' es' where u: "zslInsert rs (zlist zs) (Num s) e h = Some (h', l, x)"
    "zsl_wf h' l ads' es'" "scores es' = (scores es)(e \<mapsto> s)" "addrs es' ads' = (addrs es ads)(e \<mapsto> x)"
    using zslInsert_maps [OF w(2) e' len' rs, of s] by blast
  have "e \<notin> dom (addrs es ads)" using dom_addrs [OF w(2)] e' by simp
  then have new: "dict_map (zdict zs) e = None" using w(3) by auto
  have "card (dom (dict_map (zdict zs))) = length es"
    using dom_addrs [OF w(2)] w(3) zset_card [OF w(2)] scores_None [of es] by (simp add: dom_def)
  then have "dictSize (zdict zs) < 2 ^ 62" using dict_size_card [OF w(1)] len' by simp
  from dictAdd_spec [OF w(1) this, of can 0 e x] new
  obtain d' where d': "dictAdd hf can 0 (zdict zs) e x = Some (d', True)" "dict_wf hf d'"
    "dict_map d' = (dict_map (zdict zs))(e \<mapsto> x)" by auto
  have "zset_wf hf (zs\<lparr>zdict := d', zlist := l\<rparr>) h' (m(e \<mapsto> s))"
    by (rule zset_wfI [where ads = ads' and es = es']) (use d' u w(3,4) in simp_all)
  then show ?thesis using u(1) d'(1) by blast
qed

lemma zsetAdd_spec:
  assumes wf: "zset_wf (zhash env) zs h m" and len: "card (dom m) + 1 < 2 ^ 32" and rs: "zslRandomLevel rs \<noteq> None"
  shows "case zadd_spec (fadd env) s e incr nx xx m of (m', ok, flag, ns) \<Rightarrow>
           \<exists>h' zs'. zsetAdd env rs zs s e incr nx xx h = Some (h', zs', ok, flag, ns) \<and> zset_wf (zhash env) zs' h' m'"
proof (cases s)
  case NaN
  then show ?thesis using wf by (auto simp: zsetAdd_def zadd_spec_def isnan_def)
next
  case (Num v)
  obtain d r where d: "dictFind (zhash env) (zdict zs) e = Some (d, r)" "zset_wf (zhash env) (zs\<lparr>zdict := d\<rparr>) h m"
    "case r of None \<Rightarrow> m e = None
     | Some p \<Rightarrow> \<exists>s. m e = Some s \<and> entry_at (zhash env) d e p \<and> read_score h (snd (deref d p)) = Some (Num s)"
    using zset_lookup [OF wf] by blast
  show ?thesis
  proof (cases r)
    case None
    then have e: "m e = None" using d(3) by simp
    obtain h' l x d' where i: "zslInsert rs (zlist zs) (Num v) e h = Some (h', l, x)"
      "dictAdd (zhash env) (zresize env) 0 d e x = Some (d', True)"
      "zset_wf (zhash env) (zs\<lparr>zdict := d', zlist := l\<rparr>) h' (m(e \<mapsto> v))"
      using zset_insert [OF d(2) e len rs, of v "zresize env"] by auto
    then show ?thesis using Num d(1,2) None e by (auto simp: zsetAdd_def zadd_spec_def isnan_def)
  next
    case (Some p)
    then obtain cur where cur: "m e = Some cur" "entry_at (zhash env) d e p" "read_score h (snd (deref d p)) = Some (Num cur)"
      using d(3) by auto
    have len': "card (dom m) < 2 ^ 32" using len by simp
    have upd: "\<exists>h' l y. zslUpdateScore rs (zlist zs) (Num cur) e (Num w) h = Some (h', l, y) \<and>
        zset_wf (zhash env) (zs\<lparr>zdict := dictSetVal d p y, zlist := l\<rparr>) h' (m(e \<mapsto> w))" for w
      using zset_update [OF d(2) _ cur(1) len' rs, of p w] cur(2) by simp
    define ns where "ns = (if incr then fadd env (Num v) (Num cur) else Num v)"
    have run: "zsetAdd env rs zs s e incr nx xx h =
      (if nx then Some (h, zs\<lparr>zdict := d\<rparr>, True, ZADD_NOP, None)
       else if incr \<and> isnan ns then Some (h, zs\<lparr>zdict := d\<rparr>, False, ZADD_NAN, None)
       else if \<not> feq ns (Num cur) then do {
         (h, l, znode) \<leftarrow> zslUpdateScore rs (zlist zs) (Num cur) e ns h;
         Some (h, zs\<lparr>zdict := dictSetVal d p znode, zlist := l\<rparr>, True, ZADD_UPDATED, if incr then Some ns else None) }
       else Some (h, zs\<lparr>zdict := d\<rparr>, True, ZADD_NONE, if incr then Some ns else None))"
      using d(1) Some cur(3) Num by (simp add: zsetAdd_def isnan_def ns_def Let_def)
    have sp: "zadd_spec (fadd env) s e incr nx xx m =
      (if nx then (m, True, ZADD_NOP, None)
       else case ns of
         NaN \<Rightarrow> (m, False, ZADD_NAN, None)
       | Num w \<Rightarrow> (m(e \<mapsto> w), True, if w = cur then ZADD_NONE else ZADD_UPDATED, if incr then Some (Num w) else None))"
      using Num cur(1) by (simp add: zadd_spec_def ns_def)
    show ?thesis
    proof (cases ns)
      case NaN
      then have incr using ns_def by (cases incr) auto
      then show ?thesis unfolding run sp using NaN d(2) by (simp add: isnan_def)
    next
      case w: (Num w)
      show ?thesis
      proof (cases "w = cur")
        case True
        then have "m(e \<mapsto> w) = m" using cur(1) by (simp add: fun_upd_idem)
        then show ?thesis unfolding run sp using w True d(2) by (simp add: isnan_def)
      next
        case False
        then show ?thesis unfolding run sp using w d(2) upd [of w] by (auto simp: isnan_def)
      qed
    qed
  qed
qed

lemma zsetDel_spec:
  assumes wf: "zset_wf (zhash env) zs h m"
  shows "\<exists>h' zs'. zsetDel env zs e h = Some (h', zs', m e \<noteq> None) \<and> zset_wf (zhash env) zs' h' (m(e := None))"
proof -
  obtain ads es where w: "dict_wf (zhash env) (zdict zs)" "zsl_wf h (zlist zs) ads es" "dict_map (zdict zs) = addrs es ads"
    "scores es = m" using wf by (auto simp: zset_wf_def)
  obtain d where d: "dictUnlink (zhash env) (zdict zs) e = Some (d, map_option (Pair e) (addrs es ads e))"
    "dict_wf (zhash env) d" "dict_map d = (addrs es ads)(e := None)"
    using dictGenericDelete_spec [OF w(1), of e] w(3) by (auto simp: dictUnlink_def)
  show ?thesis
  proof (cases "m e")
    case None
    then have "e \<notin> dom (addrs es ads)" using dom_addrs [OF w(2)] scores_None [of es e] w(4) by simp
    then have a: "addrs es ads e = None" by auto
    have "zset_wf (zhash env) (zs\<lparr>zdict := d\<rparr>) h (m(e := None))"
      by (rule zset_wfI [where ads = ads and es = es]) (use w d a None in \<open>simp_all add: fun_upd_idem\<close>)
    then show ?thesis using d(1) a None by (simp add: zsetDel_def)
  next
    case (Some s)
    obtain h' l x ads' es' where del: "zslDelete (zlist zs) (Num s) e False h = Some (h', l, Some x)" "zsl_wf h' l ads' es'"
      "scores es' = (scores es)(e := None)" "addrs es' ads' = (addrs es ads)(e := None)" "addrs es ads e = Some x"
      using zslDelete_maps [OF w(2), of e s False] Some w(4) by blast
    have "\<exists>s'. zentry h x = Some (s', e) \<and> m e = Some s'" using addrs_entry [OF w(2) del(5)] w(4) by blast
    then have rd: "read_score h x = Some (Num s)" using Some by (auto simp: zentry_node read_score_def)
    let ?zs = "\<lparr>zdict = (if htNeedsResize d then fst (dictResize (zresize env) d) else d), zlist = l\<rparr>"
    have "zset_wf (zhash env) ?zs h' (m(e := None))"
      by (rule zset_wfI [where ads = ads' and es = es'])
        (use d(2,3) del w(4) dictResize_keeps [OF d(2), of "zresize env"] in auto)
    then show ?thesis using d(1) del rd Some by (simp add: zsetDel_def)
  qed
qed

lemma rank_count:
  assumes wf: "zsl_wf h zsl ads (E @ (s, e) # F)"
  shows "card {e'. \<exists>s'. scores (E @ (s, e) # F) e' = Some s' \<and> kless (s', e') (s, e)} = length E"
    and "card {e'. \<exists>s'. scores (E @ (s, e) # F) e' = Some s' \<and> kless (s, e) (s', e')} = length F"
proof -
  let ?es = "E @ (s, e) # F"
  have sorted: "sorted_wrt kless ?es" and dist: "distinct (map snd ?es)" using wf by (simp_all add: zsl_wf_def)
  have E: "\<forall>p\<in>set E. kless p (s, e) \<and> \<not> kless (s, e) p" and F: "\<forall>p\<in>set F. kless (s, e) p \<and> \<not> kless p (s, e)"
    using sorted by (auto simp: sorted_wrt_append dest: kless_asym)
  have "{e'. \<exists>s'. scores ?es e' = Some s' \<and> kless (s', e') (s, e)} = snd ` set E"
    unfolding scores_eq [OF wf] using E F by force
  then show "card {e'. \<exists>s'. scores ?es e' = Some s' \<and> kless (s', e') (s, e)} = length E"
    using dist distinct_card [of "map snd E"] by simp
  have "{e'. \<exists>s'. scores ?es e' = Some s' \<and> kless (s, e) (s', e')} = snd ` set F"
    unfolding scores_eq [OF wf] using E F by force
  then show "card {e'. \<exists>s'. scores ?es e' = Some s' \<and> kless (s, e) (s', e')} = length F"
    using dist distinct_card [of "map snd F"] by simp
qed

lemma zsetRank_spec:
  assumes wf: "zset_wf (zhash env) zs h m" and len: "card (dom m) < 2 ^ 64"
  shows "\<exists>zs' r. zsetRank env zs e reverse h = Some (zs', r) \<and> zset_wf (zhash env) zs' h m \<and>
    map_option unat r = map_option (\<lambda>s. if reverse then card {e'. \<exists>s'. m e' = Some s' \<and> kless (s, e) (s', e')}
                                       else card {e'. \<exists>s'. m e' = Some s' \<and> kless (s', e') (s, e)}) (m e)"
proof -
  obtain d p where d: "dictFind (zhash env) (zdict zs) e = Some (d, p)" "zset_wf (zhash env) (zs\<lparr>zdict := d\<rparr>) h m"
    "case p of None \<Rightarrow> m e = None
     | Some p \<Rightarrow> \<exists>s. m e = Some s \<and> entry_at (zhash env) d e p \<and> read_score h (snd (deref d p)) = Some (Num s)"
    using zset_lookup [OF wf] by blast
  obtain ads es where w: "zsl_wf h (zlist zs) ads es" "scores es = m" using wf by (auto simp: zset_wf_def)
  show ?thesis
  proof (cases p)
    case None
    then show ?thesis using d by (auto simp: zsetRank_def)
  next
    case (Some q)
    then obtain s where s: "m e = Some s" "read_score h (snd (deref d q)) = Some (Num s)" using d(3) by auto
    then have "(s, e) \<in> set es" using scores_eq [OF w(1)] w(2) by blast
    then obtain E F where es: "es = E @ (s, e) # F" by (auto simp: in_set_conv_decomp)
    obtain A B where ads: "ads = A @ B" "length A = length E" using split_lists [OF w(1) es] .
    obtain x B' where B: "B = x # B'" using zsl_wf_length [OF w(1)] ads es by (cases B) auto
    have rank: "zslGetRank (zlist zs) (Num s) e h = Some (of_nat (Suc (length A)))"
      using zslGetRank_found [of h "zlist zs" A x B' E s e F] w(1) ads B es by simp
    have n: "length es < 2 ^ 64" using len zset_card [OF w(1)] w(2) by simp
    have u: "unat (of_nat k :: u64) = k" if "k \<le> length es" for k
      using that n by (simp add: unsigned_of_nat take_bit_nat_eq_self)
    have zl: "zsetLength zs = of_nat (length es)" using w(1) zsl_wf_length [OF w(1)] by (simp add: zsetLength_def zsl_wf_def)
    have "of_nat (Suc (length A)) \<noteq> (0 :: u64)"
    proof
      assume "of_nat (Suc (length A)) = (0 :: u64)"
      then have "unat (of_nat (Suc (length A)) :: u64) = 0" by (simp only: unsigned_0)
      then show False using u [of "Suc (length A)"] es ads by simp
    qed
    then have run: "zsetRank env zs e reverse h = Some (zs\<lparr>zdict := d\<rparr>,
        Some (if reverse then of_nat (length es) - of_nat (Suc (length A)) else of_nat (Suc (length A)) - 1))"
      using d(1) Some s(2) rank zl by (simp add: zsetRank_def Let_def)
    have "(of_nat (length es) - of_nat (Suc (length A)) :: u64) = of_nat (length F)"
      "(of_nat (Suc (length A)) - 1 :: u64) = of_nat (length E)"
      using es ads by (simp_all add: algebra_simps)
    then show ?thesis
      using run d(2) s(1) rank_count [OF w(1) [unfolded es]] u [of "length F"] u [of "length E"] es w(2) by auto
  qed
qed

section \<open>Creation and release\<close>

definition createZsetObject :: "'s double \<Rightarrow> 's zheap \<Rightarrow> ('s zheap \<times> zset) option" where
  "createZsetObject zero h = do { (h, l) \<leftarrow> zslCreate zero h; Some (h, \<lparr>zdict = dictCreate, zlist = l\<rparr>) }"

lemma zslCreate_spec:
  assumes alloc: "\<And>a. znodes h a \<noteq> None \<Longrightarrow> a < zbrk h"
  shows "\<exists>h' zsl. zslCreate zero h = Some (h', zsl) \<and> zsl_wf h' zsl [] [] \<and> zbrk h' = zbrk h + 1"
proof -
  obtain h1 a where c: "zslCreateNode ZSKIPLIST_MAXLEVEL zero None h = (h1, a)" by fastforce
  note cs = create_shape [OF c]
  define F where "F = (\<lambda>i::nat. \<lambda>b. \<lambda>g :: nat \<Rightarrow> zskiplistLevel option.
     if b = a then map_option (\<lambda>l. l\<lparr>forward := None, span := 0\<rparr>) (g b) else g b)"
  have "\<exists>h'. for_up 0 ZSKIPLIST_MAXLEVEL (\<lambda>j. set_level a j (\<lambda>l. l\<lparr>forward := None, span := 0\<rparr>)) h1 = Some h' \<and>
      shape h' = shape h1 \<and> zbrk h' = zbrk h1 \<and>
      (\<forall>b k. get_level h' b k = (if 0 \<le> k \<and> k < 0 + ZSKIPLIST_MAXLEVEL then F k b (\<lambda>c. get_level h1 c k) else get_level h1 b k))"
  proof (rule for_up_levels [where G = "get_level h1"])
    fix j h'
    assume j: "0 \<le> j" "j < 0 + ZSKIPLIST_MAXLEVEL" and h': "shape h' = shape h1" "zbrk h' = zbrk h1"
    have "j < height h' a" using j cs(4) shape_eq_height [OF h'(1)] by simp
    then show "\<exists>h''. set_level a j (\<lambda>l. l\<lparr>forward := None, span := 0\<rparr>) h' = Some h'' \<and> shape h'' = shape h1 \<and>
        zbrk h'' = zbrk h1 \<and>
        (\<forall>b k. get_level h'' b k = (if k = j then F j b (\<lambda>c. get_level h' c j) else get_level h' b k))"
      using h' by (auto simp: set_level_eq F_def)
  qed simp_all
  then obtain h2 where h2: "for_up 0 ZSKIPLIST_MAXLEVEL (\<lambda>j. set_level a j (\<lambda>l. l\<lparr>forward := None, span := 0\<rparr>)) h1 = Some h2"
    "shape h2 = shape h1" "zbrk h2 = zbrk h1"
    "\<And>b k. k < ZSKIPLIST_MAXLEVEL \<Longrightarrow> get_level h2 b k = F k b (\<lambda>c. get_level h1 c k)"
    by auto
  let ?h = "upd_back a None h2" and ?zsl = "\<lparr>header = a, tail = None, zlength = 0, level = 1\<rparr>"
  have sh: "shape h2 a = Some (None, zero, fresh_backward h, ZSKIPLIST_MAXLEVEL)" using h2(2) cs(3) by simp
  have run: "zslCreate zero h = Some (?h, ?zsl)"
    using c h2(1) sh by (simp add: zslCreate_def set_back_eq)
  have H: "height h2 a = ZSKIPLIST_MAXLEVEL" using sh by (simp add: height_shape)
  have lvl: "get_level ?h a i = Some \<lparr>forward = None, span = 0\<rparr>" if "i < ZSKIPLIST_MAXLEVEL" for i
  proof -
    have "i < height h1 a" using that cs(4) by simp
    then obtain l where "get_level h1 a i = Some l" using get_level_some by blast
    then show ?thesis using h2(4) [OF that, of a] by (simp add: F_def)
  qed
  have "\<forall>b. shape ?h b \<noteq> None \<longrightarrow> b < zbrk ?h"
  proof (intro allI impI)
    fix b
    assume "shape ?h b \<noteq> None"
    then have "b = a \<or> shape h b \<noteq> None" using h2(2) cs(3) by (auto split: if_splits)
    then show "b < zbrk ?h" using h2(3) cs(1,2) alloc [of b] by (auto simp: shape_def)
  qed
  moreover have "links (height ?h) (get_level ?h) 1 [a]"
    using lvl by (auto simp: links_def Cons_eq_append_conv ZSKIPLIST_MAXLEVEL_def)
  ultimately have "zsl_wf ?h ?zsl [] []"
    using sh lvl by (simp add: zsl_wf_def ZSKIPLIST_MAXLEVEL_def backs_def last_opt_def)
  then show ?thesis using run h2(3) cs(2) by auto
qed

lemma free_loop_spec:
  assumes "zsl_wf h zsl (A @ B) es" and "\<And>a. a \<in> set B \<Longrightarrow> znodes g a = znodes h a"
  shows "free_loop (if B = [] then None else Some (hd B)) g =
           Some (g\<lparr>znodes := (\<lambda>a. if a \<in> set B then None else znodes g a)\<rparr>)"
  using assms
proof (induction B arbitrary: A g)
  case Nil
  then show ?case by (subst free_loop.simps) simp
next
  case (Cons b B)
  have dist: "b \<notin> set B" using Cons.prems(1) by (simp add: zsl_wf_def)
  have "znodes h b \<noteq> None" using zsl_wf_alloc [OF Cons.prems(1), of b] by simp
  then have g: "znodes g b \<noteq> None" using Cons.prems(2) [of b] by simp
  obtain d where "get_level h b 0 = Some \<lparr>forward = (if B = [] then None else Some (hd B)), span = d\<rparr>"
    using level0_next [OF Cons.prems(1), of "A @ [b]" B] by auto
  then have l: "get_level g b 0 = Some \<lparr>forward = (if B = [] then None else Some (hd B)), span = d\<rparr>"
    using Cons.prems(2) [of b] by (simp add: get_level_def)
  have wf': "zsl_wf h zsl ((A @ [b]) @ B) es" using Cons.prems(1) by simp
  have same: "znodes (g\<lparr>znodes := (znodes g)(b := None)\<rparr>) a = znodes h a" if "a \<in> set B" for a
    using Cons.prems(2) [of a] that dist by auto
  have "free_loop (if B = [] then None else Some (hd B)) (g\<lparr>znodes := (znodes g)(b := None)\<rparr>) =
      Some (g\<lparr>znodes := (\<lambda>a. if a \<in> set B then None else ((znodes g)(b := None)) a)\<rparr>)"
    using Cons.IH [OF wf' same] by (simp cong: if_cong)
  moreover have "(\<lambda>a. if a \<in> set B then None else ((znodes g)(b := None)) a) = (\<lambda>a. if a \<in> set (b # B) then None else znodes g a)"
    by auto
  ultimately show ?case using l g by (subst free_loop.simps) (auto simp: zslFreeNode_eq)
qed

text \<open>\<open>zslFree\<close> releases the header and every node, and nothing else.\<close>

lemma zslFree_spec:
  assumes wf: "zsl_wf h zsl ads es"
  shows "zslFree zsl h = Some (h\<lparr>znodes := (\<lambda>a. if a \<in> set (header zsl # ads) then None else znodes h a)\<rparr>)"
proof -
  obtain d where l: "get_level h (header zsl) 0 = Some \<lparr>forward = (if ads = [] then None else Some (hd ads)), span = d\<rparr>"
    using level0_next [OF wf, of "[]" ads] by auto
  have hd: "znodes h (header zsl) \<noteq> None" "header zsl \<notin> set ads"
    using zsl_wf_alloc [OF wf, of "header zsl"] wf by (auto simp: zsl_wf_def)
  have wf': "zsl_wf h zsl ([] @ ads) es" using wf by simp
  have same: "znodes (h\<lparr>znodes := (znodes h)(header zsl := None)\<rparr>) a = znodes h a" if "a \<in> set ads" for a
    using that hd(2) by auto
  have "free_loop (if ads = [] then None else Some (hd ads)) (h\<lparr>znodes := (znodes h)(header zsl := None)\<rparr>) =
      Some (h\<lparr>znodes := (\<lambda>a. if a \<in> set ads then None else ((znodes h)(header zsl := None)) a)\<rparr>)"
    using free_loop_spec [OF wf' same] by (simp cong: if_cong)
  moreover have "(\<lambda>a. if a \<in> set ads then None else ((znodes h)(header zsl := None)) a) =
      (\<lambda>a. if a \<in> set (header zsl # ads) then None else znodes h a)"
    by auto
  ultimately show ?thesis using l hd(1) by (simp add: zslFree_def zslFreeNode_eq)
qed

section \<open>Sequences of operations\<close>

datatype 's zset_op =
    Op_zadd "u64 list" "'s double" sds bool bool bool
  | Op_zdel sds
  | Op_zscore sds
  | Op_zrank sds bool

datatype 's zset_res = Res_add bool zadd_flag "'s double option" | Res_del bool | Res_score "'s double option" | Res_rank "nat option"

fun zset_exec :: "'s::linorder zset_env \<Rightarrow> 's zset_op \<Rightarrow> zset \<times> 's zheap \<Rightarrow> ((zset \<times> 's zheap) \<times> 's zset_res) option" where
  "zset_exec env (Op_zadd rs s e incr nx xx) (zs, h) = do {
     (h, zs, ok, flag, ns) \<leftarrow> zsetAdd env rs zs s e incr nx xx h; Some ((zs, h), Res_add ok flag ns) }"
| "zset_exec env (Op_zdel e) (zs, h) = do { (h, zs, ok) \<leftarrow> zsetDel env zs e h; Some ((zs, h), Res_del ok) }"
| "zset_exec env (Op_zscore e) (zs, h) = do { (zs, s) \<leftarrow> zsetScore env zs e h; Some ((zs, h), Res_score s) }"
| "zset_exec env (Op_zrank e b) (zs, h) = do {
     (zs, r) \<leftarrow> zsetRank env zs e b h; Some ((zs, h), Res_rank (map_option unat r)) }"

text \<open>The rank of an element is the number of elements before it, or behind it when counted from the end.\<close>

definition rank_in :: "(sds \<rightharpoonup> 's::linorder) \<Rightarrow> bool \<Rightarrow> 's \<times> sds \<Rightarrow> nat" where
  "rank_in m b k =
     card {e'. \<exists>s'. m e' = Some s' \<and> (if b then kless k (s', e') else kless (s', e') k)}"

fun zset_spec :: "('s double \<Rightarrow> 's double \<Rightarrow> 's double) \<Rightarrow> 's::linorder zset_op \<Rightarrow> (sds \<rightharpoonup> 's) \<Rightarrow> (sds \<rightharpoonup> 's) \<times> 's zset_res" where
  "zset_spec add (Op_zadd rs s e incr nx xx) m =
     (case zadd_spec add s e incr nx xx m of (m', ok, flag, ns) \<Rightarrow> (m', Res_add ok flag ns))"
| "zset_spec add (Op_zdel e) m = (m(e := None), Res_del (m e \<noteq> None))"
| "zset_spec add (Op_zscore e) m = (m, Res_score (map_option Num (m e)))"
| "zset_spec add (Op_zrank e b) m = (m, Res_rank (map_option (\<lambda>s. rank_in m b (s, e)) (m e)))"

text \<open>The draws of \<open>random()\<close> that an insertion gets must end its loop.\<close>

fun draws_end :: "'s zset_op \<Rightarrow> bool" where
  "draws_end (Op_zadd rs s e incr nx xx) \<longleftrightarrow> zslRandomLevel rs \<noteq> None"
| "draws_end _ \<longleftrightarrow> True"

definition zset_related :: "(sds \<Rightarrow> u64) \<Rightarrow> zset \<times> 's::linorder zheap \<Rightarrow> (sds \<rightharpoonup> 's) \<Rightarrow> bool" where
  "zset_related hf c m = zset_wf hf (fst c) (snd c) m"

lemma zset_finite: "zset_related hf c m \<Longrightarrow> finite (dom m)"
  by (auto simp: zset_related_def zset_wf_def scores_def finite_dom_map_of)

lemma zset_exec_spec:
  assumes rel: "zset_related (zhash env) c m" and op: "draws_end x" and len: "card (dom m) < 2 ^ 32 - 1"
  shows "\<exists>c'. zset_exec env x c = Some (c', snd (zset_spec (fadd env) x m)) \<and>
           zset_related (zhash env) c' (fst (zset_spec (fadd env) x m))"
proof -
  obtain zs h where c: "c = (zs, h)" by (cases c)
  have wf: "zset_wf (zhash env) zs h m" using rel c by (simp add: zset_related_def)
  show ?thesis
  proof (cases x)
    case (Op_zadd rs s e incr nx xx)
    obtain m' ok flag ns where sp: "zadd_spec (fadd env) s e incr nx xx m = (m', ok, flag, ns)"
      by (cases "zadd_spec (fadd env) s e incr nx xx m")
    show ?thesis
      using zsetAdd_spec [OF wf, of rs s e incr nx xx] op len c sp Op_zadd by (auto simp: zset_related_def)
  next
    case (Op_zdel e)
    then show ?thesis using zsetDel_spec [OF wf, of e] c by (auto simp: zset_related_def)
  next
    case (Op_zscore e)
    then show ?thesis using zsetScore_spec [OF wf, of e] c by (auto simp: zset_related_def)
  next
    case (Op_zrank e b)
    obtain zs' r where r: "zsetRank env zs e b h = Some (zs', r)" "zset_wf (zhash env) zs' h m"
      "map_option unat r = map_option (\<lambda>s. rank_in m b (s, e)) (m e)"
      using zsetRank_spec [OF wf, of e b] len by (cases b) (auto simp: rank_in_def)
    then show ?thesis using Op_zrank c by (auto simp: zset_related_def)
  qed
qed

lemma zset_spec_weight:
  assumes "zset_related hf c m"
  shows "card (dom (fst (zset_spec add x m))) \<le> Suc (card (dom m))"
proof -
  have "\<exists>k. dom (fst (zset_spec add x m)) \<subseteq> insert k (dom m)"
    by (cases x) (auto simp: zadd_spec_def split: double.splits option.splits if_splits)
  then obtain k where "dom (fst (zset_spec add x m)) \<subseteq> insert k (dom m)" by blast
  then have "card (dom (fst (zset_spec add x m))) \<le> card (insert k (dom m))"
    using zset_finite [OF assms] by (intro card_mono) auto
  also have "\<dots> \<le> Suc (card (dom m))" by (rule card_insert_le_m1) auto
  finally show ?thesis .
qed

interpretation zset_sim: simulation "zset_related (zhash env)" draws_end "\<lambda>m. card (dom m)" "\<lambda>_. 1" "2 ^ 32 - 1"
  "zset_exec env" "zset_spec (fadd env)"
  by unfold_locales (rule zset_exec_spec, assumption+, simp, drule zset_spec_weight, simp)

section \<open>Properties\<close>

definition heap0 :: "int zheap" where
  "heap0 = \<lparr>znodes = Map.empty, zbrk = 0, fresh_level = \<lambda>_. \<lparr>forward = None, span = 7\<rparr>, fresh_backward = None\<rparr>"

text \<open>A list of two elements, made by the operations.\<close>

definition zsl_example :: "(int zheap \<times> zskiplist) option" where
  "zsl_example = do {
     (h, l) \<leftarrow> zslCreate (Num 0) heap0;
     (h, l, _) \<leftarrow> zslInsert [0xFFFF] l (Num 2) [97] h;
     (h, l, _) \<leftarrow> zslInsert [0, 0xFFFF] l (Num 1) [98] h;
     Some (h, l) }"

lemma zsl_example_wf: "\<exists>h l ads. zsl_example = Some (h, l) \<and> zsl_wf h l ads [(1, [98]), (2, [97])]"
proof -
  obtain h0 l0 where c: "zslCreate (Num 0) heap0 = Some (h0, l0)" "zsl_wf h0 l0 [] []"
    using zslCreate_spec [of heap0 "Num 0"] by (auto simp: heap0_def)
  have r: "zslRandomLevel [0xFFFF] = Some 1" "zslRandomLevel [0, 0xFFFF] = Some 2"
    by (simp_all add: zslRandomLevel_def ZSKIPLIST_MAXLEVEL_def)
  obtain h1 l1 x where i1: "zslInsert [0xFFFF] l0 (Num 2) [97] h0 = Some (h1, l1, x)" "zsl_wf h1 l1 [x] [(2, [97])]"
    using zslInsert_spec [OF c(2) _ _ r(1), of "[97]" 2] by auto
  obtain h2 l2 y A B E F where i2: "zslInsert [0, 0xFFFF] l1 (Num 1) [98] h1 = Some (h2, l2, y)" "[(2, [97])] = E @ F"
    "zsl_wf h2 l2 (A @ y # B) (E @ (1, [98]) # F)"
    using zslInsert_spec [OF i1(2) _ _ r(2), of "[98]" 1] by auto
  have "E = []" using i2(2,3) by (cases E) (auto simp: zsl_wf_def kless.simps)
  then show ?thesis using c(1) i1(1) i2 by (auto simp: zsl_example_def)
qed

lemma zset_create:
  assumes "\<And>a. znodes h a \<noteq> None \<Longrightarrow> a < zbrk h"
  shows "\<exists>h' zs. createZsetObject zero h = Some (h', zs) \<and> zset_related hf (zs, h') Map.empty"
proof -
  obtain h' l where c: "zslCreate zero h = Some (h', l)" "zsl_wf h' l [] []"
    using zslCreate_spec [OF assms] by blast
  have "zset_related hf (\<lparr>zdict = dictCreate, zlist = l\<rparr>, h') Map.empty"
    unfolding zset_related_def
    by (rule zset_wfI [where ads = "[]" and es = "[]"]) (use c(2) dictCreate_wf in \<open>simp_all add: addrs_def scores_def\<close>)
  then show ?thesis using c(1) by (auto simp: createZsetObject_def)
qed

text \<open>A sorted set of two elements, made by the operations.\<close>

definition zset_example :: "(zset \<times> int zheap) option" where
  "zset_example = do {
     (h, zs) \<leftarrow> createZsetObject (Num 0) heap0;
     (c, _) \<leftarrow> simulation.sim_exec (zset_exec \<lparr>zhash = \<lambda>_. 0, zresize = True, fadd = \<lambda>_ _. NaN\<rparr>)
       [Op_zadd [0xFFFF] (Num 2) [97] False False False, Op_zadd [0, 0xFFFF] (Num 1) [98] False False False] (zs, h);
     Some c }"

lemma zset_example_related:
  "\<exists>zs h. zset_example = Some (zs, h) \<and> zset_related (\<lambda>_. 0) (zs, h) [[97] \<mapsto> 2, [98] \<mapsto> 1]"
proof -
  let ?env = "\<lparr>zhash = \<lambda>_. 0, zresize = True, fadd = \<lambda>_ _. NaN\<rparr> :: int zset_env"
  let ?xs = "[Op_zadd [0xFFFF] (Num 2) [97] False False False, Op_zadd [0, 0xFFFF] (Num 1) [98] False False False] :: int zset_op list"
  have r: "zslRandomLevel [0xFFFF] = Some 1" "zslRandomLevel [0, 0xFFFF] = Some 2"
    by (simp_all add: zslRandomLevel_def ZSKIPLIST_MAXLEVEL_def)
  obtain h zs where c: "createZsetObject (Num 0) heap0 = Some (h, zs)" "zset_related (zhash ?env) (zs, h) Map.empty"
    using zset_create [of heap0 "Num 0" "zhash ?env"] by (auto simp: heap0_def)
  from zset_sim.sim_refines [OF c(2), of ?xs] r
  obtain c' where "simulation.sim_exec (zset_exec ?env) ?xs (zs, h) =
      Some (c', snd (simulation.sim_spec (zset_spec (fadd ?env)) ?xs Map.empty))"
    "zset_related (zhash ?env) c' (fst (simulation.sim_spec (zset_spec (fadd ?env)) ?xs Map.empty))" by auto
  moreover from this(1) have "zset_example = Some c'"
    using c(1) unfolding zset_example_def by (simp del: zset_sim.sim_exec.simps)
  moreover have "fst (simulation.sim_spec (zset_spec (fadd ?env)) ?xs Map.empty) = [[97] \<mapsto> 2, [98] \<mapsto> 1]"
    by (simp add: zset_sim.sim_spec.simps [where env = ?env, simplified] zadd_spec_def)
  ultimately show ?thesis by (cases c') (metis (no_types, lifting) zset_env.select_convs(1))
qed

text \<open>C14.  A sorted set of a skip list and a hash table is a map from elements to scores: every sequence of
  \<open>zsetAdd\<close> (with the options \<open>NX\<close>, \<open>XX\<close> and \<open>INCR\<close>), \<open>zsetDel\<close>, \<open>zsetScore\<close> and \<open>zsetRank\<close> calls, on fewer than
  \<open>2 ^ 32\<close> elements, follows no dangling pointer, fails no assertion and returns what the map returns; the rank of
  an element is the number of elements with a smaller score, or an equal score and a smaller name.\<close>
theorem zset_refines:
  assumes "zset_related (zhash env) c m" and "list_all draws_end xs" and "card (dom m) + length xs \<le> 2 ^ 32 - 1"
  shows "\<exists>c'. simulation.sim_exec (zset_exec env) xs c =
             Some (c', snd (simulation.sim_spec (zset_spec (fadd env)) xs m)) \<and>
           zset_related (zhash env) c' (fst (simulation.sim_spec (zset_spec (fadd env)) xs m))"
  by (rule zset_sim.sim_refines [OF assms(1,2)]) (use assms(3) in \<open>simp add: sum_list_triv\<close>)

theorem zset_refines_witness:
  "\<exists>h zs c'. createZsetObject (Num 0) heap0 = Some (h, zs) \<and>
     simulation.sim_exec (zset_exec \<lparr>zhash = \<lambda>_. 0, zresize = True, fadd = \<lambda>_ _. NaN\<rparr>)
       [Op_zadd [0xFFFF] (Num 5) [97] False False False, Op_zadd [0xFFFF] (Num 6) [97] False True False,
        Op_zadd [0xFFFF] (Num 3) [97] False False False, Op_zadd [0xFFFF] (Num 1) [97] True False False,
        Op_zscore [97], Op_zdel [97], Op_zscore [97]] (zs, h) =
     Some (c', [Res_add True ZADD_ADDED (Some (Num 5)), Res_add True ZADD_NOP None, Res_add True ZADD_UPDATED None,
       Res_add False ZADD_NAN None, Res_score (Some (Num (3 :: int))), Res_del True, Res_score None])"
proof -
  let ?env = "\<lparr>zhash = \<lambda>_. 0, zresize = True, fadd = \<lambda>_ _. NaN\<rparr> :: int zset_env"
  let ?xs = "[Op_zadd [0xFFFF] (Num 5) [97] False False False, Op_zadd [0xFFFF] (Num 6) [97] False True False,
    Op_zadd [0xFFFF] (Num 3) [97] False False False, Op_zadd [0xFFFF] (Num 1) [97] True False False,
    Op_zscore [97], Op_zdel [97], Op_zscore [97]] :: int zset_op list"
  have r: "zslRandomLevel [0xFFFF] = Some 1" by (simp add: zslRandomLevel_def ZSKIPLIST_MAXLEVEL_def)
  obtain h zs where c: "createZsetObject (Num 0) heap0 = Some (h, zs)" "zset_related (zhash ?env) (zs, h) Map.empty"
    using zset_create [of heap0 "Num 0" "zhash ?env"] by (auto simp: heap0_def)
  from zset_refines [OF c(2), of ?xs] r
  obtain c' where "simulation.sim_exec (zset_exec ?env) ?xs (zs, h) =
      Some (c', snd (simulation.sim_spec (zset_spec (fadd ?env)) ?xs Map.empty))" by auto
  then show ?thesis using c(1) by (simp add: zset_sim.sim_spec.simps [where env = ?env, simplified] zadd_spec_def)
qed

text \<open>C37.  In a skip list the spans count the elements: \<open>zslGetRank\<close> of an element that is present returns one more
  than the number of elements before it, and \<open>zslGetElementByRank\<close> of that rank returns the node of the element.\<close>
theorem zsl_rank_roundtrip:
  assumes "zsl_wf h zsl ads es" and "(s, e) \<in> set es" and "length es + 1 < 2 ^ 64"
  shows "\<exists>k a. zslGetRank zsl (Num s) e h = Some k \<and> unat k = Suc (length (filter (\<lambda>p. kless p (s, e)) es)) \<and>
           zslGetElementByRank zsl k h = Some (Some a) \<and> zentry h a = Some (s, e)"
proof -
  obtain E F where es: "es = E @ (s, e) # F" using assms(2) by (auto simp: in_set_conv_decomp)
  obtain A B where ads: "ads = A @ B" "length A = length E" using split_lists [OF assms(1) es] .
  obtain x B' where B: "B = x # B'" using zsl_wf_length [OF assms(1)] ads es by (cases B) auto
  have wf: "zsl_wf h zsl (A @ x # B') (E @ (s, e) # F)" using assms(1) ads B es by simp
  have "sorted_wrt kless es" using assms(1) by (simp add: zsl_wf_def)
  then have f: "filter (\<lambda>p. kless p (s, e)) es = E"
    unfolding es by (auto simp: sorted_wrt_append filter_id_conv filter_empty_conv dest: kless_asym)
  have k: "Suc (length A) < 2 ^ 64" using assms(3) es ads by simp
  have "zslGetElementByRank zsl (of_nat (Suc (length A))) h = Some (Some x)"
    using zslGetElementByRank_spec [OF assms(1) _ k] assms(3) zsl_wf_length [OF assms(1)] ads B by (simp add: nth_append)
  moreover have "unat (of_nat (Suc (length A)) :: u64) = Suc (length A)"
    using k by (simp only: unsigned_of_nat) (simp add: take_bit_nat_eq_self)
  ultimately show ?thesis
    using zslGetRank_found [OF wf ads(2)] zentry_part(1) [OF wf ads(2)] f ads(2) by auto
qed

theorem zsl_rank_roundtrip_witness:
  "\<exists>h l k a. zsl_example = Some (h, l) \<and> zslGetRank l (Num 2) [97] h = Some k \<and> unat k = 2 \<and>
     zslGetElementByRank l k h = Some (Some a) \<and> zentry h a = Some (2, [97])"
proof -
  obtain h l ads where ex: "zsl_example = Some (h, l)" "zsl_wf h l ads [(1, [98]), (2, [97])]"
    using zsl_example_wf by blast
  have "\<exists>k a. zslGetRank l (Num 2) [97] h = Some k \<and>
      unat k = Suc (length (filter (\<lambda>p. kless p (2 :: int, [97])) [(1, [98]), (2, [97])])) \<and>
      zslGetElementByRank l k h = Some (Some a) \<and> zentry h a = Some (2, [97])"
    by (rule zsl_rank_roundtrip [OF ex(2)]) simp_all
  then have "\<exists>k a. zslGetRank l (Num 2) [97] h = Some k \<and> unat k = 2 \<and>
      zslGetElementByRank l k h = Some (Some a) \<and> zentry h a = Some (2, [97])"
    by (simp add: kless.simps numeral_2_eq_2)
  then show ?thesis using ex(1) by blast
qed

text \<open>C38.  \<open>zslFirstInRange\<close> and \<open>zslLastInRange\<close> return the first and the last node of the list whose score is in the
  range, where an end belongs to the range unless it is excluded, and \<open>NULL\<close> when there is none; no \<open>serverAssert\<close>
  fails.\<close>
theorem zsl_range_correct:
  assumes "zsl_wf h zsl ads es"
  shows "zslFirstInRange zsl rng h = Some (map_option fst (find (\<lambda>(a, p). score_in_range rng p) (zip ads es))) \<and>
         zslLastInRange zsl rng h = Some (map_option fst (find (\<lambda>(a, p). score_in_range rng p) (rev (zip ads es))))"
  using zslFirstInRange_spec [OF assms] zslLastInRange_spec [OF assms] zsl_wf_length [OF assms]
  by (simp add: first_in_def last_in_def zip_rev)

theorem zsl_range_correct_witness:
  "\<exists>h l a b. zsl_example = Some (h, l) \<and> zentry h a = Some (1, [98]) \<and> zentry h b = Some (2, [97]) \<and>
     zslFirstInRange l \<lparr>rmin = Num 1, rmax = Num 2, minex = False, maxex = False\<rparr> h = Some (Some a) \<and>
     zslLastInRange l \<lparr>rmin = Num 1, rmax = Num 2, minex = False, maxex = False\<rparr> h = Some (Some b) \<and>
     zslFirstInRange l \<lparr>rmin = Num 1, rmax = Num 2, minex = True, maxex = False\<rparr> h = Some (Some b) \<and>
     zslLastInRange l \<lparr>rmin = Num 1, rmax = Num 2, minex = False, maxex = True\<rparr> h = Some (Some a)"
proof -
  obtain h l ads where ex: "zsl_example = Some (h, l)" "zsl_wf h l ads [(1, [98]), (2, [97])]"
    using zsl_example_wf by blast
  then obtain a b where ads: "ads = [a, b]"
    using zsl_wf_length [OF ex(2)] by (cases ads; cases "tl ads") auto
  let ?r = "\<lambda>x y. \<lparr>rmin = Num 1, rmax = Num 2, minex = x, maxex = y\<rparr> :: int zrangespec"
  have "zentry h a = Some (1, [98])" "zentry h b = Some (2, [97])"
    using zsl_wf_nth [OF ex(2), of 0] zsl_wf_nth [OF ex(2), of 1] by (simp_all add: ads)
  moreover have "zslFirstInRange l (?r False False) h = Some (Some a)" "zslLastInRange l (?r False False) h = Some (Some b)"
    using zsl_range_correct [OF ex(2), of "?r False False"] by (simp_all add: ads score_in_range_def)
  moreover have "zslFirstInRange l (?r True False) h = Some (Some b)"
    using zsl_range_correct [OF ex(2), of "?r True False"] by (simp add: ads score_in_range_def)
  moreover have "zslLastInRange l (?r False True) h = Some (Some a)"
    using zsl_range_correct [OF ex(2), of "?r False True"] by (simp add: ads score_in_range_def)
  ultimately show ?thesis using ex(1) by blast
qed



text \<open>C40.  \<open>zslDeleteRangeByRank\<close> removes from the skip list and the hash table exactly the elements with the ranks from
  \<open>start\<close> to \<open>end\<close>, counted from 1, also when the bounds are beyond the last element or crossed, and returns their number.\<close>
theorem zsl_delete_by_rank:
  fixes start "end" :: u32
  assumes "zsl_wf h zsl ads es" and "dict_wf hf d" and "dict_map d = addrs es ads" and "length es + 1 < 2 ^ 64"
  shows "\<exists>h' zsl' ads' d' n. zslDeleteRangeByRank hf zsl start end d h = Some (h', zsl', d', n) \<and>
           zsl_wf h' zsl' ads' (take (unat start - 1) es @ drop (max (unat start - 1) (unat end)) es) \<and>
           dict_wf hf d' \<and>
           dict_map d' = addrs (take (unat start - 1) es @ drop (max (unat start - 1) (unat end)) es) ads' \<and>
           unat n = min (unat end) (length es) - (unat start - 1)"
proof -
  let ?s = "unat start - 1" and ?t = "unat end"
  have "(length es - ?s) < 2 ^ 64" using assms(4) by simp
  then have "unat (of_nat (length (take (?t - ?s) (drop ?s es))) :: u64) = min ?t (length es) - ?s"
    by (simp add: unsigned_of_nat take_bit_nat_eq_self) linarith
  then show ?thesis
    using zslDeleteRangeByRank_spec [OF assms, of start "end"] by blast
qed

theorem zsl_delete_by_rank_witness:
  "\<exists>zs h h' l' d' n. zset_example = Some (zs, h) \<and>
     zslDeleteRangeByRank (\<lambda>_. 0) (zlist zs) 2 5 (zdict zs) h = Some (h', l', d', n) \<and> unat n = 1"
proof -
  obtain zs h where c: "zset_example = Some (zs, h)" "zset_related (\<lambda>_. 0) (zs, h) [[97] \<mapsto> 2, [98] \<mapsto> 1]"
    using zset_example_related by blast
  then obtain ads es where w: "dict_wf (\<lambda>_. 0) (zdict zs)" "zsl_wf h (zlist zs) ads es"
    "dict_map (zdict zs) = addrs es ads" "scores es = [[97] \<mapsto> 2, [98] \<mapsto> 1]"
    by (auto simp: zset_related_def zset_wf_def)
  have "length es = 2" using zset_card [OF w(2)] w(4) by simp
  then have "\<exists>h' l' d' n. zslDeleteRangeByRank (\<lambda>_. 0) (zlist zs) 2 5 (zdict zs) h = Some (h', l', d', n) \<and> unat n = 1"
    using zsl_delete_by_rank [OF w(2,1,3), of 2 5] by auto
  then show ?thesis using c(1) by blast
qed

end
