(* ===== verification/Spec2Isabelle.thy ===== *)
theory Spec2Isabelle
  imports Redis_Intset Redis_Scan Redis_Set Redis_Transactions Redis_Commands Redis_Proto Redis_Pubsub Redis_Notify Redis_List Redis_Zset
begin

text \<open>
  \<^bold>\<open>A verification development for the Redis 5.0.6 server\<close> that this repository ships under
  \<open>redis-stable/src\<close>.  The rest of the repository is a web application around it and third-party code.

  \<^bold>\<open>The program.\<close>  A client sends requests over a connection.  \<open>networking.c\<close> cuts the bytes into argument
  vectors, \<open>server.c\<close> looks the command up, checks whether it may run and calls it (or, inside
  \<open>MULTI\<close>, queues it), and the command works on the keyspace of \<open>db.c\<close>: per database a dictionary of
  values, one of expires and one of the clients that watch a key.  Commands that change data mark the
  watching clients and are propagated to the append-only file and the replicas.  Below are the data
  structures: the incrementally rehashed hash table (\<open>dict.c\<close>), the sorted integer array (\<open>intset.c\<close>),
  strings (\<open>sds.c\<close>, \<open>object.c\<close>) and the conversions of \<open>util.c\<close>.

  \<^bold>\<open>The theories.\<close>

  \<^item> \<open>Redis_Prelude\<close>: bytes, bounds-checked memory blocks, little-endian codecs, signed reading, the
    collections of simplification rules.
  \<^item> \<open>Redis_Interfaces\<close>: the interfaces as locales.  \<open>member_set\<close> is what a set of integers promises,
    \<open>kv_map\<close> what a dictionary promises, \<open>simulation\<close> what an implementation owes to a specification in one step; the
    lemmas on sequences of calls are proved there once.
  \<^item> \<open>Redis_Intset\<close> (\<open>intset.c\<close>): the byte block with its three encodings, binary search, insertion with
    upgrade, removal.  It interprets \<open>member_set\<close>.
  \<^item> \<open>Redis_Util\<close> (\<open>util.c\<close>): \<open>digits10\<close>, \<open>ll2string\<close>, \<open>string2ll\<close>; printing and parsing are exact and inverse.
  \<^item> \<open>Redis_Dict\<close> (\<open>dict.c\<close>): two tables of bucket chains, expansion, incremental rehashing, lookup, insertion,
    deletion, clearing.  It interprets \<open>kv_map\<close>: every sequence of calls is memory safe and answers as a
    mathematical map, at any stage of a rehash.
  \<^item> \<open>Redis_Scan\<close> (\<open>dict.c\<close>): bit reversal, the cursor and \<open>dictScan\<close>; an iteration over a table that is being
    resized ends and visits every key that is present throughout.
  \<^item> \<open>Redis_Iter\<close> (\<open>dict.c\<close>): safe and unsafe iterators; each key is returned exactly once, also when the user of a safe
    iterator deletes the entries it is given.
  \<^item> \<open>Redis_Server\<close> (\<open>server.h\<close>, \<open>object.c\<close>, parts of \<open>server.c\<close>): the records of clients, databases and the server,
    string objects, replies, propagation, the command table, whose names are compared in full and without case.  A dictionary of the keyspace is here the
    map it represents, which is what \<open>Redis_Dict\<close> justifies.
  \<^item> \<open>Redis_Db\<close> (\<open>db.c\<close>, \<open>expire.c\<close>, marking of \<open>multi.c\<close>): lookup with lazy expiry, the basic operations, the
    keyspace and expire commands.  \<open>step_ok\<close> says that a step keeps the invariant \<open>db_inv\<close> and that every
    key is unchanged, has expired, or all clients watching it are marked; its rules compose along the
    code of a command.
  \<^item> \<open>Redis_String\<close> (\<open>t_string.c\<close>): the string commands and their \<open>step_ok\<close> lemmas.
  \<^item> \<open>Redis_Multi\<close> (\<open>multi.c\<close>, \<open>call\<close> and \<open>processCommand\<close> of \<open>server.c\<close>): \<open>WATCH\<close>, \<open>MULTI\<close>, \<open>EXEC\<close>, \<open>DISCARD\<close>, the
    checks before a command runs, and the invariant \<open>server_inv\<close>.
  \<^item> \<open>Redis_Transactions\<close>: the server as a state machine (requests, time, background expiry) and the
    properties of its runs: no request fails an assertion, a watched key that anybody changes between \<open>WATCH\<close>
    and \<open>EXEC\<close>, before or after \<open>MULTI\<close>, makes \<open>EXEC\<close> execute nothing, an error while queueing aborts the transaction.
    \<open>watching\<close> and \<open>in_tx\<close> say which requests the client itself may send meanwhile, \<open>seen\<close> what it sees of every action.
  \<^item> \<open>Redis_Commands\<close>: what the commands compute, as operations on the visible (unexpired) keys; and the
    places where numbers are not checked.
  \<^item> \<open>Redis_Sds\<close> (\<open>sds.c\<close>): integer printing, ranges, quoting and splitting, which are inverse.
  \<^item> \<open>Redis_Proto\<close> (\<open>networking.c\<close>, encoder of \<open>aof.c\<close>): the request parser; whatever way the bytes of encoded requests
    are cut into reads, exactly these requests are executed in order.
  \<^item> \<open>Redis_Set\<close> (\<open>t_set.c\<close>): set objects over \<open>Redis_Intset\<close> and \<open>Redis_Dict\<close>, which interpret \<open>member_set\<close> for strings, and
    the loops that compute unions, differences (by two algorithms) and intersections.
  \<^item> \<open>Redis_List\<close> (\<open>adlist.c\<close>): doubly linked lists on an explicit heap; the operations act on the sequence of values and
    touch no other list, and the node an iterator returned may be deleted.
  \<^item> \<open>Redis_Skiplist\<close> (\<open>t_zset.c\<close>): the skip list on an explicit heap of nodes.  \<open>links\<close> says what the forward pointers and
    spans of a level are, for a list of nodes and their heights; \<open>zsl_wf\<close> is the invariant of a whole list, with its
    sorted entries.  Searches, insertion, deletion and update of a score are shown to keep it.
  \<^item> \<open>Redis_Zset\<close> (\<open>t_zset.c\<close>): ranges by score and by element, ranks, deletion of ranges, and the sorted set object that
    keeps a skip list and a hash table of pointers into its nodes.  It interprets \<open>simulation\<close>: the object is a map from
    elements to scores.  \<open>zslInsert\<close> counts ranks in 32 bits, so these results are for fewer than \<open>2 ^ 32\<close> elements.
  \<^item> \<open>Redis_Glob\<close> (\<open>util.c\<close>): \<open>stringmatchlen\<close> against a declarative glob language with its own notion of
    literals and ranges.
  \<^item> \<open>Redis_Pubsub\<close> (\<open>pubsub.c\<close>): channels, patterns and publishing; the tables of the server implement a specification
    that knows the clients only, whatever the clients do and in whatever order an iterator returns the channels of a
    client (\<open>iter_order\<close>).
  \<^item> \<open>Redis_Notify\<close> (\<open>notify.c\<close>): notification classes, string and mask.

  \<^bold>\<open>Conventions.\<close>  A failed assertion, an access out of bounds and an impossible allocation are \<^const>\<open>None\<close>; that a
  function returns is proved as \<^const>\<open>Some\<close>.  Machine integers are words, or integers with the
  wrap-around written out.  Loops are recursive functions with a termination proof; the binary search
  and the input loop are \<^theory_text>\<open>partial_function\<close>s whose results are proved to exist.  There is no fuel but the step
  counts the code itself has (\<open>dictRehash\<close>).  The hash function is a parameter, of which nothing is assumed.

  \<^bold>\<open>Assumptions.\<close>  A little-endian machine with 64-bit \<open>long\<close>; at most \<open>2 ^ 62\<close> entries in a dictionary; one clock
  value during a command; no cluster mode, blocked clients, monitors, modules or scripts; requests that
  do not trigger the \<open>SETRANGE\<close> overflow that \<open>Redis_Commands\<close> exhibits.  Verdicts of code that is not
  modelled (eviction, disk state, replica count, cluster redirection) are fields of the server record,
  over which the properties quantify.

  \<^bold>\<open>Not modelled.\<close>  The other aggregate types and the commands around sets, replication, persistence files, the
  event loop, cluster, sentinel, scripting, modules, configuration and diagnostics; floating point
  (\<open>INCRBYFLOAT\<close>); the sampling of \<open>activeExpireCycle\<close> and of \<open>dictGetRandomKey\<close>; statistics, logs and access
  times.

  \<^bold>\<open>Plan.\<close>  Next: bit commands, and the translation of expires in
  the append-only file.
\<close>

end
